(* ===== verification/Coopy_Prelude.thy ===== *)
theory Coopy_Prelude
  imports Main "HOL-Library.Word" "HOL-Library.Multiset"
begin

text \<open>
  Shared vocabulary of the development: the C integer types as words, bounded array access, and
  the generic list lemmas that several components use.

  A C array is a list; an index outside it is an undefined access, which the models report
  instead of inventing a value.  \<open>SIZE_MAX\<close> is the largest \<open>size_t\<close> of a 64-bit target.
\<close>

unbundle bit_operations_syntax

type_synonym byte = "8 word"
type_synonym u16 = "16 word"
type_synonym u32 = "32 word"

named_theorems csv_defs \<open>definitions of the CSV automaton\<close>
named_theorems sheet_defs \<open>definitions of the sheet operations\<close>
named_theorems blob_simps \<open>rewrite rules for byte strings\<close>

definition SIZE_MAX :: nat where
  "SIZE_MAX = 2 ^ 64 - 1"

lemma SIZE_MAX_pos [simp]: "0 < SIZE_MAX"
  by (simp add: SIZE_MAX_def)

text \<open>The byte at an index, NUL behind the end; the bytes of a string literal.\<close>

definition byte_at :: "byte list \<Rightarrow> nat \<Rightarrow> byte" where
  "byte_at z i = (if i < length z then z ! i else 0)"

definition chars_of :: "string \<Rightarrow> byte list" where
  "chars_of s = map of_char s"

text \<open>Four bytes as a word, the highest first.\<close>

definition be32 :: "byte \<Rightarrow> byte \<Rightarrow> byte \<Rightarrow> byte \<Rightarrow> u32" where
  "be32 a b c d = ucast a * 2 ^ 24 + ucast b * 2 ^ 16 + ucast c * 2 ^ 8 + ucast d"

lemma be32_or:
  "(push_bit 24 (ucast a) OR push_bit 16 (ucast b) OR push_bit 8 (ucast c) OR ucast d) = be32 a b c d"
proof -
  have "(ucast d :: u32) + push_bit 8 (ucast c) = ucast d OR push_bit 8 (ucast c)"
    by (rule disjunctive_add) (auto simp: bit_simps dest: bit_imp_le_length)
  moreover have "(ucast d OR push_bit 8 (ucast c) :: u32) + push_bit 16 (ucast b)
      = ucast d OR push_bit 8 (ucast c) OR push_bit 16 (ucast b)"
    by (rule trans [OF disjunctive_add]) (auto simp: bit_simps or.assoc dest: bit_imp_le_length)
  moreover have "(ucast d OR push_bit 8 (ucast c) OR push_bit 16 (ucast b) :: u32) + push_bit 24 (ucast a)
      = ucast d OR push_bit 8 (ucast c) OR push_bit 16 (ucast b) OR push_bit 24 (ucast a)"
    by (rule trans [OF disjunctive_add]) (auto simp: bit_simps or.assoc dest: bit_imp_le_length)
  moreover have "be32 a b c d = ucast d + push_bit 8 (ucast c) + push_bit 16 (ucast b) + push_bit 24 (ucast a)"
    by (simp add: be32_def push_bit_eq_mult algebra_simps)
  ultimately have "be32 a b c d = ucast d OR push_bit 8 (ucast c) OR push_bit 16 (ucast b) OR push_bit 24 (ucast a)"
    by simp
  then show ?thesis
    by (simp add: or.assoc or.commute or.left_commute)
qed

subsection \<open>Lists\<close>

lemma take_list_update_snoc [simp]:
  "n < length b \<Longrightarrow> take (Suc n) (b[n := c]) = take n b @ [c]"
  by (simp add: take_Suc_conv_app_nth)

lemma take_list_update_ge [simp]:
  "n \<le> i \<Longrightarrow> take n (b[i := c]) = take n b"
  by (simp add: list_eq_iff_nth_eq)

lemma take_diff_append:
  "length ys = k \<Longrightarrow> n = length xs + k \<Longrightarrow> take (n - k) (xs @ ys) = xs"
  by simp

lemma length_filter_update:
  "i < length t \<Longrightarrow>
   length (filter P (t[i := x])) + of_bool (P (t ! i)) = length (filter P t) + of_bool (P x)"
proof (induction t arbitrary: i)
  case (Cons y t)
  then show ?case by (cases i) auto
qed simp

lemma exists_not_filtered: "length (filter P t) < length t \<Longrightarrow> \<exists>k < length t. \<not> P (t ! k)"
  by (metis filter_True in_set_conv_nth less_irrefl)

subsection \<open>Consumers of a stream of chunks\<close>

text \<open>
  Several components take their input piece by piece (the CSV parser, the hash generators).  The
  law of such an interface is that feeding a concatenation is feeding its parts in turn; then
  how the input is cut into chunks cannot matter.
\<close>

locale stream_consumer =
  fixes feed :: "'s \<Rightarrow> 'i list \<Rightarrow> 's"
  assumes feed_Nil: "feed s [] = s"
    and feed_append: "feed s (xs @ ys) = feed (feed s xs) ys"
begin

lemma feed_chunks: "foldl feed s chunks = feed s (concat chunks)"
  by (induction chunks arbitrary: s) (simp_all add: feed_Nil feed_append)

lemma feed_chunking_irrelevant:
  "concat cs = concat cs' \<Longrightarrow> foldl feed s cs = foldl feed s cs'"
  by (simp add: feed_chunks)

end

subsection \<open>Encodings\<close>

text \<open>
  An encoding with its decoder: on the values it is meant for, decoding undoes encoding, so no
  two of them share a code.
\<close>

locale codec =
  fixes valid :: "'a \<Rightarrow> bool" and enc :: "'a \<Rightarrow> 'b" and dec :: "'b \<Rightarrow> 'a"
  assumes dec_enc: "valid x \<Longrightarrow> dec (enc x) = x"
begin

lemma enc_inject: "valid x \<Longrightarrow> valid y \<Longrightarrow> enc x = enc y \<longleftrightarrow> x = y"
  using dec_enc by metis

lemma enc_inj_on: "inj_on enc {x. valid x}"
  by (rule inj_onI) (simp add: enc_inject)

lemma dec_in_range: "valid x \<Longrightarrow> enc (dec (enc x)) = enc x"
  by (simp add: dec_enc)

lemma map_dec_enc: "list_all valid xs \<Longrightarrow> map dec (map enc xs) = xs"
  by (induction xs) (simp_all add: dec_enc)

end

text \<open>
  A number format whose decoder finds the end of the number by itself, because no number can
  start with the character (\<open>stop\<close>) that follows it in the message.
\<close>

locale number_format =
  fixes put :: "'a \<Rightarrow> 'c list" and get :: "'c list \<Rightarrow> 'a \<times> 'c list" and stop :: "'c \<Rightarrow> bool"
  assumes get_put: "rest = [] \<or> stop (hd rest) \<Longrightarrow> get (put v @ rest) = (v, rest)"
begin

lemma get_put_Cons [simp]: "stop c \<Longrightarrow> get (put v @ c # rest) = (v, c # rest)"
  by (simp add: get_put)

lemma get_put_end [simp]: "get (put v) = (v, [])"
  using get_put [of "[]" v] by simp

lemma put_unique:
  "put v @ c # r = put v' @ c' # r' \<Longrightarrow> stop c \<Longrightarrow> stop c' \<Longrightarrow> v = v' \<and> c = c' \<and> r = r'"
proof -
  assume eq: "put v @ c # r = put v' @ c' # r'" and "stop c" "stop c'"
  then have "(v, c # r) = (v', c' # r')"
    using get_put_Cons [of c v r] get_put_Cons [of c' v' r'] unfolding eq by metis
  then show ?thesis by simp
qed

end

sublocale number_format \<subseteq> whole: codec "\<lambda>_. True" put "\<lambda>s. fst (get s)"
  by unfold_locales simp

end
