(* ===== verification/Typed_Sheet.thy ===== *)
theory Typed_Sheet
  imports Coopy_Prelude
begin

text \<open>
  The in-memory table of the diff and patch tools: \<open>TypedSheet\<close> and \<open>EscapedTypedSheet\<close> of
  \<^verbatim>\<open>src/libcoopy_core/include/coopy/TypedSheet.h\<close>, with the row and column operations the patcher
  applies to it.

  A sheet keeps its rows, its dimensions and the value of a fresh cell.  Row and column references
  are \<open>int\<close>s, -1 for the invalid one.  An operation returns what the method returns and the new
  sheet; \<open>None\<close> is an access outside of a vector, which is undefined behaviour in C++.
\<close>

section \<open>Vectors\<close>

definition vec_at :: "'a list \<Rightarrow> int \<Rightarrow> 'a option" where
  "vec_at xs i = (if 0 \<le> i \<and> nat i < length xs then Some (xs ! nat i) else None)"

definition vec_erase :: "'a list \<Rightarrow> int \<Rightarrow> 'a list option" where
  "vec_erase xs i = (if 0 \<le> i \<and> nat i < length xs then Some (take (nat i) xs @ drop (nat i + 1) xs) else None)"

definition vec_insert :: "'a list \<Rightarrow> int \<Rightarrow> 'a \<Rightarrow> 'a list option" where
  "vec_insert xs i v = (if 0 \<le> i \<and> nat i \<le> length xs then Some (take (nat i) xs @ v # drop (nat i) xs) else None)"

text \<open>A loop over all rows that stops with the first undefined access.\<close>

fun each_row :: "('a \<Rightarrow> 'a option) \<Rightarrow> 'a list \<Rightarrow> 'a list option" where
  "each_row f [] = Some []"
| "each_row f (r # rs) = Option.bind (f r) (\<lambda>r'. map_option (Cons r') (each_row f rs))"

section \<open>TypedSheet\<close>

record 'a typed_sheet =
  arr :: "'a list list"
  h :: int
  w :: int
  zero :: 'a

definition new_sheet :: "'a \<Rightarrow> 'a typed_sheet" where
  "new_sheet z = \<lparr>arr = [], h = 0, w = 0, zero = z\<rparr>"

definition clear :: "'a typed_sheet \<Rightarrow> 'a typed_sheet" where
  "clear s = s\<lparr>arr := [], h := 0, w := 0\<rparr>"

definition resize :: "int \<Rightarrow> int \<Rightarrow> 'a \<Rightarrow> 'a typed_sheet \<Rightarrow> 'a typed_sheet" where
  "resize w' h' z s = s\<lparr>arr := replicate (nat h') (replicate (nat w') z), h := h', w := w', zero := z\<rparr>"

definition resize0 :: "int \<Rightarrow> int \<Rightarrow> 'a typed_sheet \<Rightarrow> bool \<times> 'a typed_sheet" where
  "resize0 w' h' s = (True, resize w' h' (zero s) s)"

text \<open>The loop pads the first \<open>h\<close> rows to the width; it compares unsigned sizes with the given \<open>int\<close>s,
  so the dimensions are natural numbers here.\<close>

definition nonDestructiveResize :: "nat \<Rightarrow> nat \<Rightarrow> 'a \<Rightarrow> 'a typed_sheet \<Rightarrow> 'a typed_sheet" where
  "nonDestructiveResize w' h' z s =
     (let s = s\<lparr>zero := z\<rparr> in
      if h s = int h' \<and> w s = int w' then s
      else let rows = arr s @ replicate (h' - length (arr s)) [];
               padded = map (\<lambda>r. r @ replicate (w' - length r) z) (take h' rows) @ drop h' rows
           in s\<lparr>h := int h', w := int w', arr := padded\<rparr>)"

definition width :: "'a typed_sheet \<Rightarrow> int" where
  "width s = w s"

definition height :: "'a typed_sheet \<Rightarrow> int" where
  "height s = h s"

definition cell :: "int \<Rightarrow> int \<Rightarrow> 'a typed_sheet \<Rightarrow> 'a option" where
  "cell x y s = Option.bind (vec_at (arr s) y) (\<lambda>r. vec_at r x)"

text \<open>An assignment through the reference \<open>cell(x,y)\<close>.\<close>

definition cell_set :: "int \<Rightarrow> int \<Rightarrow> 'a \<Rightarrow> 'a typed_sheet \<Rightarrow> 'a typed_sheet option" where
  "cell_set x y v s =
     (case cell x y s of None \<Rightarrow> None
      | Some _ \<Rightarrow> Some (s\<lparr>arr := (arr s)[nat y := (arr s ! nat y)[nat x := v]]\<rparr>))"

definition deleteColumn :: "int \<Rightarrow> 'a typed_sheet \<Rightarrow> (bool \<times> 'a typed_sheet) option" where
  "deleteColumn offset s =
     (if offset < 0 then Some (False, s)
      else if offset \<ge> w s then Some (False, s)
      else map_option (\<lambda>a. (True, s\<lparr>arr := a, w := w s - 1\<rparr>)) (each_row (\<lambda>r. vec_erase r offset) (arr s)))"

definition insertColumn :: "int \<Rightarrow> 'a typed_sheet \<Rightarrow> (int \<times> 'a typed_sheet) option" where
  "insertColumn offset s =
     (if offset \<ge> w s then Some (-1, s)
      else map_option (\<lambda>a. (if offset \<ge> 0 then offset else w s + 1 - 1, s\<lparr>arr := a, w := w s + 1\<rparr>))
        (each_row (\<lambda>r. if offset \<ge> 0 then vec_insert r offset (zero s) else Some (r @ [zero s])) (arr s)))"

definition modifyColumn :: "int \<Rightarrow> 'a typed_sheet \<Rightarrow> bool \<times> 'a typed_sheet" where
  "modifyColumn base s = (True, s)"

definition moveColumn :: "int \<Rightarrow> int \<Rightarrow> 'a typed_sheet \<Rightarrow> (int \<times> 'a typed_sheet) option" where
  "moveColumn src base s =
     (let offset = base in
      if offset \<ge> w s then Some (-1, s)
      else let offset_src = src in
      if offset_src < 0 \<or> offset_src \<ge> w s then Some (-1, s)
      else let left = (offset \<le> offset_src \<and> offset \<noteq> -1);
               offset_del = (if left then offset_src + 1 else offset_src);
               final = (if left then offset else offset - 1)
           in map_option (\<lambda>a. (if offset < 0 then w s - 1 else final, s\<lparr>arr := a\<rparr>))
                (each_row (\<lambda>row. Option.bind (vec_at row offset_src) (\<lambda>v.
                   Option.bind (if offset \<ge> 0 then vec_insert row offset v else Some (row @ [v])) (\<lambda>row'.
                     vec_erase row' offset_del))) (arr s)))"

definition deleteRow :: "int \<Rightarrow> 'a typed_sheet \<Rightarrow> (bool \<times> 'a typed_sheet) option" where
  "deleteRow offset s =
     (if offset < 0 \<or> offset \<ge> h s then Some (False, s)
      else map_option (\<lambda>a. (True, s\<lparr>arr := a, h := h s - 1\<rparr>)) (vec_erase (arr s) offset))"

text \<open>The new row is filled through its index: for a sheet whose row count is not its height the
  fresh cells would go elsewhere.\<close>

definition insertRow :: "int \<Rightarrow> 'a typed_sheet \<Rightarrow> (int \<times> 'a typed_sheet) option" where
  "insertRow base s =
     (if base \<ge> h s then Some (-1, s)
      else Option.bind (if base < 0 then Some (arr s @ [[]], h s) else map_option (\<lambda>a. (a, base)) (vec_insert (arr s) base []))
        (\<lambda>(a, offset). if w s \<le> 0 then Some (offset, s\<lparr>arr := a, h := h s + 1\<rparr>)
           else map_option (\<lambda>r. (offset, s\<lparr>arr := a[nat offset := r @ replicate (nat (w s)) (zero s)], h := h s + 1\<rparr>))
                  (vec_at a offset)))"

definition moveRow :: "int \<Rightarrow> int \<Rightarrow> 'a typed_sheet \<Rightarrow> (int \<times> 'a typed_sheet) option" where
  "moveRow src base s =
     (let offset1 = src; offset2 = base in
      if offset1 \<ge> h s then Some (-1, s)
      else if offset2 \<ge> h s then Some (-1, s)
      else Option.bind (vec_at (arr s) offset1) (\<lambda>row.
        if offset2 \<noteq> -1 then
          (let orig = offset1 + (if offset2 < offset1 then 1 else 0)
           in Option.bind (vec_insert (arr s) offset2 row) (\<lambda>a.
              map_option (\<lambda>a. (if offset2 > offset1 then offset2 - 1 else offset2, s\<lparr>arr := a\<rparr>)) (vec_erase a orig)))
        else map_option (\<lambda>a. (int (length a) - 1, s\<lparr>arr := a\<rparr>)) (vec_erase (arr s @ [row]) offset1)))"

definition applySchema :: "int \<Rightarrow> 'a typed_sheet \<Rightarrow> bool \<times> 'a typed_sheet" where
  "applySchema columnCount s = (True, s\<lparr>arr := [], h := 0, w := columnCount\<rparr>)"

section \<open>Inherited from DataSheet\<close>

fun deleteRows_loop :: "nat \<Rightarrow> int \<Rightarrow> 'a typed_sheet \<Rightarrow> (bool \<times> 'a typed_sheet) option" where
  "deleteRows_loop 0 start s = Some (True, s)"
| "deleteRows_loop (Suc n) start s =
     Option.bind (deleteRow start s) (\<lambda>(ok, s). if ok then deleteRows_loop n start s else Some (False, s))"

definition deleteRows :: "int \<Rightarrow> int \<Rightarrow> 'a typed_sheet \<Rightarrow> (bool \<times> 'a typed_sheet) option" where
  "deleteRows first_row last_row s = deleteRows_loop (nat (last_row - first_row + 1)) first_row s"

fun deleteData_loop :: "nat \<Rightarrow> int \<Rightarrow> 'a typed_sheet \<Rightarrow> 'a typed_sheet option" where
  "deleteData_loop 0 offset s = Some s"
| "deleteData_loop (Suc n) offset s = Option.bind (deleteRow offset s) (\<lambda>(_, s). deleteData_loop n offset s)"

definition deleteData :: "int \<Rightarrow> 'a typed_sheet \<Rightarrow> (bool \<times> 'a typed_sheet) option" where
  "deleteData offset s = map_option (Pair True) (deleteData_loop (nat (height s - offset)) offset s)"

section \<open>EscapedTypedSheet\<close>

text \<open>Cells with a flag that marks the NULL value; every operation is passed on to the sheet of pairs.\<close>

type_synonym 'a escaped_sheet = "('a \<times> bool) typed_sheet"

definition esc_resize :: "int \<Rightarrow> int \<Rightarrow> 'a \<Rightarrow> 'a escaped_sheet \<Rightarrow> 'a escaped_sheet" where
  "esc_resize w' h' z s = resize w' h' (z, True) s"

definition esc_cell :: "int \<Rightarrow> int \<Rightarrow> 'a escaped_sheet \<Rightarrow> 'a option" where
  "esc_cell x y s = map_option fst (cell x y s)"

definition esc_pcell :: "int \<Rightarrow> int \<Rightarrow> 'a escaped_sheet \<Rightarrow> ('a \<times> bool) option" where
  "esc_pcell x y s = cell x y s"

definition esc_deleteColumn :: "int \<Rightarrow> 'a escaped_sheet \<Rightarrow> (bool \<times> 'a escaped_sheet) option" where
  "esc_deleteColumn column s = deleteColumn column s"

definition esc_insertColumn :: "int \<Rightarrow> 'a escaped_sheet \<Rightarrow> (int \<times> 'a escaped_sheet) option" where
  "esc_insertColumn base s = insertColumn base s"

definition esc_moveColumn :: "int \<Rightarrow> int \<Rightarrow> 'a escaped_sheet \<Rightarrow> (int \<times> 'a escaped_sheet) option" where
  "esc_moveColumn src base s = moveColumn src base s"

definition esc_deleteRow :: "int \<Rightarrow> 'a escaped_sheet \<Rightarrow> (bool \<times> 'a escaped_sheet) option" where
  "esc_deleteRow src s = deleteRow src s"

definition esc_insertRow :: "int \<Rightarrow> 'a escaped_sheet \<Rightarrow> (int \<times> 'a escaped_sheet) option" where
  "esc_insertRow base s = insertRow base s"

definition esc_moveRow :: "int \<Rightarrow> int \<Rightarrow> 'a escaped_sheet \<Rightarrow> (int \<times> 'a escaped_sheet) option" where
  "esc_moveRow src base s = moveRow src base s"

lemmas sheet_op_defs [sheet_defs] =
  clear_def resize_def resize0_def deleteColumn_def insertColumn_def modifyColumn_def moveColumn_def
  deleteRow_def insertRow_def moveRow_def applySchema_def
  esc_resize_def esc_cell_def esc_pcell_def esc_deleteColumn_def esc_insertColumn_def esc_moveColumn_def
  esc_deleteRow_def esc_insertRow_def esc_moveRow_def

end
