(* ===== verification/Csv_Parser.thy ===== *)
theory Csv_Parser
  imports Coopy_Prelude
begin

text \<open>
  The CSV library \<^verbatim>\<open>src/libcsv/libcsv.c\<close>: the push parser \<open>csv_parse\<close> with its finaliser
  \<open>csv_fini\<close>, the growing entry buffer, the option setters and the writers.

  The record \<open>csv_parser\<close> is \<^verbatim>\<open>struct csv_parser\<close>.  \<open>csv_parse\<close> caches the fields
  \<open>quoted\<close>, \<open>pstate\<close>, \<open>spaces\<close> and \<open>entry_pos\<close> in locals and stores them back at every
  exit, so the model works on the fields.  The entry buffer is \<open>None\<close> for a null pointer and
  otherwise the list of its bytes; the extra field \<open>mem_ok\<close> turns false at the first write
  outside of it, so that memory safety is a property one can state.  The two callbacks are
  functions on the caller's data, \<open>None\<close> when the pointer is null, and \<open>realloc_func\<close> is
  the allocator the user installs.  \<open>malloc_func\<close> is set to null and never called; a call of
  \<open>free_func\<close> has no effect the model could see.
\<close>

section \<open>The parser's state\<close>

datatype pstate = ROW_NOT_BEGUN | FIELD_NOT_BEGUN | FIELD_BEGUN | FIELD_MIGHT_HAVE_ENDED

abbreviation (input) "CSV_SUCCESS \<equiv> (0 :: int)"
abbreviation (input) "CSV_EPARSE \<equiv> (1 :: int)"
abbreviation (input) "CSV_ENOMEM \<equiv> (2 :: int)"
abbreviation (input) "CSV_ETOOBIG \<equiv> (3 :: int)"
abbreviation (input) "CSV_EINVALID \<equiv> (4 :: int)"

abbreviation (input) "CSV_STRICT \<equiv> (1 :: byte)"
abbreviation (input) "CSV_REPALL_NL \<equiv> (2 :: byte)"
abbreviation (input) "CSV_STRICT_FINI \<equiv> (4 :: byte)"
abbreviation (input) "CSV_APPEND_NULL \<equiv> (8 :: byte)"

abbreviation (input) "CSV_TAB \<equiv> (0x09 :: byte)"
abbreviation (input) "CSV_SPACE \<equiv> (0x20 :: byte)"
abbreviation (input) "CSV_CR \<equiv> (0x0d :: byte)"
abbreviation (input) "CSV_LF \<equiv> (0x0a :: byte)"
abbreviation (input) "CSV_COMMA \<equiv> (0x2c :: byte)"
abbreviation (input) "CSV_QUOTE \<equiv> (0x22 :: byte)"

definition MEM_BLK_SIZE :: nat where
  "MEM_BLK_SIZE = 128"

type_synonym realloc_fn = "byte list option \<Rightarrow> nat \<Rightarrow> byte list option"

record csv_parser =
  pstate :: pstate
  quoted :: bool
  spaces :: nat
  entry_buf :: "byte list option"
  entry_pos :: nat
  entry_size :: nat
  status :: int
  options :: byte
  quote_char :: byte
  delim_char :: byte
  is_space :: "(byte \<Rightarrow> bool) option"
  is_term :: "(byte \<Rightarrow> bool) option"
  blk_size :: nat
  realloc_func :: realloc_fn
  free_func :: "byte list \<Rightarrow> unit"
  mem_ok :: bool

type_synonym 'd field_cb = "(byte list \<Rightarrow> nat \<Rightarrow> bool \<Rightarrow> 'd \<Rightarrow> 'd) option"
type_synonym 'd row_cb = "(int \<Rightarrow> 'd \<Rightarrow> 'd) option"

definition has_opt :: "csv_parser \<Rightarrow> byte \<Rightarrow> bool" where [csv_defs]:
  "has_opt p f \<longleftrightarrow> options p AND f \<noteq> 0"

definition space_char :: "csv_parser \<Rightarrow> byte \<Rightarrow> bool" where
  "space_char p c = (case is_space p of Some f \<Rightarrow> f c | None \<Rightarrow> c = CSV_SPACE \<or> c = CSV_TAB)"

definition term_char :: "csv_parser \<Rightarrow> byte \<Rightarrow> bool" where
  "term_char p c = (case is_term p of Some f \<Rightarrow> f c | None \<Rightarrow> c = CSV_CR \<or> c = CSV_LF)"

section \<open>Set-up, options and status\<close>

definition csv_error :: "csv_parser \<Rightarrow> int" where
  "csv_error p = status p"

definition csv_errors :: "string list" where
  "csv_errors = [''success'',
    ''error parsing data while strict checking enabled'',
    ''memory exhausted while increasing buffer size'',
    ''data size too large'',
    ''invalid status code'']"

definition csv_strerror :: "int \<Rightarrow> string" where
  "csv_strerror st = (if st \<ge> CSV_EINVALID \<or> st < 0 then csv_errors ! nat CSV_EINVALID
                      else csv_errors ! nat st)"

definition csv_get_opts :: "csv_parser option \<Rightarrow> int" where
  "csv_get_opts pp = (case pp of None \<Rightarrow> -1 | Some p \<Rightarrow> uint (options p))"

definition csv_set_opts :: "csv_parser option \<Rightarrow> byte \<Rightarrow> int \<times> csv_parser option" where
  "csv_set_opts pp opts = (case pp of None \<Rightarrow> (-1, None)
                           | Some p \<Rightarrow> (0, Some (p\<lparr>options := opts\<rparr>)))"

text \<open>The fields as \<open>csv_init\<close> leaves them; \<open>rea\<close> is the C library's \<open>realloc\<close>.\<close>

definition csv_init_state :: "realloc_fn \<Rightarrow> byte \<Rightarrow> csv_parser" where
  "csv_init_state rea opts =
     \<lparr>pstate = ROW_NOT_BEGUN, quoted = False, spaces = 0, entry_buf = None, entry_pos = 0,
      entry_size = 0, status = 0, options = opts, quote_char = CSV_QUOTE, delim_char = CSV_COMMA,
      is_space = None, is_term = None, blk_size = MEM_BLK_SIZE, realloc_func = rea,
      free_func = (\<lambda>_. ()), mem_ok = True\<rparr>"

definition csv_init :: "realloc_fn \<Rightarrow> csv_parser option \<Rightarrow> byte \<Rightarrow> int \<times> csv_parser option" where
  "csv_init rea pp opts = (case pp of None \<Rightarrow> (-1, None)
                           | Some _ \<Rightarrow> (0, Some (csv_init_state rea opts)))"

definition csv_free :: "csv_parser option \<Rightarrow> csv_parser option" where
  "csv_free pp = map_option (\<lambda>p. p\<lparr>entry_buf := None, entry_size := 0\<rparr>) pp"

definition csv_set_delim :: "csv_parser option \<Rightarrow> byte \<Rightarrow> csv_parser option" where
  "csv_set_delim pp c = map_option (\<lambda>p. p\<lparr>delim_char := c\<rparr>) pp"

definition csv_set_quote :: "csv_parser option \<Rightarrow> byte \<Rightarrow> csv_parser option" where
  "csv_set_quote pp c = map_option (\<lambda>p. p\<lparr>quote_char := c\<rparr>) pp"

definition csv_get_delim :: "csv_parser \<Rightarrow> byte" where
  "csv_get_delim p = delim_char p"

definition csv_get_quote :: "csv_parser \<Rightarrow> byte" where
  "csv_get_quote p = quote_char p"

definition csv_set_space_func :: "csv_parser option \<Rightarrow> (byte \<Rightarrow> bool) option \<Rightarrow> csv_parser option" where
  "csv_set_space_func pp f = map_option (\<lambda>p. p\<lparr>is_space := f\<rparr>) pp"

definition csv_set_term_func :: "csv_parser option \<Rightarrow> (byte \<Rightarrow> bool) option \<Rightarrow> csv_parser option" where
  "csv_set_term_func pp f = map_option (\<lambda>p. p\<lparr>is_term := f\<rparr>) pp"

definition csv_set_realloc_func :: "csv_parser option \<Rightarrow> realloc_fn option \<Rightarrow> csv_parser option" where
  "csv_set_realloc_func pp f =
     (case f of None \<Rightarrow> pp | Some g \<Rightarrow> map_option (\<lambda>p. p\<lparr>realloc_func := g\<rparr>) pp)"

definition csv_set_free_func :: "csv_parser option \<Rightarrow> (byte list \<Rightarrow> unit) option \<Rightarrow> csv_parser option" where
  "csv_set_free_func pp f =
     (case f of None \<Rightarrow> pp | Some g \<Rightarrow> map_option (\<lambda>p. p\<lparr>free_func := g\<rparr>) pp)"

definition csv_set_blk_size :: "csv_parser option \<Rightarrow> nat \<Rightarrow> csv_parser option" where
  "csv_set_blk_size pp n = map_option (\<lambda>p. p\<lparr>blk_size := n\<rparr>) pp"

definition csv_get_buffer_size :: "csv_parser option \<Rightarrow> nat" where
  "csv_get_buffer_size pp = (case pp of Some p \<Rightarrow> entry_size p | None \<Rightarrow> 0)"

section \<open>The entry buffer\<close>

text \<open>The retry loop of \<open>csv_increase_buffer\<close>: halve the increment until an allocation succeeds.\<close>

fun try_realloc :: "csv_parser \<Rightarrow> nat \<Rightarrow> (byte list \<times> nat) option" where
  "try_realloc p to_add =
     (case realloc_func p (entry_buf p) (entry_size p + to_add) of
        Some vp \<Rightarrow> Some (vp, to_add)
      | None \<Rightarrow> (if to_add div 2 = 0 then None else try_realloc p (to_add div 2)))"

declare try_realloc.simps [simp del]

definition csv_increase_buffer :: "csv_parser \<Rightarrow> int \<times> csv_parser" where
  "csv_increase_buffer p =
     (let to_add = (if entry_size p \<ge> SIZE_MAX - blk_size p then SIZE_MAX - entry_size p
                    else blk_size p) in
      if to_add = 0 then (-1, p\<lparr>status := CSV_ETOOBIG\<rparr>)
      else case try_realloc p to_add of
             None \<Rightarrow> (-1, p\<lparr>status := CSV_ENOMEM\<rparr>)
           | Some (vp, n) \<Rightarrow> (0, p\<lparr>entry_buf := Some vp, entry_size := entry_size p + n\<rparr>))"

definition poke :: "nat \<Rightarrow> byte \<Rightarrow> csv_parser \<Rightarrow> csv_parser" where
  "poke i c p = (case entry_buf p of
       None \<Rightarrow> p\<lparr>mem_ok := False\<rparr>
     | Some b \<Rightarrow> (if i < length b then p\<lparr>entry_buf := Some (b[i := c])\<rparr> else p\<lparr>mem_ok := False\<rparr>))"

definition buf_bytes :: "csv_parser \<Rightarrow> byte list" where
  "buf_bytes p = (case entry_buf p of None \<Rightarrow> [] | Some b \<Rightarrow> b)"

section \<open>The macros SUBMIT_FIELD, SUBMIT_ROW and SUBMIT_CHAR\<close>

definition SUBMIT_FIELD :: "'d field_cb \<Rightarrow> csv_parser \<Rightarrow> 'd \<Rightarrow> csv_parser \<times> 'd" where
  "SUBMIT_FIELD cb1 p d =
     (let p1 = (if quoted p then p else p\<lparr>entry_pos := entry_pos p - spaces p\<rparr>);
          p2 = (if has_opt p1 CSV_APPEND_NULL then poke (entry_pos p1 + 1) 0 p1 else p1);
          d' = (case cb1 of None \<Rightarrow> d | Some f \<Rightarrow> f (buf_bytes p2) (entry_pos p2) (quoted p2) d)
      in (p2\<lparr>pstate := FIELD_NOT_BEGUN, entry_pos := 0, quoted := False, spaces := 0\<rparr>, d'))"

definition SUBMIT_ROW :: "'d row_cb \<Rightarrow> int \<Rightarrow> csv_parser \<Rightarrow> 'd \<Rightarrow> csv_parser \<times> 'd" where
  "SUBMIT_ROW cb2 c p d =
     (p\<lparr>pstate := ROW_NOT_BEGUN, entry_pos := 0, quoted := False, spaces := 0\<rparr>,
      (case cb2 of None \<Rightarrow> d | Some f \<Rightarrow> f c d))"

definition SUBMIT_CHAR :: "byte \<Rightarrow> csv_parser \<Rightarrow> csv_parser" where
  "SUBMIT_CHAR c p = (poke (entry_pos p) c p)\<lparr>entry_pos := entry_pos p + 1\<rparr>"

definition SUBMIT_FIELD_ROW ::
  "'d field_cb \<Rightarrow> 'd row_cb \<Rightarrow> int \<Rightarrow> csv_parser \<Rightarrow> 'd \<Rightarrow> csv_parser \<times> 'd" where
  "SUBMIT_FIELD_ROW cb1 cb2 c p d =
     (case SUBMIT_FIELD cb1 p d of (p1, d1) \<Rightarrow> SUBMIT_ROW cb2 c p1 d1)"

section \<open>csv\_parse\<close>

datatype 'd csv_next = Go csv_parser 'd | Stop csv_parser

definition go :: "csv_parser \<times> 'd \<Rightarrow> 'd csv_next" where
  "go pd = Go (fst pd) (snd pd)"

text \<open>The body of the \<open>switch\<close>, one function per state.\<close>

definition csv_not_begun ::
  "'d field_cb \<Rightarrow> 'd row_cb \<Rightarrow> csv_parser \<Rightarrow> 'd \<Rightarrow> byte \<Rightarrow> 'd csv_next" where
  "csv_not_begun cb1 cb2 p d c =
     (if space_char p c \<and> c \<noteq> delim_char p then Go p d
      else if term_char p c then
        (if pstate p = FIELD_NOT_BEGUN then go (SUBMIT_FIELD_ROW cb1 cb2 (uint c) p d)
         else if has_opt p CSV_REPALL_NL then go (SUBMIT_ROW cb2 (uint c) p d)
         else Go p d)
      else if c = delim_char p then go (SUBMIT_FIELD cb1 p d)
      else if c = quote_char p then Go (p\<lparr>pstate := FIELD_BEGUN, quoted := True\<rparr>) d
      else Go (SUBMIT_CHAR c (p\<lparr>pstate := FIELD_BEGUN, quoted := False\<rparr>)) d)"

definition csv_begun ::
  "'d field_cb \<Rightarrow> 'd row_cb \<Rightarrow> csv_parser \<Rightarrow> 'd \<Rightarrow> byte \<Rightarrow> 'd csv_next" where
  "csv_begun cb1 cb2 p d c =
     (if c = quote_char p then
        (if quoted p then Go ((SUBMIT_CHAR c p)\<lparr>pstate := FIELD_MIGHT_HAVE_ENDED\<rparr>) d
         else if has_opt p CSV_STRICT then Stop (p\<lparr>status := CSV_EPARSE\<rparr>)
         else Go ((SUBMIT_CHAR c p)\<lparr>spaces := 0\<rparr>) d)
      else if c = delim_char p then
        (if quoted p then Go (SUBMIT_CHAR c p) d else go (SUBMIT_FIELD cb1 p d))
      else if term_char p c then
        (if \<not> quoted p then go (SUBMIT_FIELD_ROW cb1 cb2 (uint c) p d)
         else Go (SUBMIT_CHAR c p) d)
      else if \<not> quoted p \<and> space_char p c then
        Go ((SUBMIT_CHAR c p)\<lparr>spaces := spaces p + 1\<rparr>) d
      else Go ((SUBMIT_CHAR c p)\<lparr>spaces := 0\<rparr>) d)"

definition csv_might_have_ended ::
  "'d field_cb \<Rightarrow> 'd row_cb \<Rightarrow> csv_parser \<Rightarrow> 'd \<Rightarrow> byte \<Rightarrow> 'd csv_next" where
  "csv_might_have_ended cb1 cb2 p d c =
     (if c = delim_char p then
        go (SUBMIT_FIELD cb1 (p\<lparr>entry_pos := entry_pos p - (spaces p + 1)\<rparr>) d)
      else if term_char p c then
        go (SUBMIT_FIELD_ROW cb1 cb2 (uint c) (p\<lparr>entry_pos := entry_pos p - (spaces p + 1)\<rparr>) d)
      else if space_char p c then
        Go ((SUBMIT_CHAR c p)\<lparr>spaces := spaces p + 1\<rparr>) d
      else if c = quote_char p then
        (if spaces p \<noteq> 0 then
           (if has_opt p CSV_STRICT then Stop (p\<lparr>status := CSV_EPARSE\<rparr>)
            else Go (SUBMIT_CHAR c (p\<lparr>spaces := 0\<rparr>)) d)
         else Go (p\<lparr>pstate := FIELD_BEGUN\<rparr>) d)
      else if has_opt p CSV_STRICT then Stop (p\<lparr>status := CSV_EPARSE\<rparr>)
      else Go (SUBMIT_CHAR c (p\<lparr>pstate := FIELD_BEGUN, spaces := 0\<rparr>)) d)"

definition csv_step ::
  "'d field_cb \<Rightarrow> 'd row_cb \<Rightarrow> csv_parser \<Rightarrow> 'd \<Rightarrow> byte \<Rightarrow> 'd csv_next" where
  "csv_step cb1 cb2 p d c = (case pstate p of
       ROW_NOT_BEGUN \<Rightarrow> csv_not_begun cb1 cb2 p d c
     | FIELD_NOT_BEGUN \<Rightarrow> csv_not_begun cb1 cb2 p d c
     | FIELD_BEGUN \<Rightarrow> csv_begun cb1 cb2 p d c
     | FIELD_MIGHT_HAVE_ENDED \<Rightarrow> csv_might_have_ended cb1 cb2 p d c)"

text \<open>The fill level at which the buffer grows; \<open>entry_size - 1\<close> is a \<open>size_t\<close> subtraction.\<close>

definition buf_limit :: "csv_parser \<Rightarrow> nat" where
  "buf_limit p = (if has_opt p CSV_APPEND_NULL
                  then (if entry_size p = 0 then SIZE_MAX else entry_size p - 1)
                  else entry_size p)"

definition csv_reserve :: "csv_parser \<Rightarrow> int \<times> csv_parser" where
  "csv_reserve p = (if entry_pos p = buf_limit p then csv_increase_buffer p else (0, p))"

fun csv_loop ::
  "'d field_cb \<Rightarrow> 'd row_cb \<Rightarrow> byte list \<Rightarrow> nat \<Rightarrow> csv_parser \<Rightarrow> 'd \<Rightarrow> nat \<times> csv_parser \<times> 'd" where
  "csv_loop cb1 cb2 [] pos p d = (pos, p, d)"
| "csv_loop cb1 cb2 (c # cs) pos p d =
     (case csv_reserve p of (rc, p1) \<Rightarrow>
        if rc \<noteq> 0 then (pos, p1, d)
        else case csv_step cb1 cb2 p1 d c of
               Go p2 d2 \<Rightarrow> csv_loop cb1 cb2 cs (Suc pos) p2 d2
             | Stop p2 \<Rightarrow> (pos, p2, d))"

definition csv_parse ::
  "'d field_cb \<Rightarrow> 'd row_cb \<Rightarrow> csv_parser \<Rightarrow> byte list \<Rightarrow> 'd \<Rightarrow> nat \<times> csv_parser \<times> 'd" where
  "csv_parse cb1 cb2 p s d =
     (if entry_buf p = None \<and> 0 < length s then
        (case csv_increase_buffer p of (rc, p1) \<Rightarrow>
           if rc \<noteq> 0 then (0, p1, d) else csv_loop cb1 cb2 s 0 p1 d)
      else csv_loop cb1 cb2 s 0 p d)"

section \<open>csv\_fini\<close>

definition csv_fini ::
  "'d field_cb \<Rightarrow> 'd row_cb \<Rightarrow> csv_parser \<Rightarrow> 'd \<Rightarrow> int \<times> csv_parser \<times> 'd" where
  "csv_fini cb1 cb2 p d =
     (if pstate p = FIELD_BEGUN \<and> quoted p \<and> has_opt p CSV_STRICT \<and> has_opt p CSV_STRICT_FINI
      then (-1, p\<lparr>status := CSV_EPARSE\<rparr>, d)
      else
        (let pd = (case pstate p of
               FIELD_MIGHT_HAVE_ENDED \<Rightarrow>
                 SUBMIT_FIELD_ROW cb1 cb2 (-1) (p\<lparr>entry_pos := entry_pos p - (spaces p + 1)\<rparr>) d
             | FIELD_NOT_BEGUN \<Rightarrow> SUBMIT_FIELD_ROW cb1 cb2 (-1) p d
             | FIELD_BEGUN \<Rightarrow> SUBMIT_FIELD_ROW cb1 cb2 (-1) p d
             | ROW_NOT_BEGUN \<Rightarrow> (p, d))
         in (0, (fst pd)\<lparr>spaces := 0, quoted := False, entry_pos := 0, status := 0,
                        pstate := ROW_NOT_BEGUN\<rparr>, snd pd)))"

section \<open>The writers\<close>

text \<open>
  \<open>csv_write2\<close> stores at most \<open>dest_size\<close> bytes and returns how many the whole result needs,
  saturating at \<open>SIZE_MAX\<close>.  The model returns that count and the bytes stored, in order.
  The closing quote is not post-incremented in the source, which no reader can see.
\<close>

definition csv_put :: "nat \<Rightarrow> byte \<Rightarrow> nat \<times> byte list \<Rightarrow> nat \<times> byte list" where
  "csv_put dest_size c = (\<lambda>(chars, out).
     (if chars < SIZE_MAX then Suc chars else chars,
      if dest_size > chars then out @ [c] else out))"

fun csv_write_loop :: "byte \<Rightarrow> nat \<Rightarrow> byte list \<Rightarrow> nat \<times> byte list \<Rightarrow> nat \<times> byte list" where
  "csv_write_loop quote dest_size [] st = st"
| "csv_write_loop quote dest_size (c # cs) st =
     csv_write_loop quote dest_size cs
       (csv_put dest_size c (if c = quote then csv_put dest_size quote st else st))"

definition csv_write2 :: "nat option \<Rightarrow> byte list option \<Rightarrow> byte \<Rightarrow> nat \<times> byte list" where
  "csv_write2 dest src quote = (case src of
       None \<Rightarrow> (0, [])
     | Some s \<Rightarrow>
        (let dest_size = (case dest of None \<Rightarrow> 0 | Some n \<Rightarrow> n);
             st0 = (Suc 0, if dest_size > 0 then [quote] else [])
         in csv_put dest_size quote (csv_write_loop quote dest_size s st0)))"

definition csv_write :: "nat option \<Rightarrow> byte list option \<Rightarrow> nat \<times> byte list" where
  "csv_write dest src = (case src of
       None \<Rightarrow> (0, [])
     | Some s \<Rightarrow>
        (let dest_size = (case dest of None \<Rightarrow> 0 | Some n \<Rightarrow> n);
             st0 = (Suc 0, if dest_size > 0 then [CSV_QUOTE] else [])
         in csv_put dest_size CSV_QUOTE (csv_write_loop CSV_QUOTE dest_size s st0)))"

text \<open>Writing to a stream: \<open>fputc\<close> is the C library's, \<open>None\<close> standing for \<open>EOF\<close>.  The
  result says whether the function returned \<open>EOF\<close>.\<close>

fun csv_fwrite_loop ::
  "(byte \<Rightarrow> 'f \<Rightarrow> 'f option) \<Rightarrow> byte \<Rightarrow> byte list \<Rightarrow> 'f \<Rightarrow> 'f option" where
  "csv_fwrite_loop fputc quote [] fp = Some fp"
| "csv_fwrite_loop fputc quote (c # cs) fp =
     Option.bind (if c = quote then fputc quote fp else Some fp) (\<lambda>fp1.
     Option.bind (fputc c fp1) (\<lambda>fp2. csv_fwrite_loop fputc quote cs fp2))"

definition csv_fwrite2 ::
  "(byte \<Rightarrow> 'f \<Rightarrow> 'f option) \<Rightarrow> 'f option \<Rightarrow> byte list option \<Rightarrow> byte \<Rightarrow> 'f option option" where
  "csv_fwrite2 fputc fp src quote = (case (fp, src) of
       (Some f, Some s) \<Rightarrow>
         map_option Some
           (Option.bind (fputc quote f) (\<lambda>f1.
            Option.bind (csv_fwrite_loop fputc quote s f1) (\<lambda>f2. fputc quote f2)))
     | _ \<Rightarrow> Some fp)"

definition csv_fwrite ::
  "(byte \<Rightarrow> 'f \<Rightarrow> 'f option) \<Rightarrow> 'f option \<Rightarrow> byte list option \<Rightarrow> 'f option option" where
  "csv_fwrite fputc fp src = (case (fp, src) of
       (Some f, Some s) \<Rightarrow>
         map_option Some
           (Option.bind (fputc CSV_QUOTE f) (\<lambda>f1.
            Option.bind (csv_fwrite_loop fputc CSV_QUOTE s f1) (\<lambda>f2. fputc CSV_QUOTE f2)))
     | _ \<Rightarrow> Some fp)"

section \<open>The parser as a consumer of chunks\<close>

text \<open>\<open>CsvFile::read\<close> feeds the parser one buffer after the other and gives up (\<open>None\<close>) as soon
  as a buffer is not consumed entirely.\<close>

definition csv_feed ::
  "'d field_cb \<Rightarrow> 'd row_cb \<Rightarrow> (csv_parser \<times> 'd) option \<Rightarrow> byte list \<Rightarrow> (csv_parser \<times> 'd) option" where
  "csv_feed cb1 cb2 st s = (case st of None \<Rightarrow> None
     | Some (p, d) \<Rightarrow> (case csv_parse cb1 cb2 p s d of (n, p', d') \<Rightarrow>
                        if n = length s then Some (p', d') else None))"

end
