(* ===== verification/Csv_Sheet.thy ===== *)
theory Csv_Sheet
  imports Typed_Sheet Csv_Parser
begin

text \<open>
  CSV tables: \<open>CsvSheet\<close> (\<^verbatim>\<open>libcoopy_core/include/coopy/CsvSheet.h\<close>, \<^verbatim>\<open>CsvSheet.cpp\<close>), the text form
  \<open>DataSheet::encode\<close> gives a sheet (\<^verbatim>\<open>DataSheet.cpp\<close>) in a \<open>SheetStyle\<close>, and the callbacks of
  \<^verbatim>\<open>libcsv/CsvRead.cpp\<close> that fill a sheet from the events of the CSV parser.

  A \<open>std::string\<close> is the list of its bytes.  The reader is modelled for a single sheet (no
  \<open>CsvSheetReader\<close>), the case of \<open>CsvFile::read(src, sheet)\<close>; the schema of a sheet enters only
  through the height of its header.
\<close>

section \<open>Styles and cells\<close>

record sheet_style =
  delim :: "byte list"
  eol :: "byte list"
  nullToken :: "byte list"
  haveNull :: bool
  quoteCollision :: bool
  trimEnd :: bool
  markHeader :: bool
  eolAtEof :: bool

definition default_style :: sheet_style where
  "default_style = \<lparr>delim = [0x2c], eol = [0x0d, 0x0a], nullToken = chars_of ''NULL'', haveNull = True,
     quoteCollision = True, trimEnd = True, markHeader = False, eolAtEof = True\<rparr>"

record sheet_cell =
  ctext :: "byte list"
  escaped :: bool

definition sheet_cell0 :: sheet_cell where
  "sheet_cell0 = \<lparr>ctext = [], escaped = True\<rparr>"

section \<open>CsvSheet\<close>

record csv_sheet =
  ts :: "byte list escaped_sheet"
  rec :: "(byte list \<times> bool) list"
  th :: int
  tw :: int
  valid :: bool
  style :: sheet_style

definition new_csv_sheet :: csv_sheet where
  "new_csv_sheet = \<lparr>ts = new_sheet ([], False), rec = [], th = 0, tw = 0, valid = True, style = default_style\<rparr>"

definition csv_clear :: "csv_sheet \<Rightarrow> csv_sheet" where
  "csv_clear c = c\<lparr>tw := 0, th := 0, ts := (ts c)\<lparr>w := 0, h := 0, arr := []\<rparr>, rec := [], valid := True\<rparr>"

definition addField :: "byte list \<Rightarrow> bool \<Rightarrow> csv_sheet \<Rightarrow> csv_sheet" where
  "addField s esc c = c\<lparr>rec := rec c @ [(s, esc)], tw := tw c + 1\<rparr>"

definition addField_cell :: "sheet_cell \<Rightarrow> csv_sheet \<Rightarrow> csv_sheet" where
  "addField_cell x c = addField (takeWhile (\<lambda>b. b \<noteq> 0) (ctext x)) (escaped x) c"

text \<open>The bytes go through a C string: they end at the first NUL (appending \<open>"\0"\<close> appends nothing).\<close>

definition addField_n :: "byte list \<Rightarrow> nat \<Rightarrow> bool \<Rightarrow> csv_sheet \<Rightarrow> csv_sheet" where
  "addField_n s len esc c = addField (takeWhile (\<lambda>b. b \<noteq> 0) (take len s)) esc c"

definition addRecord :: "csv_sheet \<Rightarrow> csv_sheet" where
  "addRecord c =
     (let c = c\<lparr>ts := (ts c)\<lparr>arr := arr (ts c) @ [rec c]\<rparr>, rec := []\<rparr>;
          c = (if w (ts c) \<noteq> tw c \<and> w (ts c) \<noteq> 0 then c\<lparr>valid := False\<rparr> else c);
          c = (if tw c > w (ts c) then c\<lparr>ts := (ts c)\<lparr>w := tw c\<rparr>\<rparr> else c);
          c = c\<lparr>tw := 0, th := th c + 1\<rparr>
      in c\<lparr>ts := (ts c)\<lparr>h := th c\<rparr>\<rparr>)"

definition removeRow :: "int \<Rightarrow> csv_sheet \<Rightarrow> (bool \<times> csv_sheet) option" where
  "removeRow index c = map_option (\<lambda>a.
     let c = c\<lparr>ts := (ts c)\<lparr>arr := a\<rparr>\<rparr> in
     if int (length a) < h (ts c) then (True, c\<lparr>ts := (ts c)\<lparr>h := int (length a)\<rparr>, th := int (length a)\<rparr>)
     else (False, c)) (vec_erase (arr (ts c)) index)"

fun addRow_loop :: "nat \<Rightarrow> int \<Rightarrow> csv_sheet \<Rightarrow> int \<Rightarrow> csv_sheet \<Rightarrow> csv_sheet option" where
  "addRow_loop 0 i alt row c = Some (addRecord c)"
| "addRow_loop (Suc n) i alt row c =
     Option.bind (esc_pcell i row (ts alt)) (\<lambda>p.
       addRow_loop n (i + 1) alt row (addField (takeWhile (\<lambda>b. b \<noteq> 0) (fst p)) (snd p) c))"

definition addRow :: "csv_sheet \<Rightarrow> int \<Rightarrow> csv_sheet \<Rightarrow> csv_sheet option" where
  "addRow alt row c = addRow_loop (nat (width (ts alt))) 0 alt row c"

definition isValid :: "csv_sheet \<Rightarrow> bool" where
  "isValid c = valid c"

text \<open>\<open>cellString(x, y, escaped)\<close>: in a sheet whose rows differ in length, a missing cell of an
  existing row is an empty text.\<close>

definition cellString :: "int \<Rightarrow> int \<Rightarrow> csv_sheet \<Rightarrow> (byte list \<times> bool) option" where
  "cellString x y c =
     (if valid c then esc_pcell x y (ts c)
      else Option.bind (vec_at (arr (ts c)) y) (\<lambda>r.
        if int (length r) > x then vec_at r x else Some ([], False)))"

definition cellSummary :: "int \<Rightarrow> int \<Rightarrow> csv_sheet \<Rightarrow> sheet_cell option" where
  "cellSummary x y c = map_option (\<lambda>(t, e). \<lparr>ctext = t, escaped = e\<rparr>) (cellString x y c)"

definition cellString_set :: "int \<Rightarrow> int \<Rightarrow> byte list \<Rightarrow> bool \<Rightarrow> csv_sheet \<Rightarrow> (bool \<times> csv_sheet) option" where
  "cellString_set x y str esc c =
     map_option (\<lambda>s'. (True, c\<lparr>ts := s'\<rparr>)) (cell_set x y (str, esc) (ts c))"

definition copy_csv :: "csv_sheet \<Rightarrow> csv_sheet \<Rightarrow> csv_sheet" where
  "copy_csv alt c = c\<lparr>ts := (ts c)\<lparr>arr := arr (ts alt), h := h (ts alt), w := w (ts alt)\<rparr>\<rparr>"

fun add_blank_fields :: "nat \<Rightarrow> csv_sheet \<Rightarrow> csv_sheet" where
  "add_blank_fields 0 c = c"
| "add_blank_fields (Suc n) c = add_blank_fields n (addField_cell sheet_cell0 c)"

fun add_blank_rows :: "nat \<Rightarrow> nat \<Rightarrow> csv_sheet \<Rightarrow> csv_sheet" where
  "add_blank_rows 0 n c = c"
| "add_blank_rows (Suc k) n c = add_blank_rows k n (addRecord (add_blank_fields n c))"

definition csv_resize :: "int \<Rightarrow> int \<Rightarrow> csv_sheet \<Rightarrow> bool \<times> csv_sheet" where
  "csv_resize w' h' c =
     (let c = add_blank_rows (nat h') (nat w') (csv_clear c)
      in (True, c\<lparr>ts := (ts c)\<lparr>w := w', h := h'\<rparr>\<rparr>))"

definition setWidth :: "int \<Rightarrow> csv_sheet \<Rightarrow> bool \<times> csv_sheet" where
  "setWidth w' c = (True, c\<lparr>ts := (ts c)\<lparr>w := w'\<rparr>\<rparr>)"

section \<open>DataSheet::encodeCell and DataSheet::encode\<close>

definition quote_needed :: "sheet_style \<Rightarrow> byte \<Rightarrow> bool" where
  "quote_needed st ch \<longleftrightarrow> ch = 0x22 \<or> ch = 0x27 \<or> ch = byte_at (delim st) 0 \<or> ch = 0x0d \<or> ch = 0x0a \<or> ch = 0x09 \<or> ch = 0x20"

text \<open>The number of underscores a text starts with.\<close>

definition score :: "byte list \<Rightarrow> nat" where
  "score str = length (takeWhile (\<lambda>ch. ch = 0x5f) str)"

text \<open>The copying loop; \<open>line_buf\<close> holds back line ends until another character follows.\<close>

fun encode_loop :: "bool \<Rightarrow> byte list \<Rightarrow> byte list \<Rightarrow> byte list \<Rightarrow> byte list" where
  "encode_loop trim [] line_buf result = result"
| "encode_loop trim (ch # str) line_buf result =
     (let result = (if ch = 0x22 then result @ [0x22] else result) in
      if ch \<noteq> 0x0d \<and> ch \<noteq> 0x0a then encode_loop trim str [] ((result @ line_buf) @ [ch])
      else if trim then encode_loop trim str (line_buf @ [ch]) result
      else encode_loop trim str line_buf (result @ [ch]))"

definition encodeCell :: "sheet_cell \<Rightarrow> sheet_style \<Rightarrow> byte list" where
  "encodeCell c st =
     (let str = ctext c; need_quote = list_ex (quote_needed st) str; nil = nullToken st in
      if str = [] \<and> escaped c \<and> haveNull st then nil
      else let str = (if \<not> escaped c \<and> quoteCollision st \<and> drop (score str) str = nil then 0x5f # str else str);
               result = (if need_quote then [0x22] else []);
               result = encode_loop (trimEnd st) str [] result
           in if need_quote then result @ [0x22] else result)"

definition encode_line :: "sheet_style \<Rightarrow> sheet_cell list \<Rightarrow> byte list" where
  "encode_line st cells = concat (map (\<lambda>(x, c). (if x > 0 then delim st else []) @ encodeCell c st) (enumerate 0 cells))"

text \<open>One line of the text; \<open>header\<close> is the header height of the schema, if there is one.\<close>

definition encode_row :: "sheet_style \<Rightarrow> int option \<Rightarrow> int \<Rightarrow> int \<Rightarrow> sheet_cell list \<Rightarrow> byte list" where
  "encode_row st header last_row y cells =
     (let line = encode_line st cells; len = length line;
          line = (if eolAtEof st \<or> y \<noteq> last_row then line @ eol st else line)
      in if markHeader st \<and> header = Some y \<and> y \<ge> 0
         then line @ replicate (min 79 (max 3 len)) 0x2d @ eol st else line)"

fun cells_of_row :: "nat \<Rightarrow> int \<Rightarrow> int \<Rightarrow> csv_sheet \<Rightarrow> sheet_cell list option" where
  "cells_of_row 0 x y c = Some []"
| "cells_of_row (Suc n) x y c =
     Option.bind (cellSummary x y c) (\<lambda>v. map_option (Cons v) (cells_of_row n (x + 1) y c))"

fun encode_rows :: "nat \<Rightarrow> int \<Rightarrow> sheet_style \<Rightarrow> int option \<Rightarrow> csv_sheet \<Rightarrow> byte list option" where
  "encode_rows 0 y st header c = Some []"
| "encode_rows (Suc n) y st header c =
     Option.bind (cells_of_row (nat (width (ts c))) 0 y c) (\<lambda>cells.
       map_option (\<lambda>rest. encode_row st header (height (ts c) - 1) y cells @ rest) (encode_rows n (y + 1) st header c))"

definition encode :: "sheet_style \<Rightarrow> int option \<Rightarrow> csv_sheet \<Rightarrow> byte list option" where
  "encode st header c = encode_rows (nat (height (ts c))) 0 st header c"

section \<open>Filling a sheet from the parser's events\<close>

record reader_state =
  sheet :: csv_sheet
  expecting :: bool
  ignore :: bool

text \<open>\<open>memcmp\<close> of \<open>n\<close> bytes with a C string: equal when the bytes agree with the string, its NUL
  included.\<close>

definition memcmp_eq :: "byte list \<Rightarrow> byte list \<Rightarrow> bool" where
  "memcmp_eq bs token \<longleftrightarrow> length bs \<le> length token + 1 \<and> bs = take (length bs) (token @ [0])"

definition csvfile_merge_cb1 :: "byte list \<Rightarrow> nat \<Rightarrow> bool \<Rightarrow> reader_state \<Rightarrow> reader_state" where
  "csvfile_merge_cb1 s i q state =
     (let c = sheet state; state = state\<lparr>expecting := False\<rparr>; token = nullToken (style c); f = take i s in
      if haveNull (style c) \<and> length token = i \<and> memcmp_eq f token
      then state\<lparr>sheet := addField_n s i True c\<rparr>
      else if haveNull (style c) \<and> quoteCollision (style c) \<and> score f > 0 \<and> memcmp_eq (drop (score f) f) token
      then state\<lparr>sheet := addField_n (drop 1 s) (i - 1) False c\<rparr>
      else state\<lparr>sheet := addField_n s i False c\<rparr>)"

definition csvfile_merge_cb2 :: "int \<Rightarrow> reader_state \<Rightarrow> reader_state" where
  "csvfile_merge_cb2 c state =
     (let state = state\<lparr>expecting := True\<rparr> in
      if ignore state then state\<lparr>ignore := False\<rparr>
      else state\<lparr>sheet := addRecord (sheet state)\<rparr>)"

text \<open>\<open>read\<close>: the chunks of the file in turn, then the end; \<open>None\<close> when the parser does not consume a
  chunk, where the program exits.\<close>

definition csv_read :: "realloc_fn \<Rightarrow> sheet_style \<Rightarrow> byte list list \<Rightarrow> csv_sheet \<Rightarrow> csv_sheet option" where
  "csv_read rea st chunks c =
     (let p = (csv_init_state rea 0)\<lparr>delim_char := byte_at (delim st) 0\<rparr>;
          d = \<lparr>sheet = (csv_clear c)\<lparr>style := st\<rparr>, expecting = True, ignore = False\<rparr>
      in map_option (\<lambda>(p, d). sheet (snd (snd (csv_fini (Some csvfile_merge_cb1) (Some csvfile_merge_cb2) p d))))
           (foldl (csv_feed (Some csvfile_merge_cb1) (Some csvfile_merge_cb2)) (Some (p, d)) chunks))"

end
