(* ===== verification/Csv_Spec.thy ===== *)
theory Csv_Spec
  imports Csv_Parser
begin

text \<open>
  What the CSV parser promises, without its buffer: a dialect (delimiter, quote, character
  classes, options), an automaton that accumulates the current field in a list and emits events,
  the parser's invariant, the laws of the allocator, and the text a table of fields is
  written as.
\<close>

section \<open>Events and the abstract automaton\<close>

datatype csv_event = Field "byte list" bool | Row int

record dialect =
  d_quote :: byte
  d_delim :: byte
  d_space :: "byte \<Rightarrow> bool"
  d_term :: "byte \<Rightarrow> bool"
  d_strict :: bool
  d_repall :: bool

definition dialect_of :: "csv_parser \<Rightarrow> dialect" where
  "dialect_of p = \<lparr>d_quote = quote_char p, d_delim = delim_char p, d_space = space_char p,
     d_term = term_char p, d_strict = has_opt p CSV_STRICT, d_repall = has_opt p CSV_REPALL_NL\<rparr>"

text \<open>The state: where we are, whether the field is quoted, how many trailing spaces were seen,
  and the bytes of the field.\<close>

type_synonym astate = "pstate \<times> bool \<times> nat \<times> byte list"

definition astate_of :: "csv_parser \<Rightarrow> astate" where
  "astate_of p = (pstate p, quoted p, spaces p, take (entry_pos p) (buf_bytes p))"

definition fresh :: "pstate \<Rightarrow> astate" where
  "fresh st = (st, False, 0, [])"

definition emit :: "bool \<Rightarrow> nat \<Rightarrow> byte list \<Rightarrow> csv_event" where
  "emit q sp acc = Field (if q then acc else take (length acc - sp) acc) q"

fun spec_step :: "dialect \<Rightarrow> astate \<Rightarrow> byte \<Rightarrow> (astate \<times> csv_event list) option" where
  "spec_step D (FIELD_BEGUN, q, sp, acc) c =
     (if c = d_quote D then
        (if q then Some ((FIELD_MIGHT_HAVE_ENDED, q, sp, acc @ [c]), [])
         else if d_strict D then None
         else Some ((FIELD_BEGUN, q, 0, acc @ [c]), []))
      else if c = d_delim D \<and> \<not> q then Some (fresh FIELD_NOT_BEGUN, [emit q sp acc])
      else if c \<noteq> d_delim D \<and> d_term D c \<and> \<not> q then
        Some (fresh ROW_NOT_BEGUN, [emit q sp acc, Row (uint c)])
      else if c = d_delim D \<or> d_term D c then Some ((FIELD_BEGUN, q, sp, acc @ [c]), [])
      else Some ((FIELD_BEGUN, q, (if \<not> q \<and> d_space D c then sp + 1 else 0), acc @ [c]), []))"
| "spec_step D (FIELD_MIGHT_HAVE_ENDED, q, sp, acc) c =
     (let field = take (length acc - (sp + 1)) acc in
      if c = d_delim D then Some (fresh FIELD_NOT_BEGUN, [emit q sp field])
      else if d_term D c then Some (fresh ROW_NOT_BEGUN, [emit q sp field, Row (uint c)])
      else if d_space D c then Some ((FIELD_MIGHT_HAVE_ENDED, q, sp + 1, acc @ [c]), [])
      else if c = d_quote D \<and> sp = 0 then Some ((FIELD_BEGUN, q, sp, acc), [])
      else if d_strict D then None
      else Some ((if c = d_quote D then FIELD_MIGHT_HAVE_ENDED else FIELD_BEGUN, q, 0, acc @ [c]), []))"
| "spec_step D (st, q, sp, acc) c =
     (if d_space D c \<and> c \<noteq> d_delim D then Some ((st, q, sp, acc), [])
      else if d_term D c then
        (if st = FIELD_NOT_BEGUN then Some (fresh ROW_NOT_BEGUN, [emit q sp acc, Row (uint c)])
         else if d_repall D then Some (fresh ROW_NOT_BEGUN, [Row (uint c)])
         else Some ((st, q, sp, acc), []))
      else if c = d_delim D then Some (fresh FIELD_NOT_BEGUN, [emit q sp acc])
      else if c = d_quote D then Some ((FIELD_BEGUN, True, sp, acc), [])
      else Some ((FIELD_BEGUN, False, sp, acc @ [c]), []))"

fun spec_run :: "dialect \<Rightarrow> byte list \<Rightarrow> astate \<Rightarrow> csv_event list \<Rightarrow> (astate \<times> csv_event list) option" where
  "spec_run D [] a ev = Some (a, ev)"
| "spec_run D (c # cs) a ev =
     (case spec_step D a c of None \<Rightarrow> None | Some (a', e) \<Rightarrow> spec_run D cs a' (ev @ e))"

text \<open>What the finaliser reports for the pending field.\<close>

fun spec_fini :: "astate \<Rightarrow> csv_event list" where
  "spec_fini (ROW_NOT_BEGUN, q, sp, acc) = []"
| "spec_fini (FIELD_MIGHT_HAVE_ENDED, q, sp, acc) =
     [emit q sp (take (length acc - (sp + 1)) acc), Row (-1)]"
| "spec_fini (st, q, sp, acc) = [emit q sp acc, Row (-1)]"

text \<open>The collecting callbacks: what a client sees is the list of events.\<close>

definition collect1 :: "csv_event list field_cb" where
  "collect1 = Some (\<lambda>b n q d. d @ [Field (take n b) q])"

definition collect2 :: "csv_event list row_cb" where
  "collect2 = Some (\<lambda>c d. d @ [Row c])"

section \<open>The invariant and the allocator\<close>

definition reserved :: "csv_parser \<Rightarrow> nat" where
  "reserved p = (if has_opt p CSV_APPEND_NULL then 1 else 0)"

definition buf_inv :: "csv_parser \<Rightarrow> bool" where
  "buf_inv p = (case entry_buf p of
       None \<Rightarrow> entry_size p = 0 \<and> entry_pos p = 0
     | Some b \<Rightarrow> length b = entry_size p \<and> 0 < entry_size p \<and> entry_pos p + reserved p \<le> entry_size p)"

definition state_inv :: "csv_parser \<Rightarrow> bool" where
  "state_inv p = (case pstate p of
       ROW_NOT_BEGUN \<Rightarrow> entry_pos p = 0 \<and> spaces p = 0 \<and> \<not> quoted p
     | FIELD_NOT_BEGUN \<Rightarrow> entry_pos p = 0 \<and> spaces p = 0 \<and> \<not> quoted p
     | FIELD_BEGUN \<Rightarrow> spaces p \<le> entry_pos p \<and> (quoted p \<longrightarrow> spaces p = 0)
     | FIELD_MIGHT_HAVE_ENDED \<Rightarrow> spaces p + 1 \<le> entry_pos p \<and> quoted p)"

definition csv_inv :: "csv_parser \<Rightarrow> bool" where
  "csv_inv p \<longleftrightarrow> mem_ok p \<and> buf_inv p \<and> state_inv p \<and> entry_size p \<le> SIZE_MAX \<and> blk_size p \<le> SIZE_MAX"

text \<open>What C guarantees of \<open>realloc\<close> when the block grows: the new block has the requested size
  and starts with the old contents.\<close>

definition realloc_law :: "realloc_fn \<Rightarrow> bool" where
  "realloc_law f \<longleftrightarrow> (\<forall>b n b'. f b n = Some b' \<longrightarrow> length b' = n \<and>
     (\<forall>old. b = Some old \<longrightarrow> length old \<le> n \<longrightarrow> take (length old) b' = old))"

text \<open>An allocator that never fails for a size a \<open>size_t\<close> can hold.\<close>

definition alloc_total :: "realloc_fn \<Rightarrow> bool" where
  "alloc_total f \<longleftrightarrow> (\<forall>b n. n \<le> SIZE_MAX \<longrightarrow> f b n \<noteq> None)"

text \<open>An allocator with \<open>limit\<close> bytes to give, its fresh bytes zero.\<close>

definition arena_realloc :: "nat \<Rightarrow> realloc_fn" where
  "arena_realloc limit b n = (if n \<le> limit
     then Some (take n ((case b of None \<Rightarrow> [] | Some old \<Rightarrow> old) @ replicate n 0)) else None)"

section \<open>The text of a table\<close>

text \<open>The quote must not be the delimiter, blank or a line end, and the line end not the quote or
  the delimiter; then a table of quoted fields can be read back.\<close>

definition clean_dialect :: "dialect \<Rightarrow> byte \<Rightarrow> bool" where
  "clean_dialect D eol \<longleftrightarrow> d_quote D \<noteq> d_delim D \<and> \<not> d_space D (d_quote D) \<and> \<not> d_term D (d_quote D) \<and>
     d_term D eol \<and> eol \<noteq> d_delim D"

fun csv_escape :: "byte \<Rightarrow> byte list \<Rightarrow> byte list" where
  "csv_escape q [] = []"
| "csv_escape q (c # cs) = (if c = q then [q, q] else [c]) @ csv_escape q cs"

definition csv_quoted :: "byte \<Rightarrow> byte list \<Rightarrow> byte list" where
  "csv_quoted q f = [q] @ csv_escape q f @ [q]"

fun csv_join :: "byte \<Rightarrow> byte \<Rightarrow> byte list list \<Rightarrow> byte list" where
  "csv_join q delim [] = []"
| "csv_join q delim [f] = csv_quoted q f"
| "csv_join q delim (f # g # fs) = csv_quoted q f @ [delim] @ csv_join q delim (g # fs)"

definition csv_text :: "byte \<Rightarrow> byte \<Rightarrow> byte \<Rightarrow> byte list list list \<Rightarrow> byte list" where
  "csv_text q delim eol rows = concat (map (\<lambda>r. csv_join q delim r @ [eol]) rows)"

definition csv_events :: "byte \<Rightarrow> byte list list list \<Rightarrow> csv_event list" where
  "csv_events eol rows = concat (map (\<lambda>r. map (\<lambda>f. Field f True) r @ [Row (uint eol)]) rows)"

end
