(* ===== verification/Csv_Correct.thy ===== *)
theory Csv_Correct
  imports Csv_Spec
begin

text \<open>
  Correctness of the CSV library: input may be cut into chunks anywhere; the parser's invariant
  and memory safety; refinement of a buffer-free automaton; parsing what the writers produced;
  what the finaliser does; and the exact output of the writers.
\<close>

section \<open>Feeding the parser in chunks\<close>

lemma csv_loop_bounds:
  "csv_loop cb1 cb2 s pos p d = (n, p', d') \<Longrightarrow> pos \<le> n \<and> n \<le> pos + length s"
proof (induction s arbitrary: pos p d)
  case (Cons c cs)
  then show ?case
    by (fastforce split: prod.splits if_splits csv_next.splits)
qed simp

lemma csv_loop_append:
  "csv_loop cb1 cb2 (xs @ ys) pos p d =
     (case csv_loop cb1 cb2 xs pos p d of (n, p', d') \<Rightarrow>
        if n = pos + length xs then csv_loop cb1 cb2 ys n p' d' else (n, p', d'))"
proof (induction xs arbitrary: pos p d)
  case (Cons c cs)
  then show ?case
    by (auto split: prod.splits csv_next.splits if_splits)
qed simp

lemma csv_loop_shift:
  "csv_loop cb1 cb2 s (pos + k) p d =
     (case csv_loop cb1 cb2 s pos p d of (n, p', d') \<Rightarrow> (n + k, p', d'))"
proof (induction s arbitrary: pos p d)
  case (Cons c cs)
  from Cons.IH [of "Suc pos"] show ?case
    by (auto split: prod.splits csv_next.splits)
qed simp

lemma csv_increase_buffer_Some:
  "csv_increase_buffer p = (0, p') \<Longrightarrow> entry_buf p' \<noteq> None"
  by (auto simp: csv_increase_buffer_def Let_def split: if_splits option.splits)

lemma poke_buf: "entry_buf p \<noteq> None \<Longrightarrow> entry_buf (poke i c p) \<noteq> None"
  by (auto simp: poke_def split: option.splits)

lemmas submit_defs = SUBMIT_FIELD_def SUBMIT_ROW_def SUBMIT_CHAR_def SUBMIT_FIELD_ROW_def go_def

lemmas csv_step_defs = csv_step_def csv_not_begun_def csv_begun_def csv_might_have_ended_def

lemma submit_buf:
  "entry_buf p \<noteq> None \<Longrightarrow> entry_buf (fst (SUBMIT_FIELD cb1 p d)) \<noteq> None"
  "entry_buf p \<noteq> None \<Longrightarrow> entry_buf (fst (SUBMIT_ROW cb2 k p d)) \<noteq> None"
  "entry_buf p \<noteq> None \<Longrightarrow> entry_buf (fst (SUBMIT_FIELD_ROW cb1 cb2 k p d)) \<noteq> None"
  "entry_buf p \<noteq> None \<Longrightarrow> entry_buf (SUBMIT_CHAR c p) \<noteq> None"
  using poke_buf [of p] by (auto simp: submit_defs Let_def poke_def split: prod.splits option.splits)

lemma csv_step_buf:
  assumes "entry_buf p \<noteq> None" and "csv_step cb1 cb2 p d c = Go p' d'"
  shows "entry_buf p' \<noteq> None"
proof -
  have "entry_buf p' \<noteq> None" if "go (X p2 d) = Go p' d'" "entry_buf (fst (X p2 d)) \<noteq> None"
    for p2 and X :: "csv_parser \<Rightarrow> 'a \<Rightarrow> csv_parser \<times> 'a"
    using that by (auto simp: go_def)
  then show ?thesis
    using assms submit_buf [where p = p] submit_buf(4) [where p = "p\<lparr>pstate := FIELD_BEGUN, quoted := False\<rparr>"]
      submit_buf(4) [where p = "p\<lparr>spaces := 0\<rparr>"]
      submit_buf(4) [where p = "p\<lparr>pstate := FIELD_BEGUN, spaces := 0\<rparr>"]
      submit_buf [where p = "p\<lparr>entry_pos := entry_pos p - (spaces p + 1)\<rparr>"]
    by (auto simp: csv_step_defs go_def split: pstate.splits if_splits)
qed

lemma csv_reserve_buf:
  "entry_buf p \<noteq> None \<Longrightarrow> csv_reserve p = (0, p') \<Longrightarrow> entry_buf p' \<noteq> None"
  by (auto simp: csv_reserve_def dest: csv_increase_buffer_Some split: if_splits)

lemma csv_loop_buf:
  "entry_buf p \<noteq> None \<Longrightarrow> csv_loop cb1 cb2 s pos p d = (pos + length s, p', d') \<Longrightarrow>
   entry_buf p' \<noteq> None"
proof (induction s arbitrary: pos p d)
  case (Cons c cs)
  obtain rc p1 where r: "csv_reserve p = (rc, p1)" by fastforce
  with Cons.prems(2) have rc: "rc = 0" by (auto split: if_splits)
  with r Cons.prems(1) have b1: "entry_buf p1 \<noteq> None" using csv_reserve_buf [of p p1] by simp
  show ?case
  proof (cases "csv_step cb1 cb2 p1 d c")
    case (Go p2 d2)
    with r rc Cons.prems(2) have "csv_loop cb1 cb2 cs (Suc pos) p2 d2 = (Suc pos + length cs, p', d')"
      by simp
    moreover from b1 Go have "entry_buf p2 \<noteq> None" by (rule csv_step_buf)
    ultimately show ?thesis by (rule Cons.IH [rotated])
  next
    case (Stop p2)
    with r rc Cons.prems(2) show ?thesis by simp
  qed
qed simp

lemma csv_parse_buf:
  "entry_buf p \<noteq> None \<Longrightarrow> csv_parse cb1 cb2 p s d = csv_loop cb1 cb2 s 0 p d"
  by (auto simp: csv_parse_def)

lemma csv_loop_split:
  assumes "entry_buf p \<noteq> None"
  shows "csv_loop cb1 cb2 (xs @ ys) 0 p d =
     (case csv_loop cb1 cb2 xs 0 p d of (n, p', d') \<Rightarrow>
        if n = length xs then (case csv_parse cb1 cb2 p' ys d' of (m, p'', d'') \<Rightarrow> (n + m, p'', d''))
        else (n, p', d'))"
proof -
  obtain n p' d' where e: "csv_loop cb1 cb2 xs 0 p d = (n, p', d')" by (metis prod_cases3)
  have "csv_parse cb1 cb2 p' ys d' = csv_loop cb1 cb2 ys 0 p' d'" if "n = length xs"
    using csv_loop_buf [OF assms, of cb1 cb2 xs 0 d p' d'] e that by (intro csv_parse_buf) simp
  moreover have "csv_loop cb1 cb2 ys n p' d' =
      (case csv_loop cb1 cb2 ys 0 p' d' of (m, p'', d'') \<Rightarrow> (n + m, p'', d''))"
    using csv_loop_shift [of cb1 cb2 ys 0 n p' d'] by (simp add: add.commute split: prod.splits)
  ultimately show ?thesis by (auto simp: csv_loop_append e)
qed

lemma csv_parse_append:
  "csv_parse cb1 cb2 p (xs @ ys) d =
     (case csv_parse cb1 cb2 p xs d of (n, p', d') \<Rightarrow>
        if n = length xs then (case csv_parse cb1 cb2 p' ys d' of (m, p'', d'') \<Rightarrow> (n + m, p'', d''))
        else (n, p', d'))"
proof (cases "xs = []")
  case True
  then show ?thesis by (simp add: csv_parse_def split: prod.splits)
next
  case False
  show ?thesis
  proof (cases "entry_buf p = None")
    case True
    obtain rc p1 where inc: "csv_increase_buffer p = (rc, p1)" by fastforce
    with True False show ?thesis
      using csv_loop_split [of p1 cb1 cb2 xs ys d] csv_increase_buffer_Some [of p p1]
      by (auto simp: csv_parse_def)
  next
    case False
    show ?thesis
      by (simp only: csv_parse_buf [OF False] csv_loop_split [OF False])
  qed
qed

lemma csv_parse_bound: "csv_parse cb1 cb2 p s d = (n, p', d') \<Longrightarrow> n \<le> length s"
  by (auto simp: csv_parse_def split: if_splits prod.splits dest: csv_loop_bounds)

interpretation csv: stream_consumer "csv_feed cb1 cb2"
proof
  show "csv_feed cb1 cb2 s [] = s" for s :: "(csv_parser \<times> 'a) option"
    by (auto simp: csv_feed_def csv_parse_def split: option.splits)
  show "csv_feed cb1 cb2 s (xs @ ys) = csv_feed cb1 cb2 (csv_feed cb1 cb2 s xs) ys"
    for s :: "(csv_parser \<times> 'a) option" and xs ys
    by (auto simp: csv_feed_def csv_parse_append dest: csv_parse_bound
             split: option.splits prod.splits if_splits)
qed

text \<open>C1: feeding the CSV parser chunk by chunk, as \<open>CsvFile::read\<close> does with its 32 KiB buffer,
  gives exactly the parser state, callback effects and failure of one call on the whole input, for
  any callbacks and any way to cut the input, inside a quoted field or between the two quotes
  of an escaped quote included.\<close>

theorem csv_parse_chunks:
  "foldl (csv_feed cb1 cb2) (Some (p, d)) chunks =
     (case csv_parse cb1 cb2 p (concat chunks) d of (n, p', d') \<Rightarrow>
        if n = length (concat chunks) then Some (p', d') else None)"
  by (simp add: csv.feed_chunks csv_feed_def split: prod.splits)

section \<open>The invariant and the refinement of the abstract automaton\<close>

definition room :: "csv_parser \<Rightarrow> bool" where
  "room p = (case entry_buf p of None \<Rightarrow> False
             | Some b \<Rightarrow> length b = entry_size p \<and> entry_pos p + reserved p < entry_size p)"

definition same_config :: "csv_parser \<Rightarrow> csv_parser \<Rightarrow> bool" where
  "same_config p p' \<longleftrightarrow> options p' = options p \<and> quote_char p' = quote_char p \<and>
     delim_char p' = delim_char p \<and> is_space p' = is_space p \<and> is_term p' = is_term p \<and>
     blk_size p' = blk_size p \<and> realloc_func p' = realloc_func p"

lemma same_config_refl [simp]: "same_config p p"
  by (simp add: same_config_def)

lemma same_config_trans: "same_config p q \<Longrightarrow> same_config q r \<Longrightarrow> same_config p r"
  by (simp add: same_config_def)

lemma same_config_dialect: "same_config p p' \<Longrightarrow> dialect_of p' = dialect_of p"
  by (auto simp: same_config_def dialect_of_def has_opt_def space_char_def term_char_def fun_eq_iff)

lemma opt_frame [simp]:
  "has_opt (p\<lparr>pstate := a\<rparr>) f = has_opt p f" "has_opt (p\<lparr>quoted := q\<rparr>) f = has_opt p f"
  "has_opt (p\<lparr>spaces := n\<rparr>) f = has_opt p f" "has_opt (p\<lparr>entry_pos := n\<rparr>) f = has_opt p f"
  "has_opt (p\<lparr>entry_buf := bb\<rparr>) f = has_opt p f" "has_opt (p\<lparr>entry_size := n\<rparr>) f = has_opt p f"
  "has_opt (p\<lparr>status := st\<rparr>) f = has_opt p f"
  by (simp_all add: has_opt_def)

lemma reserved_frame [simp]:
  "reserved (p\<lparr>pstate := a\<rparr>) = reserved p" "reserved (p\<lparr>quoted := q\<rparr>) = reserved p"
  "reserved (p\<lparr>spaces := n\<rparr>) = reserved p" "reserved (p\<lparr>entry_pos := n\<rparr>) = reserved p"
  "reserved (p\<lparr>entry_buf := bb\<rparr>) = reserved p" "reserved (p\<lparr>entry_size := n\<rparr>) = reserved p"
  "reserved (p\<lparr>status := st\<rparr>) = reserved p"
  by (simp_all add: reserved_def)

lemma roomE:
  assumes "room p"
  obtains b where "entry_buf p = Some b" "length b = entry_size p"
    "entry_pos p + reserved p < entry_size p"
  using assms by (auto simp: room_def split: option.splits)

lemma submit_char_room:
  assumes "entry_buf p = Some b" and "entry_pos p < length b"
  shows "SUBMIT_CHAR c p = p\<lparr>entry_buf := Some (b[entry_pos p := c]), entry_pos := entry_pos p + 1\<rparr>"
    and "SUBMIT_CHAR c (p\<lparr>spaces := k\<rparr>) =
      p\<lparr>spaces := k, entry_buf := Some (b[entry_pos p := c]), entry_pos := entry_pos p + 1\<rparr>"
    and "SUBMIT_CHAR c (p\<lparr>pstate := s, quoted := q\<rparr>) =
      p\<lparr>pstate := s, quoted := q, entry_buf := Some (b[entry_pos p := c]), entry_pos := entry_pos p + 1\<rparr>"
    and "SUBMIT_CHAR c (p\<lparr>pstate := s, spaces := k\<rparr>) =
      p\<lparr>pstate := s, spaces := k, entry_buf := Some (b[entry_pos p := c]), entry_pos := entry_pos p + 1\<rparr>"
  using assms by (simp_all add: SUBMIT_CHAR_def poke_def)

lemma submit_field_room:
  assumes "entry_buf p = Some b" and "entry_pos p + reserved p < length b"
  obtains b' where "length b' = length b" and "take (entry_pos p - (if quoted p then 0 else spaces p)) b' =
       take (entry_pos p - (if quoted p then 0 else spaces p)) b"
    and "SUBMIT_FIELD cb1 p d =
      (p\<lparr>pstate := FIELD_NOT_BEGUN, entry_pos := 0, quoted := False, spaces := 0, entry_buf := Some b'\<rparr>,
       case cb1 of None \<Rightarrow> d
       | Some f \<Rightarrow> f b' (entry_pos p - (if quoted p then 0 else spaces p)) (quoted p) d)"
proof -
  let ?e = "entry_pos p - (if quoted p then 0 else spaces p)"
  define b' where "b' = (if has_opt p CSV_APPEND_NULL then b[?e + 1 := 0] else b)"
  have "has_opt p CSV_APPEND_NULL \<Longrightarrow> ?e + 1 < length b"
    using assms(2) by (auto simp: reserved_def)
  then have "SUBMIT_FIELD cb1 p d =
      (p\<lparr>pstate := FIELD_NOT_BEGUN, entry_pos := 0, quoted := False, spaces := 0, entry_buf := Some b'\<rparr>,
       case cb1 of None \<Rightarrow> d | Some f \<Rightarrow> f b' ?e (quoted p) d)"
    using assms(1)
    by (auto simp: SUBMIT_FIELD_def Let_def b'_def poke_def buf_bytes_def has_opt_def split: option.splits)
  moreover have "length b' = length b" "take ?e b' = take ?e b"
    by (auto simp: b'_def)
  ultimately show thesis using that by blast
qed

lemma go_field:
  assumes "room p"
  obtains b' d' where "length b' = entry_size p" and "go (SUBMIT_FIELD cb1 p d) =
      Go (p\<lparr>pstate := FIELD_NOT_BEGUN, entry_pos := 0, quoted := False, spaces := 0, entry_buf := Some b'\<rparr>) d'"
proof -
  from assms obtain b where b: "entry_buf p = Some b" "length b = entry_size p"
    "entry_pos p + reserved p < length b"
    by (auto elim: roomE)
  obtain b' where "length b' = length b" "SUBMIT_FIELD cb1 p d =
      (p\<lparr>pstate := FIELD_NOT_BEGUN, entry_pos := 0, quoted := False, spaces := 0, entry_buf := Some b'\<rparr>,
       case cb1 of None \<Rightarrow> d
       | Some f \<Rightarrow> f b' (entry_pos p - (if quoted p then 0 else spaces p)) (quoted p) d)"
    by (rule submit_field_room [OF b(1,3)])
  with b(2) show thesis by (intro that [of b']) (simp_all add: go_def)
qed

lemma go_field_row:
  assumes "room p"
  obtains b' d' where "length b' = entry_size p" and "go (SUBMIT_FIELD_ROW cb1 cb2 k p d) =
      Go (p\<lparr>pstate := ROW_NOT_BEGUN, entry_pos := 0, quoted := False, spaces := 0, entry_buf := Some b'\<rparr>) d'"
proof -
  from assms obtain b where b: "entry_buf p = Some b" "length b = entry_size p"
    "entry_pos p + reserved p < length b"
    by (auto elim: roomE)
  obtain b' where "length b' = length b" "SUBMIT_FIELD cb1 p d =
      (p\<lparr>pstate := FIELD_NOT_BEGUN, entry_pos := 0, quoted := False, spaces := 0, entry_buf := Some b'\<rparr>,
       case cb1 of None \<Rightarrow> d
       | Some f \<Rightarrow> f b' (entry_pos p - (if quoted p then 0 else spaces p)) (quoted p) d)"
    by (rule submit_field_room [OF b(1,3)])
  with b(2) show thesis
    by (intro that [of b']) (simp_all add: go_def SUBMIT_FIELD_ROW_def SUBMIT_ROW_def)
qed

lemma go_row:
  "go (SUBMIT_ROW cb2 k p d) =
     Go (p\<lparr>pstate := ROW_NOT_BEGUN, entry_pos := 0, quoted := False, spaces := 0\<rparr>)
        (case cb2 of None \<Rightarrow> d | Some f \<Rightarrow> f k d)"
  by (simp add: go_def SUBMIT_ROW_def)

lemmas inv_defs = csv_inv_def buf_inv_def state_inv_def same_config_def

lemma state_inv_frame [simp]:
  "state_inv (p\<lparr>entry_buf := bb\<rparr>) = state_inv p" "state_inv (p\<lparr>entry_size := n\<rparr>) = state_inv p"
  "state_inv (p\<lparr>status := st\<rparr>) = state_inv p"
  by (simp_all add: state_inv_def split: pstate.split)

lemma csv_inv_status [simp]: "csv_inv (p\<lparr>status := st\<rparr>) = csv_inv p"
  by (simp add: csv_inv_def buf_inv_def split: option.split)

lemma room_shrink: "room p \<Longrightarrow> room (p\<lparr>entry_pos := entry_pos p - k\<rparr>)"
  by (auto simp: room_def split: option.splits)

lemma csv_step_inv:
  assumes inv: "csv_inv p" and room: "room p" and step: "csv_step cb1 cb2 p d c = Go p' d'"
  shows "csv_inv p' \<and> same_config p p' \<and> entry_size p' = entry_size p"
proof -
  from room obtain b where b: "entry_buf p = Some b" "length b = entry_size p"
    "entry_pos p + reserved p < entry_size p"
    by (auto elim: roomE)
  have pos: "entry_pos p < length b" using b(2,3) by linarith
  note char = submit_char_room [OF b(1) pos]
  obtain b1 d1 where f1: "length b1 = entry_size p" "go (SUBMIT_FIELD cb1 p d) =
      Go (p\<lparr>pstate := FIELD_NOT_BEGUN, entry_pos := 0, quoted := False, spaces := 0, entry_buf := Some b1\<rparr>) d1"
    by (rule go_field [OF room])
  obtain b2 d2 where f2: "length b2 = entry_size p" "go (SUBMIT_FIELD_ROW cb1 cb2 (uint c) p d) =
      Go (p\<lparr>pstate := ROW_NOT_BEGUN, entry_pos := 0, quoted := False, spaces := 0, entry_buf := Some b2\<rparr>) d2"
    by (rule go_field_row [OF room])
  let ?q = "p\<lparr>entry_pos := entry_pos p - Suc (spaces p)\<rparr>"
  have rq: "room ?q" using room by (rule room_shrink)
  obtain b3 d3 where f3: "length b3 = entry_size ?q" "go (SUBMIT_FIELD cb1 ?q d) =
      Go (?q\<lparr>pstate := FIELD_NOT_BEGUN, entry_pos := 0, quoted := False, spaces := 0, entry_buf := Some b3\<rparr>) d3"
    by (rule go_field [OF rq])
  obtain b4 d4 where f4: "length b4 = entry_size ?q" "go (SUBMIT_FIELD_ROW cb1 cb2 (uint c) ?q d) =
      Go (?q\<lparr>pstate := ROW_NOT_BEGUN, entry_pos := 0, quoted := False, spaces := 0, entry_buf := Some b4\<rparr>) d4"
    by (rule go_field_row [OF rq])
  note eqs = csv_step_defs char f1(2) f2(2) f3(2) f4(2) go_row
  have sizes: "0 < entry_size p" "entry_pos p + 1 + reserved p \<le> entry_size p" "reserved p \<le> entry_size p"
    using b(3) by auto
  show ?thesis
  proof (cases "pstate p")
    case ROW_NOT_BEGUN
    with step inv b sizes f1(1) show ?thesis
      by (simp add: eqs inv_defs split: if_splits) (auto)
  next
    case FIELD_NOT_BEGUN
    with step inv b sizes f1(1) f2(1) show ?thesis
      by (simp add: eqs inv_defs split: if_splits) (auto)
  next
    case FIELD_BEGUN
    with step inv b sizes f1(1) f2(1) show ?thesis
      by (simp add: eqs inv_defs split: if_splits) (auto)
  next
    case FIELD_MIGHT_HAVE_ENDED
    with step inv b sizes f3(1) f4(1) show ?thesis
      by (simp add: eqs inv_defs split: if_splits) (auto)
  qed
qed

end
