(* ===== verification/Csv_Refine.thy ===== *)
theory Csv_Refine
  imports Csv_Correct
begin

text \<open>
  The CSV parser refines the buffer-free automaton of \<open>Csv_Spec\<close>, keeps its invariant and never
  writes outside its buffer; it stops early only for want of memory or on a strict-mode error.
\<close>

section \<open>One character\<close>

lemma go_field_collect:
  assumes "room p"
  obtains b' where "length b' = entry_size p"
    and "go (SUBMIT_FIELD collect1 p d) =
      Go (p\<lparr>pstate := FIELD_NOT_BEGUN, entry_pos := 0, quoted := False, spaces := 0, entry_buf := Some b'\<rparr>)
         (d @ [emit (quoted p) (spaces p) (take (entry_pos p) (buf_bytes p))])"
    and "\<forall>k. go (SUBMIT_FIELD_ROW collect1 collect2 k p d) =
      Go (p\<lparr>pstate := ROW_NOT_BEGUN, entry_pos := 0, quoted := False, spaces := 0, entry_buf := Some b'\<rparr>)
         (d @ [emit (quoted p) (spaces p) (take (entry_pos p) (buf_bytes p)), Row k])"
proof -
  from assms obtain b where b: "entry_buf p = Some b" "length b = entry_size p"
    "entry_pos p + reserved p < length b"
    by (auto elim: roomE)
  let ?n = "entry_pos p - (if quoted p then 0 else spaces p)"
  obtain b' where b': "length b' = length b" "take ?n b' = take ?n b" "SUBMIT_FIELD collect1 p d =
      (p\<lparr>pstate := FIELD_NOT_BEGUN, entry_pos := 0, quoted := False, spaces := 0, entry_buf := Some b'\<rparr>,
       case collect1 of None \<Rightarrow> d | Some f \<Rightarrow> f b' ?n (quoted p) d)"
    by (rule submit_field_room [OF b(1,3)])
  have "take ?n b' = (if quoted p then take (entry_pos p) b
      else take (length (take (entry_pos p) b) - spaces p) (take (entry_pos p) b))"
    using b'(2) b(3) by (auto simp: min_def)
  then have eq: "Field (take ?n b') (quoted p) =
      emit (quoted p) (spaces p) (take (entry_pos p) (buf_bytes p))"
    using b(1) by (simp add: emit_def buf_bytes_def)
  have sf: "SUBMIT_FIELD collect1 p d =
      (p\<lparr>pstate := FIELD_NOT_BEGUN, entry_pos := 0, quoted := False, spaces := 0, entry_buf := Some b'\<rparr>,
       d @ [emit (quoted p) (spaces p) (take (entry_pos p) (buf_bytes p))])"
    using b'(3) eq by (simp add: collect1_def)
  show thesis
    by (rule that [of b'])
      (simp_all add: go_def sf SUBMIT_FIELD_ROW_def SUBMIT_ROW_def collect2_def b'(1) b(2))
qed

lemma csv_step_refines:
  assumes inv: "csv_inv p" and room: "room p"
  shows "case csv_step collect1 collect2 p d c of
       Go p' d' \<Rightarrow> \<exists>ev. spec_step (dialect_of p) (astate_of p) c = Some (astate_of p', ev) \<and> d' = d @ ev
     | Stop p' \<Rightarrow> spec_step (dialect_of p) (astate_of p) c = None \<and> p' = p\<lparr>status := CSV_EPARSE\<rparr>"
proof -
  from room obtain b where b: "entry_buf p = Some b" "length b = entry_size p"
    "entry_pos p + reserved p < entry_size p"
    by (auto elim: roomE)
  have pos: "entry_pos p < length b" using b(2,3) by linarith
  note char = submit_char_room [OF b(1) pos]
  obtain b1 where f1: "length b1 = entry_size p"
    "go (SUBMIT_FIELD collect1 p d) =
      Go (p\<lparr>pstate := FIELD_NOT_BEGUN, entry_pos := 0, quoted := False, spaces := 0, entry_buf := Some b1\<rparr>)
         (d @ [emit (quoted p) (spaces p) (take (entry_pos p) (buf_bytes p))])"
    "\<forall>k. go (SUBMIT_FIELD_ROW collect1 collect2 k p d) =
      Go (p\<lparr>pstate := ROW_NOT_BEGUN, entry_pos := 0, quoted := False, spaces := 0, entry_buf := Some b1\<rparr>)
         (d @ [emit (quoted p) (spaces p) (take (entry_pos p) (buf_bytes p)), Row k])"
    by (rule go_field_collect [OF room, where d = d])
  let ?q = "p\<lparr>entry_pos := entry_pos p - Suc (spaces p)\<rparr>"
  have rq: "room ?q" using room by (rule room_shrink)
  obtain b2 where f2: "length b2 = entry_size ?q"
    "go (SUBMIT_FIELD collect1 ?q d) =
      Go (?q\<lparr>pstate := FIELD_NOT_BEGUN, entry_pos := 0, quoted := False, spaces := 0, entry_buf := Some b2\<rparr>)
         (d @ [emit (quoted ?q) (spaces ?q) (take (entry_pos ?q) (buf_bytes ?q))])"
    "\<forall>k. go (SUBMIT_FIELD_ROW collect1 collect2 k ?q d) =
      Go (?q\<lparr>pstate := ROW_NOT_BEGUN, entry_pos := 0, quoted := False, spaces := 0, entry_buf := Some b2\<rparr>)
         (d @ [emit (quoted ?q) (spaces ?q) (take (entry_pos ?q) (buf_bytes ?q)), Row k])"
    by (rule go_field_collect [OF rq, where d = d])
  have tk: "take (Suc (entry_pos p)) (b[entry_pos p := x]) = take (entry_pos p) b @ [x]" for x
    using pos by simp
  have len: "length (take (entry_pos p) b) = entry_pos p" using pos by simp
  have tt: "take (entry_pos p - Suc (spaces p)) (take (entry_pos p) b) = take (entry_pos p - Suc (spaces p)) b"
    by (simp add: min_def)
  have row: "go (SUBMIT_ROW collect2 k p d) =
     Go (p\<lparr>pstate := ROW_NOT_BEGUN, entry_pos := 0, quoted := False, spaces := 0\<rparr>) (d @ [Row k])" for k
    by (simp add: go_row collect2_def)
  note eqs = csv_step_defs char f1(2,3) f2(2,3) row
  note abss = astate_of_def dialect_of_def buf_bytes_def fresh_def tk len tt b(1)
  show ?thesis
  proof (cases "pstate p")
    case ROW_NOT_BEGUN
    with inv show ?thesis
      by (simp add: eqs abss inv_defs)
  next
    case FIELD_NOT_BEGUN
    with inv show ?thesis
      by (simp add: eqs abss inv_defs)
  next
    case FIELD_BEGUN
    with inv show ?thesis
      by (simp add: eqs abss inv_defs)
  next
    case FIELD_MIGHT_HAVE_ENDED
    with inv show ?thesis
      by (simp add: eqs abss inv_defs)
  qed
qed

section \<open>Growing the buffer\<close>

lemma try_realloc_Some:
  "try_realloc p n = Some (vp, k) \<Longrightarrow> 0 < n \<Longrightarrow>
   0 < k \<and> k \<le> n \<and> realloc_func p (entry_buf p) (entry_size p + k) = Some vp"
proof (induction p n rule: try_realloc.induct)
  case (1 p n)
  show ?case
  proof (cases "realloc_func p (entry_buf p) (entry_size p + n)")
    case None
    with "1.prems" have "n div 2 \<noteq> 0" "try_realloc p (n div 2) = Some (vp, k)"
      by (simp_all add: try_realloc.simps [of p n] split: if_splits)
    with "1.IH" [OF None] show ?thesis by fastforce
  next
    case (Some vp')
    with "1.prems" show ?thesis by (simp add: try_realloc.simps [of p n])
  qed
qed

lemma try_realloc_total:
  "realloc_func p (entry_buf p) (entry_size p + n) \<noteq> None \<Longrightarrow> try_realloc p n \<noteq> None"
  by (auto simp: try_realloc.simps [of p n])

lemma csv_increase_buffer_ok:
  assumes "csv_increase_buffer p = (0, p')" and "entry_size p \<le> SIZE_MAX"
  obtains vp k where "0 < k" and "entry_size p + k \<le> SIZE_MAX"
    and "realloc_func p (entry_buf p) (entry_size p + k) = Some vp"
    and "p' = p\<lparr>entry_buf := Some vp, entry_size := entry_size p + k\<rparr>"
proof -
  define n where "n = (if entry_size p \<ge> SIZE_MAX - blk_size p then SIZE_MAX - entry_size p else blk_size p)"
  have n: "entry_size p + n \<le> SIZE_MAX" using assms(2) by (auto simp: n_def)
  from assms(1) obtain vp k where "0 < n" "try_realloc p n = Some (vp, k)"
    and "p' = p\<lparr>entry_buf := Some vp, entry_size := entry_size p + k\<rparr>"
    by (auto simp: csv_increase_buffer_def Let_def n_def split: if_splits option.splits)
  with n try_realloc_Some [of p n vp k] that show thesis by fastforce
qed

lemma csv_increase_buffer_fail:
  assumes "csv_increase_buffer p = (rc, p')" and "rc \<noteq> 0"
  shows "p' = p\<lparr>status := CSV_ENOMEM\<rparr> \<or> p' = p\<lparr>status := CSV_ETOOBIG\<rparr>"
  using assms by (auto simp: csv_increase_buffer_def Let_def split: if_splits option.splits)

lemma realloc_lawD:
  assumes "realloc_law f" and "f b n = Some b'"
  shows "length b' = n" and "b = Some old \<Longrightarrow> length old \<le> n \<Longrightarrow> take (length old) b' = old"
  using assms unfolding realloc_law_def by blast+

lemma csv_increase_keeps:
  assumes inc: "csv_increase_buffer p = (0, p')" and inv: "csv_inv p" and law: "realloc_law (realloc_func p)"
  shows "csv_inv p' \<and> same_config p p' \<and> astate_of p' = astate_of p \<and> entry_buf p' \<noteq> None \<and>
    entry_size p < entry_size p' \<and> entry_pos p' = entry_pos p"
proof -
  from inv have sz: "entry_size p \<le> SIZE_MAX" by (simp add: csv_inv_def)
  obtain vp k where k: "0 < k" "entry_size p + k \<le> SIZE_MAX"
    "realloc_func p (entry_buf p) (entry_size p + k) = Some vp"
    "p' = p\<lparr>entry_buf := Some vp, entry_size := entry_size p + k\<rparr>"
    by (rule csv_increase_buffer_ok [OF inc sz])
  from realloc_lawD(1) [OF law k(3)] have len: "length vp = entry_size p + k" .
  have tk: "take (entry_pos p) vp = take (entry_pos p) (buf_bytes p)"
  proof (cases "entry_buf p")
    case None
    with inv show ?thesis by (simp add: csv_inv_def buf_inv_def)
  next
    case (Some b)
    with inv have lb: "length b = entry_size p" "entry_pos p \<le> length b"
      by (simp_all add: csv_inv_def buf_inv_def)
    with Some k(3) have "take (length b) vp = b"
      using realloc_lawD(2) [OF law, of "entry_buf p" "entry_size p + k" vp b] by simp
    with lb(2) have "take (entry_pos p) vp = take (entry_pos p) b"
      by (metis min.absorb1 take_take)
    with Some show ?thesis by (simp add: buf_bytes_def)
  qed
  show ?thesis
    using inv k(1,2) len tk
    by (auto simp: k(4) csv_inv_def buf_inv_def same_config_def astate_of_def buf_bytes_def reserved_def
             split: option.splits)
qed

lemma csv_reserve_ok:
  assumes res: "csv_reserve p = (0, p')" and inv: "csv_inv p" and law: "realloc_law (realloc_func p)"
    and buf: "entry_buf p \<noteq> None"
  shows "csv_inv p' \<and> same_config p p' \<and> astate_of p' = astate_of p \<and> room p'"
proof (cases "entry_pos p = buf_limit p")
  case True
  with res have inc: "csv_increase_buffer p = (0, p')" by (simp add: csv_reserve_def)
  note k = csv_increase_keeps [OF inc inv law]
  with inv buf True have "room p'"
    by (auto simp: room_def buf_limit_def csv_inv_def buf_inv_def reserved_def same_config_def has_opt_def
             split: option.splits if_splits)
  with k show ?thesis by blast
next
  case False
  with res inv buf show ?thesis
    by (auto simp: csv_reserve_def room_def buf_limit_def csv_inv_def buf_inv_def reserved_def
             split: option.splits if_splits)
qed

section \<open>The whole call\<close>

lemma csv_loop_inv:
  assumes "csv_inv p" and "realloc_law (realloc_func p)" and "entry_buf p \<noteq> None"
    and "csv_loop cb1 cb2 s pos p d = (n, p', d')"
  shows "csv_inv p' \<and> same_config p p'"
  using assms
proof (induction s arbitrary: pos p d)
  case (Cons c cs)
  obtain rc p1 where r: "csv_reserve p = (rc, p1)" by fastforce
  show ?case
  proof (cases "rc = 0")
    case False
    with r have "csv_increase_buffer p = (rc, p1)" by (auto simp: csv_reserve_def split: if_splits)
    from csv_increase_buffer_fail [OF this False] Cons.prems r False show ?thesis
      by (auto simp: same_config_def)
  next
    case True
    with r csv_reserve_ok Cons.prems have 1: "csv_inv p1" "same_config p p1" "room p1"
      by blast+
    show ?thesis
    proof (cases "csv_step cb1 cb2 p1 d c")
      case (Go p2 d2)
      have 2: "csv_inv p2" "same_config p1 p2"
        using csv_step_inv [OF 1(1,3) Go] by auto
      have law2: "realloc_law (realloc_func p2)"
        using Cons.prems(2) 1(2) 2(2) by (simp add: same_config_def)
      have "entry_buf p1 \<noteq> None" using 1(3) by (auto elim: roomE)
      then have buf2: "entry_buf p2 \<noteq> None" using Go by (rule csv_step_buf)
      have "csv_loop cb1 cb2 cs (Suc pos) p2 d2 = (n, p', d')"
        using Cons.prems(4) r True Go by simp
      from Cons.IH [OF 2(1) law2 buf2 this] 1(2) 2(2) show ?thesis
        by (metis same_config_trans)
    next
      case (Stop p2)
      with Cons.prems(4) r True have "p' = p2" by simp
      moreover from Stop have "p2 = p1\<lparr>status := CSV_EPARSE\<rparr>"
        by (auto simp: csv_step_defs go_def split: pstate.splits if_splits)
      ultimately show ?thesis using 1 by (simp add: same_config_def)
    qed
  qed
qed simp

lemma csv_loop_refines:
  assumes "csv_inv p" and "realloc_law (realloc_func p)" and "entry_buf p \<noteq> None"
    and "csv_loop collect1 collect2 s pos p d = (pos + n, p', d')"
  shows "spec_run (dialect_of p) (take n s) (astate_of p) d = Some (astate_of p', d') \<and>
    (n < length s \<longrightarrow> status p' = CSV_ENOMEM \<or> status p' = CSV_ETOOBIG \<or>
       (status p' = CSV_EPARSE \<and> spec_step (dialect_of p) (astate_of p') (s ! n) = None))"
  using assms
proof (induction s arbitrary: pos p d n)
  case (Cons c cs)
  obtain rc p1 where r: "csv_reserve p = (rc, p1)" by fastforce
  show ?case
  proof (cases "rc = 0")
    case False
    with r have "csv_increase_buffer p = (rc, p1)" by (auto simp: csv_reserve_def split: if_splits)
    from csv_increase_buffer_fail [OF this False] Cons.prems(4) r False show ?thesis
      by (auto simp: astate_of_def buf_bytes_def)
  next
    case True
    with r csv_reserve_ok Cons.prems
    have 1: "csv_inv p1" "same_config p p1" "astate_of p1 = astate_of p" "room p1"
      by blast+
    note dia = same_config_dialect [OF 1(2)]
    note step = csv_step_refines [OF 1(1,4), where d = d and c = c]
    show ?thesis
    proof (cases "csv_step collect1 collect2 p1 d c")
      case (Go p2 d2)
      with step obtain ev where ev: "spec_step (dialect_of p) (astate_of p) c = Some (astate_of p2, ev)" "d2 = d @ ev"
        by (auto simp: dia 1(3))
      have 2: "csv_inv p2" "same_config p1 p2"
        using csv_step_inv [OF 1(1,4) Go] by auto
      have law2: "realloc_law (realloc_func p2)"
        using Cons.prems(2) 1(2) 2(2) by (simp add: same_config_def)
      have "entry_buf p1 \<noteq> None" using 1(4) by (auto elim: roomE)
      then have buf2: "entry_buf p2 \<noteq> None" using Go by (rule csv_step_buf)
      have lp: "csv_loop collect1 collect2 cs (Suc pos) p2 d2 = (pos + n, p', d')"
        using Cons.prems(4) r True Go by simp
      with csv_loop_bounds [OF this] obtain m where m: "n = Suc m" by (cases n) auto
      have d2: "dialect_of p2 = dialect_of p"
        using same_config_dialect [OF 2(2)] dia by simp
      from lp m have "csv_loop collect1 collect2 cs (Suc pos) p2 d2 = (Suc pos + m, p', d')" by simp
      from Cons.IH [OF 2(1) law2 buf2 this] ev m show ?thesis by (simp add: d2)
    next
      case (Stop p2)
      with Cons.prems(4) r True have "p' = p2" "n = 0" "d' = d" by simp_all
      moreover from step Stop have "p2 = p1\<lparr>status := CSV_EPARSE\<rparr>"
        "spec_step (dialect_of p) (astate_of p) c = None" by (simp_all add: dia 1(3))
      moreover have "astate_of (p1\<lparr>status := CSV_EPARSE\<rparr>) = astate_of p"
        using 1(3) by (simp add: astate_of_def buf_bytes_def)
      ultimately show ?thesis by simp
    qed
  qed
qed simp

lemma csv_parse_inv_refines:
  assumes inv: "csv_inv p" and law: "realloc_law (realloc_func p)"
  shows "csv_parse cb1 cb2 p s d = (n, p', d') \<Longrightarrow> csv_inv p' \<and> same_config p p'"
    and "csv_parse collect1 collect2 p s ev = (n, p', ev') \<Longrightarrow>
      spec_run (dialect_of p) (take n s) (astate_of p) ev = Some (astate_of p', ev') \<and>
      (n < length s \<longrightarrow> status p' = CSV_ENOMEM \<or> status p' = CSV_ETOOBIG \<or>
         (status p' = CSV_EPARSE \<and> spec_step (dialect_of p) (astate_of p') (s ! n) = None))"
proof -
  obtain rc p1 where inc: "csv_increase_buffer p = (rc, p1)" by fastforce
  have keep: "csv_inv p1 \<and> same_config p p1 \<and> astate_of p1 = astate_of p \<and> entry_buf p1 \<noteq> None"
    if "rc = 0" using csv_increase_keeps [OF _ inv law, of p1] inc that by auto
  have fail: "p1 = p\<lparr>status := CSV_ENOMEM\<rparr> \<or> p1 = p\<lparr>status := CSV_ETOOBIG\<rparr>" if "rc \<noteq> 0"
    using csv_increase_buffer_fail [OF inc that] .
  have law1: "realloc_law (realloc_func p1)" if "rc = 0"
    using keep [OF that] law by (simp add: same_config_def)
  show "csv_inv p' \<and> same_config p p'" if "csv_parse cb1 cb2 p s d = (n, p', d')"
  proof (cases "entry_buf p = None \<and> s \<noteq> []")
    case True
    then show ?thesis
      using that inc fail inv csv_loop_inv [of p1 cb1 cb2 s 0 d n p' d'] keep law1
      by (cases "rc = 0") (auto simp: csv_parse_def dest: same_config_trans simp: same_config_def)
  next
    case False
    then show ?thesis
      using that csv_loop_inv [OF inv law, of cb1 cb2 s 0 d n p' d'] inv
      by (cases "s = []") (auto simp: csv_parse_def)
  qed
  show "spec_run (dialect_of p) (take n s) (astate_of p) ev = Some (astate_of p', ev') \<and>
      (n < length s \<longrightarrow> status p' = CSV_ENOMEM \<or> status p' = CSV_ETOOBIG \<or>
         (status p' = CSV_EPARSE \<and> spec_step (dialect_of p) (astate_of p') (s ! n) = None))"
    if "csv_parse collect1 collect2 p s ev = (n, p', ev')"
  proof (cases "entry_buf p = None \<and> s \<noteq> []")
    case True
    then show ?thesis
      using that inc fail csv_loop_refines [of p1 s 0 ev n p' ev'] keep law1
        same_config_dialect [of p p1]
      by (cases "rc = 0") (auto simp: csv_parse_def astate_of_def buf_bytes_def)
  next
    case False
    then show ?thesis
      using that csv_loop_refines [OF inv law, of s 0 ev n p' ev']
      by (cases "s = []") (auto simp: csv_parse_def)
  qed
qed

section \<open>A parser that never runs out of memory\<close>

lemma csv_increase_total:
  assumes "alloc_total (realloc_func p)" and "entry_size p < SIZE_MAX" and "0 < blk_size p"
  obtains p' where "csv_increase_buffer p = (0, p')"
proof -
  define n where "n = (if entry_size p \<ge> SIZE_MAX - blk_size p then SIZE_MAX - entry_size p else blk_size p)"
  have n: "0 < n" "entry_size p + n \<le> SIZE_MAX" using assms(2,3) by (auto simp: n_def)
  then have "try_realloc p n \<noteq> None"
    using assms(1) by (intro try_realloc_total) (auto simp: alloc_total_def)
  with n(1) that show thesis
    by (auto simp: csv_increase_buffer_def Let_def n_def [symmetric])
qed

lemma csv_step_pos:
  assumes "csv_inv p" and "room p" and "csv_step cb1 cb2 p d c = Go p' d'"
  shows "entry_pos p' \<le> Suc (entry_pos p) \<and> status p' = status p"
proof -
  have field: "entry_pos (fst (SUBMIT_FIELD cb1 q d)) = 0 \<and> status (fst (SUBMIT_FIELD cb1 q d)) = status q"
    "entry_pos (fst (SUBMIT_FIELD_ROW cb1 cb2 k q d)) = 0 \<and>
     status (fst (SUBMIT_FIELD_ROW cb1 cb2 k q d)) = status q"
    "entry_pos (fst (SUBMIT_ROW cb2 k q d)) = 0 \<and> status (fst (SUBMIT_ROW cb2 k q d)) = status q"
    "status (SUBMIT_CHAR x q) = status q" "entry_pos (SUBMIT_CHAR x q) = Suc (entry_pos q)" for q k x
    by (simp_all add: SUBMIT_FIELD_def SUBMIT_FIELD_ROW_def SUBMIT_ROW_def SUBMIT_CHAR_def poke_def Let_def
        split: option.splits)
  show ?thesis
    using assms(3) by (auto simp: csv_step_defs go_def field split: pstate.splits if_splits)
qed

lemma csv_loop_no_oom:
  assumes "csv_inv p" and "realloc_law (realloc_func p)" and "alloc_total (realloc_func p)"
    and "0 < blk_size p" and "entry_buf p \<noteq> None" and "entry_pos p + length s + 1 < SIZE_MAX"
    and "csv_loop cb1 cb2 s pos p d = (n, p', d')"
  shows "status p' = status p \<or> status p' = CSV_EPARSE"
  using assms
proof (induction s arbitrary: pos p d)
  case (Cons c cs)
  have "\<exists>p1. csv_reserve p = (0, p1) \<and> status p1 = status p \<and> entry_pos p1 = entry_pos p"
  proof (cases "entry_pos p = buf_limit p")
    case True
    then have "entry_size p < SIZE_MAX"
      using Cons.prems(6) by (auto simp: buf_limit_def split: if_splits)
    with Cons.prems(3,4) obtain p1 where p1: "csv_increase_buffer p = (0, p1)"
      using csv_increase_total by blast
    then have "status p1 = status p \<and> entry_pos p1 = entry_pos p"
      by (auto simp: csv_increase_buffer_def Let_def split: if_splits option.splits)
    with True p1 show ?thesis by (simp add: csv_reserve_def)
  qed (simp add: csv_reserve_def)
  then obtain p1 where r: "csv_reserve p = (0, p1)" "status p1 = status p" "entry_pos p1 = entry_pos p"
    by blast
  have 1: "csv_inv p1" "same_config p p1" "room p1"
    using csv_reserve_ok [OF r(1) Cons.prems(1,2,5)] by auto
  show ?case
  proof (cases "csv_step cb1 cb2 p1 d c")
    case (Go p2 d2)
    have 2: "csv_inv p2" "same_config p1 p2" using csv_step_inv [OF 1(1,3) Go] by auto
    have pos2: "entry_pos p2 + length cs + 1 < SIZE_MAX" "status p2 = status p"
      using csv_step_pos [OF 1(1,3) Go] Cons.prems(6) r(2,3) by auto
    have "entry_buf p1 \<noteq> None" using 1(3) by (auto elim: roomE)
    then have buf2: "entry_buf p2 \<noteq> None" using Go by (rule csv_step_buf)
    have cfg: "realloc_func p2 = realloc_func p" "blk_size p2 = blk_size p"
      using 1(2) 2(2) by (simp_all add: same_config_def)
    have "csv_loop cb1 cb2 cs (Suc pos) p2 d2 = (n, p', d')" using Cons.prems(7) r(1) Go by simp
    with Cons.IH [of p2 "Suc pos" d2] 2(1) Cons.prems(2,3,4) buf2 pos2 show ?thesis
      by (simp add: cfg)
  next
    case (Stop p2)
    then have "status p2 = CSV_EPARSE"
      by (auto simp: csv_step_defs go_def split: pstate.splits if_splits)
    with Cons.prems(7) r(1) Stop show ?thesis by simp
  qed
qed simp

lemma spec_run_append:
  "spec_run D (xs @ ys) a ev =
     (case spec_run D xs a ev of None \<Rightarrow> None | Some (a', ev') \<Rightarrow> spec_run D ys a' ev')"
  by (induction xs arbitrary: a ev) (auto split: option.splits)

lemma csv_parse_complete:
  assumes inv: "csv_inv p" and law: "realloc_law (realloc_func p)" and tot: "alloc_total (realloc_func p)"
    and blk: "0 < blk_size p" and st: "status p = CSV_SUCCESS"
    and len: "entry_pos p + length s + 1 < SIZE_MAX"
    and run: "spec_run (dialect_of p) s (astate_of p) ev = Some (a, ev')"
  obtains p' where "csv_parse collect1 collect2 p s ev = (length s, p', ev')" and "astate_of p' = a"
    and "csv_inv p'"
proof -
  obtain n p' d' where e: "csv_parse collect1 collect2 p s ev = (n, p', d')" by (metis prod_cases3)
  have inv': "csv_inv p'" using csv_parse_inv_refines(1) [OF inv law e] by blast
  note ref = csv_parse_inv_refines(2) [OF inv law e]
  have stat: "status p' = CSV_SUCCESS \<or> status p' = CSV_EPARSE"
  proof (cases "entry_buf p = None \<and> s \<noteq> []")
    case True
    then have "entry_size p < SIZE_MAX" using inv by (simp add: csv_inv_def buf_inv_def)
    then obtain p1 where p1: "csv_increase_buffer p = (0, p1)"
      using csv_increase_total tot blk by blast
    note k = csv_increase_keeps [OF p1 inv law]
    have "status p1 = status p"
      using p1 by (auto simp: csv_increase_buffer_def Let_def split: if_splits option.splits)
    moreover have "csv_loop collect1 collect2 s 0 p1 ev = (n, p', d')"
      using e True p1 by (simp add: csv_parse_def)
    ultimately show ?thesis
      using csv_loop_no_oom [of p1 s collect1 collect2 0 ev n p' d'] k law tot blk len st
      by (simp add: same_config_def)
  next
    case False
    with e have l: "csv_loop collect1 collect2 s 0 p ev = (n, p', d')" by (auto simp: csv_parse_def)
    show ?thesis
    proof (cases "s = []")
      case True
      with l st show ?thesis by simp
    next
      case ne: False
      with False have "entry_buf p \<noteq> None" by auto
      from csv_loop_no_oom [OF inv law tot blk this len l] st show ?thesis by simp
    qed
  qed
  have "n = length s"
  proof (rule ccontr)
    assume "n \<noteq> length s"
    with csv_parse_bound [OF e] have lt: "n < length s" by simp
    with ref stat have none: "spec_step (dialect_of p) (astate_of p') (s ! n) = None"
      and pre: "spec_run (dialect_of p) (take n s) (astate_of p) ev = Some (astate_of p', d')" by auto
    have "s = take n s @ s ! n # drop (Suc n) s" using lt by (simp add: id_take_nth_drop)
    then have "spec_run (dialect_of p) s (astate_of p) ev =
        spec_run (dialect_of p) (take n s @ s ! n # drop (Suc n) s) (astate_of p) ev" by simp
    also have "\<dots> = None" using pre none by (simp add: spec_run_append)
    finally show False using run by simp
  qed
  with ref run e inv' that show thesis by auto
qed

section \<open>Properties\<close>

text \<open>C2: whatever the callbacks are, \<open>csv_parse\<close> started in a well-formed parser, with an allocator
  that keeps C's contract for \<open>realloc\<close>, consumes at most the input, never writes outside of its
  entry buffer, leaves a well-formed parser (no position underflows, the buffer is as long as
  \<open>entry_size\<close> says) and changes none of the options.\<close>

theorem csv_parse_safe:
  assumes "csv_inv p" and "realloc_law (realloc_func p)"
  shows "case csv_parse cb1 cb2 p s d of
    (n, p', d') \<Rightarrow> n \<le> length s \<and> mem_ok p' \<and> csv_inv p' \<and> same_config p p'"
  using csv_parse_inv_refines(1) [OF assms] csv_parse_bound
  by (fastforce simp: csv_inv_def split: prod.splits)

text \<open>C3: the events a client sees, and the state the parser is left in, are those of the
  buffer-free automaton run on the consumed prefix; and the parser stops before the end only when
  no memory was to be had or, in strict mode, at a character the automaton rejects.\<close>

theorem csv_parse_refines:
  assumes "csv_inv p" and "realloc_law (realloc_func p)"
  shows "case csv_parse collect1 collect2 p s ev of
    (n, p', ev') \<Rightarrow> spec_run (dialect_of p) (take n s) (astate_of p) ev = Some (astate_of p', ev') \<and>
      (n = length s \<or> status p' = CSV_ENOMEM \<or> status p' = CSV_ETOOBIG \<or>
         (status p' = CSV_EPARSE \<and> spec_step (dialect_of p) (astate_of p') (s ! n) = None))"
  using csv_parse_inv_refines(2) [OF assms] csv_parse_bound
  by (fastforce split: prod.splits)

lemma realloc_law_arena: "realloc_law (arena_realloc limit)"
  by (auto simp: realloc_law_def arena_realloc_def split: if_splits)

lemma alloc_total_arena: "SIZE_MAX \<le> limit \<Longrightarrow> alloc_total (arena_realloc limit)"
  by (simp add: alloc_total_def arena_realloc_def)

lemma csv_inv_init: "csv_inv (csv_init_state rea opts)"
  by (simp add: inv_defs csv_init_state_def MEM_BLK_SIZE_def SIZE_MAX_def)

lemma init_fields [simp]:
  "realloc_func (csv_init_state rea opts) = rea" "blk_size (csv_init_state rea opts) = 128"
  "status (csv_init_state rea opts) = CSV_SUCCESS" "entry_pos (csv_init_state rea opts) = 0"
  "pstate (csv_init_state rea opts) = ROW_NOT_BEGUN"
  by (simp_all add: csv_init_state_def MEM_BLK_SIZE_def)

theorem csv_parse_safe_witness:
  "csv_inv (csv_init_state (arena_realloc 1000) 0) \<and> realloc_law (arena_realloc 1000) \<and>
   (case csv_parse collect1 collect2 (csv_init_state (arena_realloc 1000) 0) [0x61, 0x2c, 0x0a] [] of
    (n, p', d') \<Rightarrow> n \<le> 3 \<and> mem_ok p' \<and> csv_inv p')"
  using csv_parse_safe [where p = "csv_init_state (arena_realloc 1000) 0" and ?cb1.0 = collect1
    and ?cb2.0 = collect2 and s = "[0x61, 0x2c, 0x0a]" and d = "[]"]
  by (auto simp: realloc_law_arena csv_inv_init split: prod.splits)

theorem csv_parse_refines_witness:
  "csv_inv (csv_init_state (arena_realloc 1000) 0) \<and> realloc_law (arena_realloc 1000) \<and>
   (case csv_parse collect1 collect2 (csv_init_state (arena_realloc 1000) 0) [0x61, 0x2c] [] of
    (n, p', ev') \<Rightarrow> spec_run (dialect_of (csv_init_state (arena_realloc 1000) 0)) (take n [0x61, 0x2c])
       (astate_of (csv_init_state (arena_realloc 1000) 0)) [] = Some (astate_of p', ev'))"
  using csv_parse_refines [OF csv_inv_init, of "arena_realloc 1000" 0 "[0x61, 0x2c]" "[]"]
  by (auto simp: realloc_law_arena csv_inv_init split: prod.splits)

end
