(* ===== verification/Csv_Roundtrip.thy ===== *)
theory Csv_Roundtrip
  imports Csv_Refine
begin

text \<open>
  Writing and reading back: the exact output of \<open>csv_write\<close> and \<open>csv_fwrite\<close>, the events the
  parser reports for a table of quoted fields, and the finaliser.
\<close>

section \<open>The writers\<close>

lemma csv_put_prefix:
  assumes "chars = min (length full) SIZE_MAX" and "out = take n full" and "length full < SIZE_MAX \<or> n \<le> SIZE_MAX"
  shows "csv_put n c (chars, out) = (min (length (full @ [c])) SIZE_MAX, take n (full @ [c]))"
  using assms by (auto simp: csv_put_def min_def)

lemma csv_write_loop_prefix:
  assumes "n \<le> SIZE_MAX"
  shows "csv_write_loop q n s (min (length full) SIZE_MAX, take n full) =
    (min (length (full @ csv_escape q s)) SIZE_MAX, take n (full @ csv_escape q s))"
proof (induction s arbitrary: full)
  case (Cons c cs)
  have put: "csv_put n x (min (length f) SIZE_MAX, take n f) = (min (length (f @ [x])) SIZE_MAX, take n (f @ [x]))"
    for x f by (rule csv_put_prefix) (use assms in auto)
  show ?case
  proof (cases "c = q")
    case True
    with Cons.IH [of "full @ [q, q]"] put [of q full] put [of q "full @ [q]"] show ?thesis by simp
  next
    case False
    with Cons.IH [of "full @ [c]"] put [of c full] show ?thesis by simp
  qed
qed simp

lemma csv_write2_prefix:
  assumes "n \<le> SIZE_MAX"
  shows "csv_write2 (Some n) (Some s) q = (min (length (csv_quoted q s)) SIZE_MAX, take n (csv_quoted q s))"
proof -
  have st0: "(Suc 0, if n > 0 then [q] else []) = (min (length [q]) SIZE_MAX, take n [q])"
    by (auto simp: SIZE_MAX_def)
  have put: "csv_put n x (min (length f) SIZE_MAX, take n f) = (min (length (f @ [x])) SIZE_MAX, take n (f @ [x]))"
    for x f by (rule csv_put_prefix) (use assms in auto)
  show ?thesis
    unfolding csv_write2_def option.case Let_def st0 csv_write_loop_prefix [OF assms] put
    by (simp add: csv_quoted_def)
qed

lemma csv_write_write2: "csv_write dest src = csv_write2 dest src CSV_QUOTE"
  by (simp add: csv_write_def csv_write2_def)

lemma csv_fwrite_loop_list:
  "csv_fwrite_loop (\<lambda>c f. Some (f @ [c])) q s f = Some (f @ csv_escape q s)"
  by (induction s arbitrary: f) auto

section \<open>Reading a table of quoted fields\<close>

lemma spec_escape:
  assumes "clean_dialect D eol"
  shows "spec_run D (csv_escape (d_quote D) f) (FIELD_BEGUN, True, 0, acc) ev = Some ((FIELD_BEGUN, True, 0, acc @ f), ev)"
  using assms
  by (induction f arbitrary: acc) (auto simp: clean_dialect_def Let_def)

lemma spec_quoted:
  assumes "clean_dialect D eol" and "st = ROW_NOT_BEGUN \<or> st = FIELD_NOT_BEGUN"
  shows "spec_run D (csv_quoted (d_quote D) f) (fresh st) ev =
    Some ((FIELD_MIGHT_HAVE_ENDED, True, 0, f @ [d_quote D]), ev)"
proof -
  have "spec_step D (fresh st) (d_quote D) = Some ((FIELD_BEGUN, True, 0, []), [])"
    using assms by (auto simp: fresh_def clean_dialect_def)
  then show ?thesis
    using spec_escape [OF assms(1), of f "[]" ev]
    by (simp add: csv_quoted_def spec_run_append)
qed

lemma spec_join:
  assumes "clean_dialect D eol" and "fs \<noteq> []" and "st = ROW_NOT_BEGUN \<or> st = FIELD_NOT_BEGUN"
  shows "spec_run D (csv_join (d_quote D) (d_delim D) fs @ [eol]) (fresh st) ev =
    Some (fresh ROW_NOT_BEGUN, ev @ map (\<lambda>f. Field f True) fs @ [Row (uint eol)])"
  using assms(2,3)
proof (induction "d_quote D" "d_delim D" fs arbitrary: st ev rule: csv_join.induct)
  case (2 f)
  then show ?case
    using spec_quoted [OF assms(1), of st f ev] assms(1)
    by (simp add: spec_run_append clean_dialect_def emit_def)
next
  case (3 f g fs)
  then show ?case
    using spec_quoted [OF assms(1), of st f ev]
    by (simp add: spec_run_append emit_def)
qed simp

lemma spec_text:
  assumes "clean_dialect D eol" and "\<forall>r \<in> set rows. r \<noteq> []"
  shows "spec_run D (csv_text (d_quote D) (d_delim D) eol rows) (fresh ROW_NOT_BEGUN) ev =
    Some (fresh ROW_NOT_BEGUN, ev @ csv_events eol rows)"
  using assms(2)
proof (induction rows arbitrary: ev)
  case Nil
  then show ?case by (simp add: csv_text_def csv_events_def)
next
  case (Cons r rows)
  then show ?case
    using spec_join [OF assms(1), of r ROW_NOT_BEGUN ev]
    by (simp add: csv_text_def csv_events_def spec_run_append del: append_assoc)
qed

section \<open>The finaliser\<close>

lemma submit_field_collect:
  assumes "entry_buf p = Some b" and "entry_pos p \<le> length b" and "\<not> has_opt p CSV_APPEND_NULL"
  shows "snd (SUBMIT_FIELD_ROW collect1 collect2 k p d) =
    d @ [emit (quoted p) (spaces p) (take (entry_pos p) b), Row k]"
    and "fst (SUBMIT_FIELD_ROW collect1 collect2 k p d) =
      p\<lparr>pstate := ROW_NOT_BEGUN, entry_pos := 0, quoted := False, spaces := 0\<rparr>"
  using assms
  by (auto simp: SUBMIT_FIELD_ROW_def SUBMIT_FIELD_def SUBMIT_ROW_def Let_def collect1_def collect2_def
      emit_def buf_bytes_def min_def split: option.splits)

section \<open>Properties\<close>

text \<open>C4: a table of at least one field per row, written with every field quoted as \<open>csv_write2\<close>
  does, the fields separated by the delimiter and each row ended by a line-end character, is read
  back exactly: the parser consumes it all and reports those fields, quoted, and those row ends,
  whatever bytes the fields hold (quotes, delimiters, line ends, NUL).  The allocator must not fail
  and the text must fit a \<open>size_t\<close>.\<close>

theorem csv_roundtrip:
  assumes "csv_inv p" and "pstate p = ROW_NOT_BEGUN" and "status p = CSV_SUCCESS" and "0 < blk_size p"
    and "realloc_law (realloc_func p)" and "alloc_total (realloc_func p)"
    and "clean_dialect (dialect_of p) eol" and "\<forall>r \<in> set rows. r \<noteq> []"
    and "length (csv_text (quote_char p) (delim_char p) eol rows) + 1 < SIZE_MAX"
  shows "\<exists>p'. csv_parse collect1 collect2 p (csv_text (quote_char p) (delim_char p) eol rows) [] =
    (length (csv_text (quote_char p) (delim_char p) eol rows), p', csv_events eol rows) \<and>
    csv_inv p' \<and> pstate p' = ROW_NOT_BEGUN"
proof -
  have pos: "entry_pos p = 0" and a: "astate_of p = fresh ROW_NOT_BEGUN"
    using assms(1,2) by (auto simp: csv_inv_def state_inv_def astate_of_def fresh_def)
  have D: "d_quote (dialect_of p) = quote_char p" "d_delim (dialect_of p) = delim_char p"
    by (simp_all add: dialect_of_def)
  let ?s = "csv_text (quote_char p) (delim_char p) eol rows"
  have run: "spec_run (dialect_of p) ?s (astate_of p) [] = Some (fresh ROW_NOT_BEGUN, csv_events eol rows)"
    using spec_text [OF assms(7,8), of "[]"] by (simp add: a D)
  obtain p' where "csv_parse collect1 collect2 p ?s [] = (length ?s, p', csv_events eol rows)"
    "astate_of p' = fresh ROW_NOT_BEGUN" "csv_inv p'"
    by (rule csv_parse_complete [OF assms(1,5,6,4,3) _ run]) (use pos assms(9) in auto)
  then show ?thesis by (auto simp: astate_of_def fresh_def)
qed

theorem csv_roundtrip_witness:
  "\<exists>p'. csv_parse collect1 collect2 (csv_init_state (arena_realloc SIZE_MAX) 0)
      (csv_text 0x22 0x2c 0x0a [[[0x61, 0x22], []], [[0x0a]]]) [] =
    (length (csv_text 0x22 0x2c 0x0a [[[0x61, 0x22], []], [[0x0a]]]), p',
     csv_events 0x0a [[[0x61, 0x22], []], [[0x0a]]]) \<and> csv_inv p' \<and> pstate p' = ROW_NOT_BEGUN"
proof -
  let ?p = "csv_init_state (arena_realloc SIZE_MAX) 0"
  have c: "quote_char ?p = 0x22" "delim_char ?p = 0x2c" by (simp_all add: csv_init_state_def)
  have d: "clean_dialect (dialect_of ?p) 0x0a"
    by (simp add: clean_dialect_def dialect_of_def csv_init_state_def space_char_def term_char_def)
  have l: "length (csv_text 0x22 0x2c 0x0a [[[0x61, 0x22], []], [[0x0a]]]) + 1 < SIZE_MAX"
    by (simp add: csv_text_def csv_quoted_def SIZE_MAX_def)
  show ?thesis
    using csv_roundtrip [of ?p "0x0a" "[[[0x61, 0x22], []], [[0x0a]]]"] d l
    by (simp add: c csv_inv_init realloc_law_arena alloc_total_arena)
qed

text \<open>C5: \<open>csv_write2\<close> into a buffer of \<open>n\<close> bytes stores exactly the first \<open>n\<close> bytes of the quoted
  field, whatever \<open>n\<close> is, and returns the length the whole needs, saturated at \<open>SIZE_MAX\<close>;
  \<open>csv_write\<close> is the same for the double quote, and \<open>csv_fwrite2\<close> to a stream that accepts
  every byte appends exactly the quoted field.\<close>

theorem csv_writers_exact:
  assumes "n \<le> SIZE_MAX"
  shows "csv_write2 (Some n) (Some s) q = (min (length (csv_quoted q s)) SIZE_MAX, take n (csv_quoted q s)) \<and>
    csv_write (Some n) (Some s) = (min (length (csv_quoted CSV_QUOTE s)) SIZE_MAX, take n (csv_quoted CSV_QUOTE s)) \<and>
    csv_fwrite2 (\<lambda>c f. Some (f @ [c])) (Some f) (Some s) q = Some (Some (f @ csv_quoted q s))"
  using csv_write2_prefix [OF assms]
  by (simp add: csv_write_write2 csv_fwrite2_def csv_fwrite_loop_list csv_quoted_def)

theorem csv_writers_exact_witness:
  "(4::nat) \<le> SIZE_MAX \<and> csv_write2 (Some 4) (Some [0x61, 0x22, 0x62]) 0x22 = (6, [0x22, 0x61, 0x22, 0x22])"
proof -
  have h: "(4::nat) \<le> SIZE_MAX" by (simp add: SIZE_MAX_def)
  show ?thesis
    using h csv_writers_exact [OF h, of "[0x61, 0x22, 0x62]" "0x22" "[]"]
    by (simp add: csv_quoted_def SIZE_MAX_def)
qed

text \<open>C6: \<open>csv_fini\<close> on a well-formed parser whose fields are not NUL-terminated: unless strict
  finishing finds an open quoted field, which it rejects with \<open>CSV_EPARSE\<close> and no event, it
  reports the pending field (without the trailing blanks and the closing quote) and the end of its
  row, nothing between rows, and leaves the parser ready for the next input, without a write
  outside of the buffer.\<close>

theorem csv_fini_correct:
  assumes "csv_inv p" and "entry_buf p \<noteq> None" and "\<not> has_opt p CSV_APPEND_NULL"
  shows "csv_fini collect1 collect2 p d =
    (if pstate p = FIELD_BEGUN \<and> quoted p \<and> has_opt p CSV_STRICT \<and> has_opt p CSV_STRICT_FINI
     then (-1, p\<lparr>status := CSV_EPARSE\<rparr>, d)
     else (0, p\<lparr>pstate := ROW_NOT_BEGUN, quoted := False, spaces := 0, entry_pos := 0, status := 0\<rparr>,
           d @ spec_fini (astate_of p)))"
proof -
  from assms obtain b where b: "entry_buf p = Some b" "entry_pos p \<le> length b"
    by (auto simp: csv_inv_def buf_inv_def)
  let ?q = "p\<lparr>entry_pos := entry_pos p - Suc (spaces p)\<rparr>"
  have bq: "entry_buf ?q = Some b" "entry_pos ?q \<le> length b" "\<not> has_opt ?q CSV_APPEND_NULL"
    using b assms(3) by auto
  have tk: "take (length (take (entry_pos p) b) - Suc k) (take (entry_pos p) b) = take (entry_pos p - Suc k) b" for k
    using b(2) by (simp add: min_def)
  note sf = submit_field_collect [OF b assms(3)] submit_field_collect [OF bq]
  show ?thesis
    using assms(1)
    by (cases "pstate p")
      (simp_all add: csv_fini_def sf Let_def astate_of_def buf_bytes_def b(1) tk inv_defs del: take_take length_take)
qed

theorem csv_fini_correct_witness:
  "csv_fini collect1 collect2 ((csv_init_state (arena_realloc 9) 0)\<lparr>entry_buf := Some [0x61, 0], entry_size := 2,
      entry_pos := 1, pstate := FIELD_BEGUN\<rparr>) [] =
   (0, (csv_init_state (arena_realloc 9) 0)\<lparr>entry_buf := Some [0x61, 0], entry_size := 2\<rparr>,
    [Field [0x61] False, Row (-1)])"
  using csv_fini_correct [of "(csv_init_state (arena_realloc 9) 0)\<lparr>entry_buf := Some [0x61, 0], entry_size := 2,
      entry_pos := 1, pstate := FIELD_BEGUN\<rparr>" "[]"]
  by (simp add: inv_defs csv_init_state_def MEM_BLK_SIZE_def SIZE_MAX_def reserved_def has_opt_def
      astate_of_def buf_bytes_def emit_def)


end
