(* ===== verification/Csv_Replay.thy ===== *)
theory Csv_Replay
  imports Csv_Roundtrip
begin

text \<open>
  A client of the CSV parser sees nothing but the events: running the parser with a client's
  callbacks is running it with the collecting ones and replaying the events to the client.
\<close>

definition apply_event ::
  "(byte list \<Rightarrow> nat \<Rightarrow> bool \<Rightarrow> 'd \<Rightarrow> 'd) \<Rightarrow> (int \<Rightarrow> 'd \<Rightarrow> 'd) \<Rightarrow> csv_event \<Rightarrow> 'd \<Rightarrow> 'd" where
  "apply_event f g e d = (case e of Field x q \<Rightarrow> f x (length x) q d | Row c \<Rightarrow> g c d)"

definition replay ::
  "(byte list \<Rightarrow> nat \<Rightarrow> bool \<Rightarrow> 'd \<Rightarrow> 'd) \<Rightarrow> (int \<Rightarrow> 'd \<Rightarrow> 'd) \<Rightarrow> csv_event list \<Rightarrow> 'd \<Rightarrow> 'd" where
  "replay f g ev d = fold (apply_event f g) ev d"

lemma replay_simps [simp]:
  "replay f g [] d = d"
  "replay f g (Field x q # ev) d = replay f g ev (f x (length x) q d)"
  "replay f g (Row c # ev) d = replay f g ev (g c d)"
  "replay f g (ev @ ev') d = replay f g ev' (replay f g ev d)"
  by (simp_all add: replay_def apply_event_def)

definition map_next :: "('a \<Rightarrow> 'b) \<Rightarrow> 'a csv_next \<Rightarrow> 'b csv_next" where
  "map_next r n = (case n of Go p d \<Rightarrow> Go p (r d) | Stop p \<Rightarrow> Stop p)"

lemma map_next_simps [simp]: "map_next r (Go p d) = Go p (r d)" "map_next r (Stop p) = Stop p"
  "map_next r (go pd) = go (map_prod id r pd)" "map_next r (if P then a else b) = (if P then map_next r a else map_next r b)"
  by (simp_all add: map_next_def go_def)

text \<open>A client whose field callback reads no more of the buffer than the field.\<close>

locale event_client =
  fixes f :: "byte list \<Rightarrow> nat \<Rightarrow> bool \<Rightarrow> 'd \<Rightarrow> 'd" and g :: "int \<Rightarrow> 'd \<Rightarrow> 'd"
  assumes reads_field: "n \<le> length b \<Longrightarrow> f b n q d = f (take n b) n q d"
begin

abbreviation rep :: "'d \<Rightarrow> csv_event list \<Rightarrow> 'd" where
  "rep d \<equiv> \<lambda>ev. replay f g ev d"

lemma submit_field_replay:
  assumes "room p"
  shows "SUBMIT_FIELD (Some f) p (rep d ev) = map_prod id (rep d) (SUBMIT_FIELD collect1 p ev)"
proof -
  obtain b where b: "entry_buf p = Some b" "length b = entry_size p" "entry_pos p + reserved p < entry_size p"
    using assms by (rule roomE)
  then have "entry_pos p + reserved p < length b" by simp
  note sf = submit_field_room [OF b(1) this]
  let ?e = "entry_pos p - (if quoted p then 0 else spaces p)"
  obtain b1 where b1: "length b1 = length b" "take ?e b1 = take ?e b"
    "SUBMIT_FIELD (Some f) p (rep d ev) =
      (p\<lparr>pstate := FIELD_NOT_BEGUN, entry_pos := 0, quoted := False, spaces := 0, entry_buf := Some b1\<rparr>,
       f b1 ?e (quoted p) (rep d ev))"
    by (rule sf [where ?cb1.0 = "Some f" and d = "rep d ev"]) simp
  obtain b2 where b2: "length b2 = length b" "take ?e b2 = take ?e b"
    "SUBMIT_FIELD collect1 p ev =
      (p\<lparr>pstate := FIELD_NOT_BEGUN, entry_pos := 0, quoted := False, spaces := 0, entry_buf := Some b2\<rparr>,
       ev @ [Field (take ?e b2) (quoted p)])"
    by (rule sf [where ?cb1.0 = collect1 and d = ev]) (simp add: collect1_def)
  have same: "fst (SUBMIT_FIELD (Some f) p (rep d ev)) = fst (SUBMIT_FIELD collect1 p ev)"
    by (simp add: SUBMIT_FIELD_def Let_def)
  then have "p\<lparr>pstate := FIELD_NOT_BEGUN, entry_pos := 0, quoted := False, spaces := 0, entry_buf := Some b1\<rparr>
      = p\<lparr>pstate := FIELD_NOT_BEGUN, entry_pos := 0, quoted := False, spaces := 0, entry_buf := Some b2\<rparr>"
    using b1(3) b2(3) by simp
  moreover have "?e \<le> length b1" using b(2,3) b1(1) by simp
  then have "f b1 ?e (quoted p) (rep d ev) = f (take ?e b) ?e (quoted p) (rep d ev)"
    using reads_field [of ?e b1] b1(2) by simp
  moreover have "length (take ?e b) = ?e" using b(2,3) by simp
  ultimately show ?thesis
    unfolding b1(3) b2(3) map_prod_simp id_apply by (simp add: b2(2))
qed

lemma submit_row_replay:
  "SUBMIT_ROW (Some g) c p (rep d ev) = map_prod id (rep d) (SUBMIT_ROW collect2 c p ev)"
  by (simp add: SUBMIT_ROW_def collect2_def)

lemma submit_field_row_replay:
  assumes "room p"
  shows "SUBMIT_FIELD_ROW (Some f) (Some g) c p (rep d ev) = map_prod id (rep d) (SUBMIT_FIELD_ROW collect1 collect2 c p ev)"
  by (cases "SUBMIT_FIELD collect1 p ev")
    (simp add: SUBMIT_FIELD_ROW_def submit_field_replay [OF assms] submit_row_replay)

lemma csv_step_replay:
  assumes "room p"
  shows "csv_step (Some f) (Some g) p (rep d ev) c = map_next (rep d) (csv_step collect1 collect2 p ev c)"
proof -
  have r: "room (p\<lparr>entry_pos := entry_pos p - (spaces p + 1)\<rparr>)"
    using assms by (rule room_shrink)
  note subs = submit_field_replay [OF assms] submit_field_row_replay [OF assms]
    submit_field_replay [OF r] submit_field_row_replay [OF r] submit_row_replay
  show ?thesis
    by (cases "pstate p") (simp_all only: csv_step_def csv_not_begun_def csv_begun_def csv_might_have_ended_def
        subs map_next_simps pstate.case)
qed

lemma csv_loop_replay:
  assumes "csv_inv p" "realloc_law (realloc_func p)" "entry_buf p \<noteq> None"
  shows "csv_loop (Some f) (Some g) s pos p (rep d ev) =
    (case csv_loop collect1 collect2 s pos p ev of (n, p', ev') \<Rightarrow> (n, p', rep d ev'))"
  using assms
proof (induction s arbitrary: pos p ev)
  case (Cons c cs)
  obtain rc p1 where r: "csv_reserve p = (rc, p1)" by fastforce
  show ?case
  proof (cases "rc = 0")
    case False
    then show ?thesis using r by simp
  next
    case True
    with r csv_reserve_ok Cons.prems have 1: "csv_inv p1" "same_config p p1" "room p1" by blast+
    note st = csv_step_replay [OF 1(3), where d = d and ev = ev and c = c]
    show ?thesis
    proof (cases "csv_step collect1 collect2 p1 ev c")
      case (Go p2 ev2)
      have 2: "csv_inv p2" "same_config p1 p2" using csv_step_inv [OF 1(1,3) Go] by auto
      have "entry_buf p1 \<noteq> None" using 1(3) by (auto elim: roomE)
      then have "entry_buf p2 \<noteq> None" using Go by (rule csv_step_buf)
      moreover have "realloc_law (realloc_func p2)"
        using Cons.prems(2) 1(2) 2(2) by (simp add: same_config_def)
      ultimately show ?thesis
        using Cons.IH [OF 2(1), where pos = "Suc pos" and ev = ev2] st Go r True by simp
    next
      case (Stop p2)
      then show ?thesis using st r True by simp
    qed
  qed
qed simp

lemma csv_parse_replay:
  assumes "csv_inv p" "realloc_law (realloc_func p)"
  shows "csv_parse (Some f) (Some g) p s (rep d ev) =
    (case csv_parse collect1 collect2 p s ev of (n, p', ev') \<Rightarrow> (n, p', rep d ev'))"
proof (cases "entry_buf p = None \<and> 0 < length s")
  case True
  obtain rc p1 where inc: "csv_increase_buffer p = (rc, p1)" by fastforce
  show ?thesis
  proof (cases "rc = 0")
    case rc: True
    then have k: "csv_inv p1" "same_config p p1" "entry_buf p1 \<noteq> None"
      using csv_increase_keeps [of p p1] inc assms by auto
    then show ?thesis
      using csv_loop_replay [OF k(1) _ k(3), where s = s and pos = 0 and d = d and ev = ev] assms(2) inc True rc
      by (simp add: csv_parse_def same_config_def)
  qed (use inc True in \<open>simp add: csv_parse_def\<close>)
next
  case False
  show ?thesis
  proof (cases "s = []")
    case ne: False
    then have "entry_buf p \<noteq> None" using False by simp
    then show ?thesis
      using csv_loop_replay [OF assms, where s = s and pos = 0 and d = d and ev = ev] by (simp add: csv_parse_buf)
  qed (simp add: csv_parse_def)
qed

end

end
