(* ===== verification/Typed_Sheet_Correct.thy ===== *)
theory Typed_Sheet_Correct
  imports Typed_Sheet
begin

text \<open>
  The row and column operations keep a sheet rectangular and never leave a vector, a move puts the
  moved line right before its base and changes no other order, and a deletion undoes an insertion.
\<close>

section \<open>Lines of a table as lists\<close>

definition remove_at :: "nat \<Rightarrow> 'a list \<Rightarrow> 'a list" where
  "remove_at i xs = take i xs @ drop (Suc i) xs"

definition insert_at :: "nat \<Rightarrow> 'a \<Rightarrow> 'a list \<Rightarrow> 'a list" where
  "insert_at i v xs = take i xs @ v # drop i xs"

lemma length_remove_at [simp]: "i < length xs \<Longrightarrow> length (remove_at i xs) = length xs - 1"
  by (simp add: remove_at_def)

lemma length_insert_at [simp]: "length (insert_at i v xs) = Suc (length xs)"
  by (simp add: insert_at_def)

lemma remove_insert [simp]: "i \<le> length xs \<Longrightarrow> remove_at i (insert_at i v xs) = xs"
  by (simp add: remove_at_def insert_at_def)

lemma nth_insert_at [simp]: "i \<le> length xs \<Longrightarrow> insert_at i v xs ! i = v"
  by (simp add: insert_at_def nth_append)

lemma nth_insert_at_after: "i \<le> j \<Longrightarrow> j < length xs \<Longrightarrow> insert_at i v xs ! Suc j = xs ! j"
  by (simp add: insert_at_def nth_append)

lemma nth_remove_at: "i < length xs \<Longrightarrow> j < length xs - 1 \<Longrightarrow> remove_at i xs ! j = (if j < i then xs ! j else xs ! Suc j)"
  by (simp add: remove_at_def nth_append)

lemma set_remove_at: "set (remove_at i xs) \<subseteq> set xs"
  unfolding remove_at_def using set_take_subset [of i xs] set_drop_subset [of "Suc i" xs] by auto

lemma set_insert_at: "set (insert_at i v xs) = insert v (set xs)"
proof -
  have "set xs = set (take i xs) \<union> set (drop i xs)" by (metis append_take_drop_id set_append)
  then show ?thesis by (auto simp: insert_at_def)
qed

text \<open>Where a line goes when it is moved before \<open>base\<close> (-1: behind all), and the list that results.\<close>

definition move_pos :: "nat \<Rightarrow> nat \<Rightarrow> int \<Rightarrow> nat" where
  "move_pos n src base = (if base = -1 then n - 1 else if base > int src then nat base - 1 else nat base)"

definition move_line :: "nat \<Rightarrow> int \<Rightarrow> 'a list \<Rightarrow> 'a list" where
  "move_line src base xs = insert_at (move_pos (length xs) src base) (xs ! src) (remove_at src xs)"

lemma move_pos_less: "src < n \<Longrightarrow> -1 \<le> base \<Longrightarrow> base < int n \<Longrightarrow> move_pos n src base < n"
  by (auto simp: move_pos_def)

lemma length_move_line [simp]: "src < length xs \<Longrightarrow> length (move_line src base xs) = length xs"
  by (simp add: move_line_def)

text \<open>The moved line is found at its new position, the other lines keep their order, and the line
  behind it is the base.\<close>

lemma move_line_spec:
  assumes "src < length xs" "-1 \<le> base" "base < int (length xs)"
  defines "p \<equiv> move_pos (length xs) src base"
  shows "move_line src base xs ! p = xs ! src" "remove_at p (move_line src base xs) = remove_at src xs"
    "base \<noteq> -1 \<Longrightarrow> base \<noteq> int src \<Longrightarrow> Suc p < length xs \<and> move_line src base xs ! Suc p = xs ! nat base"
    "base = -1 \<Longrightarrow> Suc p = length xs"
proof -
  have p: "p \<le> length (remove_at src xs)"
    using move_pos_less [OF assms(1-3)] assms(1) by (simp add: p_def)
  then show "move_line src base xs ! p = xs ! src" "remove_at p (move_line src base xs) = remove_at src xs"
    by (simp_all add: move_line_def p_def)
  show "base = -1 \<Longrightarrow> Suc p = length xs" using assms(1) by (simp add: p_def move_pos_def)
  assume b: "base \<noteq> -1" "base \<noteq> int src"
  then have lt: "p < length xs - 1" using assms by (auto simp: p_def move_pos_def)
  have "move_line src base xs ! Suc p = remove_at src xs ! p"
    using lt assms(1) nth_insert_at_after [of p p "remove_at src xs" "xs ! src"] by (simp add: move_line_def flip: p_def)
  also have "\<dots> = xs ! nat base"
    using nth_remove_at [OF assms(1) lt] b assms(2,3) by (auto simp: p_def move_pos_def)
  finally show "Suc p < length xs \<and> move_line src base xs ! Suc p = xs ! nat base" using lt by simp
qed

section \<open>The vector steps\<close>

lemma vec_at_Some [simp]: "i < length xs \<Longrightarrow> vec_at xs (int i) = Some (xs ! i)"
  by (simp add: vec_at_def)

lemma vec_erase_Some [simp]: "i < length xs \<Longrightarrow> vec_erase xs (int i) = Some (remove_at i xs)"
  by (simp add: vec_erase_def remove_at_def)

lemma vec_insert_Some [simp]: "i \<le> length xs \<Longrightarrow> vec_insert xs (int i) v = Some (insert_at i v xs)"
  by (simp add: vec_insert_def insert_at_def)

lemma remove_before_insert:
  "i \<le> j \<Longrightarrow> j < length xs \<Longrightarrow> remove_at (Suc j) (insert_at i v xs) = insert_at i v (remove_at j xs)"
proof -
  assume a: "i \<le> j" "j < length xs"
  have "remove_at (Suc j) (insert_at i v xs) = take i xs @ v # remove_at (j - i) (drop i xs)"
    using a by (simp add: remove_at_def insert_at_def Suc_diff_le)
  moreover have "insert_at i v (remove_at j xs) = take i xs @ v # remove_at (j - i) (drop i xs)"
    using a by (simp add: remove_at_def insert_at_def take_drop add.commute)
  ultimately show ?thesis by simp
qed

lemma remove_after_insert:
  "j < i \<Longrightarrow> i \<le> length xs \<Longrightarrow> remove_at j (insert_at i v xs) = insert_at (i - 1) v (remove_at j xs)"
proof -
  assume a: "j < i" "i \<le> length xs"
  have "remove_at j (insert_at i v xs) = remove_at j (take i xs) @ v # drop i xs"
    using a by (simp add: remove_at_def insert_at_def min_def)
  moreover have "insert_at (i - 1) v (remove_at j xs) = remove_at j (take i xs) @ v # drop i xs"
    using a by (cases "i = Suc j") (auto simp: remove_at_def insert_at_def drop_take min_def)
  ultimately show ?thesis by simp
qed

text \<open>Insert a copy, then erase the original: the two vector steps of a move.\<close>

lemma move_steps:
  assumes "src < length xs" "-1 \<le> base" "base < int (length xs)"
  shows "Option.bind (if base \<ge> 0 then vec_insert xs base (xs ! src) else Some (xs @ [xs ! src]))
           (\<lambda>ys. vec_erase ys (if base \<le> int src \<and> base \<noteq> -1 then int src + 1 else int src)) = Some (move_line src base xs)"
proof (cases "base = -1")
  case True
  have "insert_at (length xs - 1) (xs ! src) (remove_at src xs) = remove_at src (insert_at (length xs) (xs ! src) xs)"
    using remove_after_insert [of src "length xs" xs "xs ! src"] assms(1) by simp
  then show ?thesis
    using True assms(1) by (simp add: move_line_def move_pos_def insert_at_def)
next
  case False
  then have "0 \<le> base" using assms(2) by linarith
  then obtain b where b: "base = int b" "b < length xs"
    using assms(3) zero_le_imp_eq_int by fastforce
  show ?thesis
  proof (cases "b \<le> src")
    case True
    have "vec_erase (insert_at b (xs ! src) xs) (int (Suc src)) = Some (remove_at (Suc src) (insert_at b (xs ! src) xs))"
      using assms(1) by (intro vec_erase_Some) simp
    then show ?thesis
      using True b assms(1) by (simp add: move_line_def move_pos_def remove_before_insert add.commute)
  next
    case False
    then show ?thesis
      using b assms(1) by (simp add: move_line_def move_pos_def remove_after_insert)
  qed
qed

section \<open>Rectangular sheets\<close>

definition sheet_ok :: "'a typed_sheet \<Rightarrow> bool" where
  "sheet_ok s \<longleftrightarrow> h s = int (length (arr s)) \<and> 0 \<le> w s \<and> (\<forall>r \<in> set (arr s). int (length r) = w s)"

lemma each_row_Some: "(\<And>r. r \<in> set rs \<Longrightarrow> f r = Some (g r)) \<Longrightarrow> each_row f rs = Some (map g rs)"
  by (induction rs) simp_all

lemma sheet_ok_rows: "sheet_ok s \<Longrightarrow> r \<in> set (arr s) \<Longrightarrow> int (length r) = w s"
  by (simp add: sheet_ok_def)

lemma deleteColumn_eq:
  assumes "sheet_ok s" "0 \<le> c" "c < w s"
  shows "deleteColumn c s = Some (True, s\<lparr>arr := map (remove_at (nat c)) (arr s), w := w s - 1\<rparr>)"
proof -
  have "each_row (\<lambda>r. vec_erase r c) (arr s) = Some (map (remove_at (nat c)) (arr s))"
    using assms sheet_ok_rows [OF assms(1)] by (intro each_row_Some) (auto simp: vec_erase_def remove_at_def nat_less_iff)
  then show ?thesis using assms by (simp add: deleteColumn_def)
qed

lemma insertColumn_eq:
  assumes "sheet_ok s" "c < w s"
  shows "insertColumn c s = Some (if c \<ge> 0 then c else w s,
    s\<lparr>arr := map (\<lambda>r. insert_at (if c \<ge> 0 then nat c else length r) (zero s) r) (arr s), w := w s + 1\<rparr>)"
proof -
  have "each_row (\<lambda>r. if c \<ge> 0 then vec_insert r c (zero s) else Some (r @ [zero s])) (arr s)
      = Some (map (\<lambda>r. insert_at (if c \<ge> 0 then nat c else length r) (zero s) r) (arr s))"
    using assms sheet_ok_rows [OF assms(1)] by (intro each_row_Some) (auto simp: vec_insert_def insert_at_def nat_le_iff)
  then show ?thesis using assms(2) by (simp add: insertColumn_def)
qed

lemma moveColumn_eq:
  assumes "sheet_ok s" "0 \<le> src" "src < w s" "-1 \<le> base" "base < w s"
  shows "moveColumn src base s = Some (int (move_pos (nat (w s)) (nat src) base), s\<lparr>arr := map (move_line (nat src) base) (arr s)\<rparr>)"
proof -
  let ?step = "\<lambda>row. Option.bind (vec_at row src) (\<lambda>v.
    Option.bind (if base \<ge> 0 then vec_insert row base v else Some (row @ [v])) (\<lambda>row'.
      vec_erase row' (if base \<le> src \<and> base \<noteq> -1 then src + 1 else src)))"
  have "?step r = Some (move_line (nat src) base r)" if "r \<in> set (arr s)" for r
  proof -
    have len: "int (length r) = w s" using sheet_ok_rows [OF assms(1) that] .
    then have "vec_at r src = Some (r ! nat src)" using assms by (simp add: vec_at_def nat_less_iff)
    moreover have "nat src < length r" "int (nat src) = src" "base < int (length r)"
      using assms(2,3,5) len by (simp_all add: nat_less_iff)
    ultimately show ?thesis
      using move_steps [of "nat src" r base] assms(4) by (simp only: Option.bind.simps)
  qed
  then have rows: "each_row ?step (arr s) = Some (map (move_line (nat src) base) (arr s))"
    by (rule each_row_Some)
  have guards: "\<not> base \<ge> w s" "\<not> (src < 0 \<or> src \<ge> w s)" using assms by auto
  have "moveColumn src base s = map_option (\<lambda>a. (if base < 0 then w s - 1
      else if base \<le> src \<and> base \<noteq> -1 then base else base - 1, s\<lparr>arr := a\<rparr>)) (each_row ?step (arr s))"
    unfolding moveColumn_def Let_def using guards by (simp only: if_False)
  also have "\<dots> = Some (int (move_pos (nat (w s)) (nat src) base), s\<lparr>arr := map (move_line (nat src) base) (arr s)\<rparr>)"
    unfolding rows using assms by (auto simp: move_pos_def)
  finally show ?thesis .
qed

lemma bind_map_option: "Option.bind x (\<lambda>a. map_option f (g a)) = map_option f (Option.bind x g)"
  by (cases x) simp_all

lemma deleteRow_eq:
  assumes "sheet_ok s" "0 \<le> r" "r < h s"
  shows "deleteRow r s = Some (True, s\<lparr>arr := remove_at (nat r) (arr s), h := h s - 1\<rparr>)"
  using assms by (auto simp: deleteRow_def vec_erase_def remove_at_def sheet_ok_def nat_less_iff)

lemma insertRow_eq:
  assumes "sheet_ok s" "base < h s"
  shows "insertRow base s = Some (if base < 0 then h s else base,
    s\<lparr>arr := insert_at (if base < 0 then length (arr s) else nat base) (replicate (nat (w s)) (zero s)) (arr s), h := h s + 1\<rparr>)"
proof -
  have hs: "h s = int (length (arr s))" using assms(1) by (simp add: sheet_ok_def)
  have upd: "(insert_at i [] xs)[i := v] = insert_at i v xs" if "i \<le> length xs" for i and v :: "'a list" and xs
    using that by (simp add: insert_at_def list_update_append)
  show ?thesis
  proof (cases "base < 0")
    case True
    have "arr s @ [[]] = insert_at (length (arr s)) [] (arr s)" by (simp add: insert_at_def)
    then show ?thesis
      using True assms(2) hs by (auto simp: insertRow_def upd)
  next
    case False
    then obtain b where b: "base = int b" "b < length (arr s)" using assms(2) hs zero_le_imp_eq_int by fastforce
    then show ?thesis
      using False assms(2) by (auto simp: insertRow_def upd)
  qed
qed

lemma moveRow_eq:
  assumes "sheet_ok s" "0 \<le> src" "src < h s" "-1 \<le> base" "base < h s"
  shows "moveRow src base s = Some (int (move_pos (length (arr s)) (nat src) base), s\<lparr>arr := move_line (nat src) base (arr s)\<rparr>)"
proof -
  have hs: "h s = int (length (arr s))" using assms(1) by (simp add: sheet_ok_def)
  obtain i where i: "src = int i" "i < length (arr s)" using assms(2,3) hs zero_le_imp_eq_int by fastforce
  note st = move_steps [OF i(2) assms(4), unfolded hs [symmetric], OF assms(5)]
  show ?thesis
  proof (cases "base = -1")
    case True
    then show ?thesis using st i hs assms by (simp add: moveRow_def move_pos_def)
  next
    case False
    show ?thesis
    proof (cases "base = src")
      case True
      have "remove_at i (insert_at i (arr s ! i) (arr s)) = move_line i (int i) (arr s)"
        using i(2) by (simp add: move_line_def move_pos_def insert_at_def remove_at_def id_take_nth_drop [symmetric])
      then show ?thesis using True i hs assms by (simp add: moveRow_def move_pos_def)
    next
      case ne: False
      then have "(base \<le> int i \<and> base \<noteq> -1) = (base < src)" using False i by auto
      then show ?thesis
        using st False ne i hs assms by (auto simp: moveRow_def move_pos_def Let_def add.commute bind_map_option)
    qed
  qed
qed

lemma sheet_ok_update:
  "sheet_ok s \<Longrightarrow> h' = int (length a) \<Longrightarrow> 0 \<le> w' \<Longrightarrow> (\<And>r. r \<in> set a \<Longrightarrow> int (length r) = w') \<Longrightarrow>
   sheet_ok (s\<lparr>arr := a, h := h', w := w'\<rparr>)"
  by (simp add: sheet_ok_def)

lemma sheet_okD: "sheet_ok s \<Longrightarrow> h s = int (length (arr s))" "sheet_ok s \<Longrightarrow> 0 \<le> w s"
  by (simp_all add: sheet_ok_def)

section \<open>Editing lines\<close>

text \<open>
  The interface through which tables are edited line by line.  A line is a row or a column: the
  contract is the same for both, and so is what follows from it.
\<close>

locale line_editor =
  fixes ok :: "'s \<Rightarrow> bool" and lines :: "'s \<Rightarrow> 'l list" and fresh :: "'s \<Rightarrow> 'l"
    and del :: "int \<Rightarrow> 's \<Rightarrow> (bool \<times> 's) option" and ins :: "int \<Rightarrow> 's \<Rightarrow> (int \<times> 's) option"
    and mov :: "int \<Rightarrow> int \<Rightarrow> 's \<Rightarrow> (int \<times> 's) option"
  assumes del_ok: "ok s \<Longrightarrow> 0 \<le> i \<Longrightarrow> i < int (length (lines s)) \<Longrightarrow>
      \<exists>s'. del i s = Some (True, s') \<and> ok s' \<and> lines s' = remove_at (nat i) (lines s)"
    and ins_ok: "ok s \<Longrightarrow> b < int (length (lines s)) \<Longrightarrow>
      \<exists>s'. ins b s = Some (if b < 0 then int (length (lines s)) else b, s') \<and> ok s' \<and>
        lines s' = insert_at (if b < 0 then length (lines s) else nat b) (fresh s) (lines s)"
    and mov_ok: "ok s \<Longrightarrow> 0 \<le> i \<Longrightarrow> i < int (length (lines s)) \<Longrightarrow> -1 \<le> b \<Longrightarrow> b < int (length (lines s)) \<Longrightarrow>
      \<exists>s'. mov i b s = Some (int (move_pos (length (lines s)) (nat i) b), s') \<and> ok s' \<and>
        lines s' = move_line (nat i) b (lines s)"
begin

lemma mov_target:
  assumes "ok s" "0 \<le> i" "i < int (length (lines s))" "-1 \<le> b" "b < int (length (lines s))"
  shows "\<exists>p s'. mov i b s = Some (int p, s') \<and> ok s' \<and> length (lines s') = length (lines s) \<and>
    p < length (lines s) \<and> lines s' ! p = lines s ! nat i \<and> remove_at p (lines s') = remove_at (nat i) (lines s) \<and>
    (if b = -1 then Suc p = length (lines s)
     else if b = i then lines s' = lines s else lines s' ! Suc p = lines s ! nat b)"
proof -
  let ?p = "move_pos (length (lines s)) (nat i) b"
  have i: "nat i < length (lines s)" using assms(2,3) by (simp add: nat_less_iff)
  obtain s' where s': "mov i b s = Some (int ?p, s')" "ok s'" "lines s' = move_line (nat i) b (lines s)"
    using mov_ok [OF assms] by blast
  have stay: "move_line (nat i) b (lines s) = lines s" if "b = i"
    using that i assms(2)
    by (simp add: move_line_def move_pos_def insert_at_def remove_at_def id_take_nth_drop [symmetric])
  have "?p < length (lines s)" by (rule move_pos_less [OF i assms(4,5)])
  then show ?thesis
    using s' move_line_spec [OF i assms(4,5)] stay i assms(2) by (intro exI [of _ ?p] exI [of _ s']) auto
qed

lemma del_ins:
  assumes "ok s" "b < int (length (lines s))"
  shows "\<exists>p s1 s2. ins b s = Some (p, s1) \<and> del p s1 = Some (True, s2) \<and> ok s2 \<and> lines s2 = lines s"
proof -
  let ?p = "if b < 0 then length (lines s) else nat b"
  have p: "(if b < 0 then int (length (lines s)) else b) = int ?p" "?p \<le> length (lines s)"
    using assms(2) by auto
  obtain s1 where s1: "ins b s = Some (int ?p, s1)" "ok s1" "lines s1 = insert_at ?p (fresh s) (lines s)"
    using ins_ok [OF assms] p(1) by metis
  moreover obtain s2 where "del (int ?p) s1 = Some (True, s2)" "ok s2" "lines s2 = remove_at ?p (lines s1)"
    using del_ok [OF s1(2), of "int ?p"] s1(3) p(2) by auto
  ultimately show ?thesis using p(2) by auto
qed

end

lemma insert_at_replicate_rows: "r \<in> set (insert_at i v rows) \<Longrightarrow> r = v \<or> r \<in> set rows"
  by (simp add: set_insert_at)

lemma set_move_line: "src < length xs \<Longrightarrow> r \<in> set (move_line src base xs) \<Longrightarrow> r \<in> set xs"
  using set_remove_at by (fastforce simp: move_line_def set_insert_at)

interpretation rows: line_editor sheet_ok arr "\<lambda>s. replicate (nat (w s)) (zero s)" deleteRow insertRow moveRow
proof unfold_locales
  fix s :: "'a typed_sheet" and i
  assume a: "sheet_ok s" "0 \<le> i" "i < int (length (arr s))"
  have "sheet_ok (s\<lparr>arr := remove_at (nat i) (arr s), h := h s - 1\<rparr>)"
    using a set_remove_at [of "nat i" "arr s"] by (auto simp: sheet_ok_def nat_less_iff)
  then show "\<exists>s'. deleteRow i s = Some (True, s') \<and> sheet_ok s' \<and> arr s' = remove_at (nat i) (arr s)"
    using deleteRow_eq [OF a(1,2)] a(3) sheet_okD(1) [OF a(1)] by simp
next
  fix s :: "'a typed_sheet" and b
  assume a: "sheet_ok s" "b < int (length (arr s))"
  let ?i = "if b < 0 then length (arr s) else nat b"
  have "sheet_ok (s\<lparr>arr := insert_at ?i (replicate (nat (w s)) (zero s)) (arr s), h := h s + 1\<rparr>)"
    using a by (auto simp: sheet_ok_def set_insert_at)
  then show "\<exists>s'. insertRow b s = Some (if b < 0 then int (length (arr s)) else b, s') \<and> sheet_ok s' \<and>
      arr s' = insert_at ?i (replicate (nat (w s)) (zero s)) (arr s)"
    using insertRow_eq [OF a(1), of b] a(2) sheet_okD(1) [OF a(1)] by simp
next
  fix s :: "'a typed_sheet" and i b
  assume a: "sheet_ok s" "0 \<le> i" "i < int (length (arr s))" "-1 \<le> b" "b < int (length (arr s))"
  then have i: "nat i < length (arr s)" by (simp add: nat_less_iff)
  have "sheet_ok (s\<lparr>arr := move_line (nat i) b (arr s)\<rparr>)"
    using a i set_move_line [OF i] by (auto simp: sheet_ok_def)
  then show "\<exists>s'. moveRow i b s = Some (int (move_pos (length (arr s)) (nat i) b), s') \<and> sheet_ok s' \<and>
      arr s' = move_line (nat i) b (arr s)"
    using moveRow_eq [OF a(1,2)] a(3-5) sheet_okD(1) [OF a(1)] by simp
qed

section \<open>Columns as lines\<close>

definition cols_of :: "nat \<Rightarrow> 'a list list \<Rightarrow> 'a list list" where
  "cols_of n rows = map (\<lambda>c. map (\<lambda>r. r ! c) rows) [0..<n]"

definition cols :: "'a typed_sheet \<Rightarrow> 'a list list" where
  "cols s = cols_of (nat (w s)) (arr s)"

lemma length_cols [simp]: "length (cols s) = nat (w s)"
  by (simp add: cols_def cols_of_def)

lemma remove_at_map: "remove_at i (map f xs) = map f (remove_at i xs)"
  by (simp add: remove_at_def take_map drop_map)

lemma move_line_map: "i < length xs \<Longrightarrow> move_line i b (map f xs) = map f (move_line i b xs)"
  by (simp add: move_line_def remove_at_map insert_at_def take_map drop_map)

text \<open>A rearrangement of each row that only looks at positions rearranges the columns.\<close>

lemma cols_of_natural:
  assumes nat: "\<And>f :: nat \<Rightarrow> 'a. T (map f [0..<n]) = map f (T' [0..<n])"
    and nat': "\<And>f :: nat \<Rightarrow> 'a list. T'' (map f [0..<n]) = map f (T' [0..<n])"
    and rows: "\<And>r. r \<in> set rows \<Longrightarrow> length r = n" and m: "length (T' [0..<n]) = m"
  shows "cols_of m (map T rows) = T'' (cols_of n rows)"
proof -
  have "T r ! c = r ! (T' [0..<n] ! c)" if "r \<in> set rows" "c < m" for r c
    using nat [of "nth r"] rows [OF that(1)] that(2) m by (metis map_nth nth_map)
  then have "cols_of m (map T rows) = map (\<lambda>c. map (\<lambda>r. r ! (T' [0..<n] ! c)) rows) [0..<m]"
    unfolding cols_of_def by simp
  also have "\<dots> = map (\<lambda>k. map (\<lambda>r. r ! k) rows) (T' [0..<n])"
    using m by (intro nth_equalityI) simp_all
  also have "\<dots> = T'' (cols_of n rows)" by (simp add: nat' cols_of_def)
  finally show ?thesis .
qed

lemma nth_insert_at_cases:
  "i \<le> length xs \<Longrightarrow> c \<le> length xs \<Longrightarrow> insert_at i v xs ! c = (if c < i then xs ! c else if c = i then v else xs ! (c - 1))"
  by (auto simp: insert_at_def nth_append nth_Cons')

lemma cols_of_insert:
  assumes "\<And>r. r \<in> set rows \<Longrightarrow> length r = n" "i \<le> n"
  shows "cols_of (Suc n) (map (insert_at i z) rows) = insert_at i (replicate (length rows) z) (cols_of n rows)"
proof (rule nth_equalityI)
  fix c assume "c < length (cols_of (Suc n) (map (insert_at i z) rows))"
  then have c: "c \<le> n" by (simp add: cols_of_def)
  have "map (\<lambda>r. insert_at i z r ! c) rows
      = map (\<lambda>r. if c < i then r ! c else if c = i then z else r ! (c - 1)) rows"
    using assms c by (intro map_cong) (auto simp: nth_insert_at_cases)
  also have "\<dots> = insert_at i (replicate (length rows) z) (cols_of n rows) ! c"
    using assms(2) c by (simp add: nth_insert_at_cases cols_of_def map_replicate_const)
  finally show "cols_of (Suc n) (map (insert_at i z) rows) ! c = insert_at i (replicate (length rows) z) (cols_of n rows) ! c"
    using c by (simp add: cols_of_def comp_def del: upt_Suc)
qed (simp add: cols_of_def)

interpretation columns: line_editor sheet_ok cols "\<lambda>s. replicate (length (arr s)) (zero s)" deleteColumn insertColumn moveColumn
proof unfold_locales
  fix s :: "'a typed_sheet" and i
  assume a: "sheet_ok s" "0 \<le> i" "i < int (length (cols s))"
  let ?s = "s\<lparr>arr := map (remove_at (nat i)) (arr s), w := w s - 1\<rparr>"
  have rows: "\<And>r. r \<in> set (arr s) \<Longrightarrow> length r = nat (w s)"
    using sheet_ok_rows [OF a(1)] by force
  have i: "nat i < nat (w s)" using a(2,3) by (simp add: nat_less_iff split: if_splits)
  have "sheet_ok ?s"
    using a i rows by (auto simp: sheet_ok_def)
  moreover have "cols_of (nat (w s) - 1) (map (remove_at (nat i)) (arr s)) = remove_at (nat i) (cols_of (nat (w s)) (arr s))"
    using i by (intro cols_of_natural [where T' = "remove_at (nat i)"]) (simp_all add: remove_at_map rows)
  moreover have "nat (w s - 1) = nat (w s) - 1" using i by simp
  ultimately show "\<exists>s'. deleteColumn i s = Some (True, s') \<and> sheet_ok s' \<and> cols s' = remove_at (nat i) (cols s)"
    using deleteColumn_eq [OF a(1,2)] i a(2) by (simp add: cols_def)
next
  fix s :: "'a typed_sheet" and b
  assume a: "sheet_ok s" "b < int (length (cols s))"
  have rows: "\<And>r. r \<in> set (arr s) \<Longrightarrow> length r = nat (w s)" and w: "0 \<le> w s"
    using a sheet_ok_rows sheet_okD by fastforce+
  let ?i = "if b < 0 then nat (w s) else nat b"
  let ?s = "s\<lparr>arr := map (insert_at ?i (zero s)) (arr s), w := w s + 1\<rparr>"
  have ok: "sheet_ok ?s" using a(1) by (auto simp: sheet_ok_def)
  have maps: "map (\<lambda>r. insert_at (if b \<ge> 0 then nat b else length r) (zero s) r) (arr s) = map (insert_at ?i (zero s)) (arr s)"
    using rows by (intro map_cong) auto
  have bw: "nat (w s + 1) = Suc (nat (w s))" "b < w s" using w a(2) by simp_all
  have "cols ?s = cols_of (Suc (nat (w s))) (map (insert_at ?i (zero s)) (arr s))"
    using bw(1) by (simp add: cols_def)
  also have "\<dots> = insert_at ?i (replicate (length (arr s)) (zero s)) (cols s)"
    unfolding cols_def using a(2) w by (intro cols_of_insert rows) auto
  finally have lines: "cols ?s = insert_at (if b < 0 then length (cols s) else nat b) (replicate (length (arr s)) (zero s)) (cols s)"
    by (simp only: length_cols)
  have "insertColumn b s = Some (if b < 0 then int (length (cols s)) else b, ?s)"
    unfolding insertColumn_eq [OF a(1) bw(2)] maps using w by auto
  then show "\<exists>s'. insertColumn b s = Some (if b < 0 then int (length (cols s)) else b, s') \<and> sheet_ok s' \<and>
      cols s' = insert_at (if b < 0 then length (cols s) else nat b) (replicate (length (arr s)) (zero s)) (cols s)"
    using ok lines by blast
next
  fix s :: "'a typed_sheet" and i b
  assume a: "sheet_ok s" "0 \<le> i" "i < int (length (cols s))" "-1 \<le> b" "b < int (length (cols s))"
  have rows: "\<And>r. r \<in> set (arr s) \<Longrightarrow> length r = nat (w s)"
    using sheet_ok_rows [OF a(1)] by force
  have i: "nat i < nat (w s)" using a(2,3) by (simp add: nat_less_iff split: if_splits)
  let ?s = "s\<lparr>arr := map (move_line (nat i) b) (arr s)\<rparr>"
  have "sheet_ok ?s" using a(1) i rows by (auto simp: sheet_ok_def)
  moreover have "cols_of (nat (w s)) (map (move_line (nat i) b) (arr s)) = move_line (nat i) b (cols_of (nat (w s)) (arr s))"
    using i by (intro cols_of_natural [where T' = "move_line (nat i) b"]) (simp_all add: move_line_map rows)
  then have "cols ?s = move_line (nat i) b (cols s)" by (simp add: cols_def)
  moreover have "i < w s" "b < w s" using a(3,5) sheet_okD(2) [OF a(1)] by simp_all
  ultimately show "\<exists>s'. moveColumn i b s = Some (int (move_pos (length (cols s)) (nat i) b), s') \<and> sheet_ok s' \<and>
      cols s' = move_line (nat i) b (cols s)"
    using moveColumn_eq [OF a(1,2) _ a(4)] by simp
qed

section \<open>Properties\<close>

text \<open>C24: \<open>moveRow\<close> with a valid source and a valid or invalid (-1) base moves the row right before the
  base, or behind all rows: the returned reference points at it, the other rows keep their
  order, and the sheet stays rectangular.\<close>

theorem moveRow_correct:
  assumes "sheet_ok s" "0 \<le> src" "src < h s" "-1 \<le> base" "base < h s"
  shows "\<exists>p s'. moveRow src base s = Some (int p, s') \<and> sheet_ok s' \<and> length (arr s') = length (arr s) \<and>
    p < length (arr s) \<and> arr s' ! p = arr s ! nat src \<and> remove_at p (arr s') = remove_at (nat src) (arr s) \<and>
    (if base = -1 then Suc p = length (arr s)
     else if base = src then arr s' = arr s else arr s' ! Suc p = arr s ! nat base)"
  using rows.mov_target [OF assms(1,2)] assms(3-5) sheet_okD(1) [OF assms(1)] by simp

definition demo_sheet :: "int typed_sheet" where
  "demo_sheet = \<lparr>arr = [[1, 2, 3], [4, 5, 6], [7, 8, 9]], h = 3, w = 3, zero = 0\<rparr>"

lemma moveRow_correct_witness:
  "\<exists>p s'. moveRow 0 2 demo_sheet = Some (int p, s') \<and> arr s' ! p = [1, 2, 3] \<and> arr s' ! Suc p = [7, 8, 9]"
  using moveRow_correct [of demo_sheet 0 2] by (auto simp: demo_sheet_def sheet_ok_def)

text \<open>C25: \<open>moveColumn\<close> with a valid source and a valid or invalid (-1) base moves the column right before the
  base, or behind all columns, in every row alike: the returned reference points at it, the other
  columns keep their order, and the sheet stays rectangular.\<close>

theorem moveColumn_correct:
  assumes "sheet_ok s" "0 \<le> src" "src < w s" "-1 \<le> base" "base < w s"
  shows "\<exists>p s'. moveColumn src base s = Some (int p, s') \<and> sheet_ok s' \<and> length (cols s') = length (cols s) \<and>
    p < length (cols s) \<and> cols s' ! p = cols s ! nat src \<and> remove_at p (cols s') = remove_at (nat src) (cols s) \<and>
    (if base = -1 then Suc p = length (cols s)
     else if base = src then cols s' = cols s else cols s' ! Suc p = cols s ! nat base)"
  using columns.mov_target [OF assms(1,2)] assms(3-5) sheet_okD(2) [OF assms(1)] by simp

lemma moveColumn_correct_witness:
  "\<exists>p s'. moveColumn 2 0 demo_sheet = Some (int p, s') \<and> cols s' ! p = [3, 6, 9] \<and> cols s' ! Suc p = [1, 4, 7]"
proof -
  have "cols demo_sheet = [[1, 4, 7], [2, 5, 8], [3, 6, 9]]"
    by (simp add: cols_def cols_of_def demo_sheet_def upt_rec)
  then show ?thesis
    using moveColumn_correct [of demo_sheet 2 0] by (auto simp: demo_sheet_def sheet_ok_def)
qed

text \<open>C26: deleting the row or column an insertion has just returned restores the lines of the sheet,
  wherever it was inserted.\<close>

theorem delete_undoes_insert:
  assumes "sheet_ok s" "r < h s" "c < w s"
  shows "(\<exists>p s1 s2. insertRow r s = Some (p, s1) \<and> deleteRow p s1 = Some (True, s2) \<and> sheet_ok s2 \<and> arr s2 = arr s) \<and>
    (\<exists>p s1 s2. insertColumn c s = Some (p, s1) \<and> deleteColumn p s1 = Some (True, s2) \<and> sheet_ok s2 \<and> cols s2 = cols s)"
  using rows.del_ins [OF assms(1), of r] columns.del_ins [OF assms(1), of c] assms(2,3) sheet_okD [OF assms(1)] by simp

lemma delete_undoes_insert_witness:
  "\<exists>p s1 s2. insertRow 1 demo_sheet = Some (p, s1) \<and> deleteRow p s1 = Some (True, s2) \<and> arr s2 = arr demo_sheet"
  using delete_undoes_insert [of demo_sheet 1 "-1"] by (auto simp: demo_sheet_def sheet_ok_def)



subsection \<open>Three defects\<close>

text \<open>An invalid source row is not rejected: \<open>moveRow\<close> reads row -1.\<close>

lemma moveRow_invalid_source: "moveRow (-1) 0 demo_sheet = None"
  by (simp add: moveRow_def vec_at_def demo_sheet_def)

text \<open>A base below -1 is invalid but not -1; then \<open>moveColumn\<close> erases the column behind its source.\<close>

lemma moveColumn_wrong_column:
  "map_option (\<lambda>(_, s). arr s) (moveColumn 0 (-2) demo_sheet) = Some [[1, 3, 1], [4, 6, 4], [7, 9, 7]]"
  by (simp add: moveColumn_def vec_at_def vec_erase_def demo_sheet_def)

text \<open>\<open>nonDestructiveResize\<close> to a smaller size keeps the cells beyond it, and the sheet is no longer
  rectangular: a following column insertion at the end lands behind the hidden cells.\<close>

lemma shrink_not_rectangular: "\<not> sheet_ok (nonDestructiveResize 2 3 0 demo_sheet)"
  by (simp add: nonDestructiveResize_def demo_sheet_def sheet_ok_def)

end
