(* ===== verification/Csv_Sheet_Correct.thy ===== *)
theory Csv_Sheet_Correct
  imports Csv_Sheet Csv_Replay Typed_Sheet_Correct
begin

text \<open>
  Writing a table as CSV and reading it restored: the text of a cell is a field the parser reports as
  one event, the callbacks turn the events of a row into a row of the sheet, and the whole file
  gives the table again.
\<close>

section \<open>The text of a cell\<close>

abbreviation st0 :: sheet_style where
  "st0 \<equiv> default_style"

lemma default_style_fields [simp]:
  "delim st0 = [0x2c]" "eol st0 = [0x0d, 0x0a]" "nullToken st0 = chars_of ''NULL''" "haveNull st0"
  "quoteCollision st0" "trimEnd st0" "\<not> markHeader st0" "eolAtEof st0"
  by (simp_all add: default_style_def)

abbreviation nl :: "byte \<Rightarrow> bool" where
  "nl c \<equiv> c = 0x0d \<or> c = 0x0a"

text \<open>No line end at the end, and none right before a quote.\<close>

fun nl_ok :: "byte list \<Rightarrow> bool" where
  "nl_ok [] = True"
| "nl_ok [c] = (\<not> nl c)"
| "nl_ok (c # d # s) = (\<not> (nl c \<and> d = 0x22) \<and> nl_ok (d # s))"

lemma encode_loop_escape:
  "nl_ok s \<Longrightarrow> lb = [] \<or> s \<noteq> [] \<and> hd s \<noteq> 0x22 \<Longrightarrow> encode_loop True s lb res = res @ lb @ csv_escape 0x22 s"
proof (induction s arbitrary: lb res)
  case (Cons c s)
  show ?case
  proof (cases "nl c")
    case True
    then obtain d t where s: "s = d # t" using Cons.prems(1) by (cases s) auto
    have c: "c \<noteq> 0x22" using True by auto
    have "nl_ok s" "d \<noteq> 0x22" using Cons.prems(1) True s by auto
    then have "encode_loop True s (lb @ [c]) res = res @ (lb @ [c]) @ csv_escape 0x22 s"
      using s by (intro Cons.IH) auto
    then show ?thesis using True c by auto
  next
    case False
    have "nl_ok s" using Cons.prems(1) by (cases s) auto
    then have "encode_loop True s [] r = r @ csv_escape 0x22 s" for r using Cons.IH [of "[]" r] by simp
    then show ?thesis using False Cons.prems(2) by auto
  qed
qed simp

lemma csv_escape_plain: "0x22 \<notin> set s \<Longrightarrow> csv_escape 0x22 s = s"
  by (induction s) auto

text \<open>The text of a cell before quoting, as the parser will report it.\<close>

definition cell_field :: "byte list \<times> bool \<Rightarrow> byte list" where
  "cell_field x = (case x of (t, e) \<Rightarrow>
     if t = [] \<and> e then chars_of ''NULL''
     else if \<not> e \<and> drop (score t) t = chars_of ''NULL'' then 0x5f # t else t)"

definition needs_quote :: "byte list \<times> bool \<Rightarrow> bool" where
  "needs_quote x \<longleftrightarrow> list_ex (quote_needed st0) (fst x)"

definition cell_rec :: "byte list \<times> bool \<Rightarrow> sheet_cell" where
  "cell_rec x = \<lparr>ctext = fst x, escaped = snd x\<rparr>"

lemma quote_needed_underscore [simp]: "\<not> quote_needed st0 0x5f"
  by (simp add: quote_needed_def byte_at_def)

lemma nl_ok_underscore: "nl_ok t \<Longrightarrow> nl_ok (0x5f # t)"
  by (cases t) auto

lemma nl_ok_plain: "\<not> list_ex (quote_needed st0) t \<Longrightarrow> nl_ok t"
  by (induction t rule: nl_ok.induct) (auto simp: quote_needed_def)

lemma NULL_chars: "chars_of ''NULL'' = [0x4e, 0x55, 0x4c, 0x4c]"
  by (simp add: chars_of_def)

lemma encodeCell_field:
  assumes "nl_ok (fst x)"
  shows "encodeCell (cell_rec x) st0 =
    (if needs_quote x then csv_quoted 0x22 (cell_field x) else cell_field x)"
proof -
  obtain t e where x: "x = (t, e)" by fastforce
  show ?thesis
  proof (cases "t = [] \<and> e")
    case True
    then show ?thesis
      by (simp add: encodeCell_def cell_rec_def x cell_field_def needs_quote_def)
  next
    case False
    have nf: "nl_ok (cell_field x)"
      using assms False by (auto simp: cell_field_def x nl_ok_underscore)
    have plain: "0x22 \<notin> set (cell_field x)" if "\<not> needs_quote x"
      using that False by (auto simp: cell_field_def needs_quote_def x list_ex_iff quote_needed_def)
    have "encodeCell (cell_rec x) st0 = (if needs_quote x then encode_loop True (cell_field x) [] [0x22] @ [0x22]
        else encode_loop True (cell_field x) [] [])"
      using False by (auto simp: encodeCell_def cell_rec_def x cell_field_def needs_quote_def Let_def)
    then show ?thesis
      using encode_loop_escape [OF nf] plain by (simp add: csv_quoted_def csv_escape_plain)
  qed
qed

section \<open>The parser on a line\<close>

text \<open>The dialect \<open>CsvFile::read\<close> uses with the default style.\<close>

definition D0 :: dialect where
  "D0 = \<lparr>d_quote = 0x22, d_delim = 0x2c, d_space = (\<lambda>c. c = 0x20 \<or> c = 0x09), d_term = nl, d_strict = False, d_repall = False\<rparr>"

lemma D0_fields [simp]:
  "d_quote D0 = 0x22" "d_delim D0 = 0x2c" "d_space D0 c = (c = 0x20 \<or> c = 0x09)" "d_term D0 c = nl c"
  "\<not> d_strict D0" "\<not> d_repall D0"
  by (simp_all add: D0_def)

lemma clean_D0: "clean_dialect D0 0x0d"
  by (simp add: clean_dialect_def)

text \<open>A state in which the field \<open>F\<close> is complete.\<close>

definition pending :: "astate \<Rightarrow> byte list \<Rightarrow> bool \<Rightarrow> bool" where
  "pending a F q \<longleftrightarrow> (q \<and> a = (FIELD_MIGHT_HAVE_ENDED, True, 0, F @ [0x22])) \<or>
     (\<not> q \<and> F \<noteq> [] \<and> a = (FIELD_BEGUN, False, 0, F)) \<or> (\<not> q \<and> F = [] \<and> a = fresh FIELD_NOT_BEGUN)"

lemma pending_delim: "pending a F q \<Longrightarrow> spec_step D0 a 0x2c = Some (fresh FIELD_NOT_BEGUN, [Field F q])"
  by (auto simp: pending_def fresh_def emit_def)

lemma pending_eol: "pending a F q \<Longrightarrow> spec_step D0 a 0x0d = Some (fresh ROW_NOT_BEGUN, [Field F q, Row 13])"
  by (auto simp: pending_def fresh_def emit_def)

lemma empty_row_delim: "spec_step D0 (fresh ROW_NOT_BEGUN) 0x2c = Some (fresh FIELD_NOT_BEGUN, [Field [] False])"
  by (auto simp: fresh_def emit_def)

lemma spec_plain_tail:
  "\<not> list_ex (quote_needed st0) s \<Longrightarrow> spec_run D0 s (FIELD_BEGUN, False, 0, acc) ev = Some ((FIELD_BEGUN, False, 0, acc @ s), ev)"
  by (induction s arbitrary: acc) (auto simp: quote_needed_def byte_at_def)

lemma spec_plain:
  assumes "\<not> list_ex (quote_needed st0) s" "s \<noteq> []" "st = ROW_NOT_BEGUN \<or> st = FIELD_NOT_BEGUN"
  shows "spec_run D0 s (fresh st) ev = Some ((FIELD_BEGUN, False, 0, s), ev)"
proof -
  obtain c t where s: "s = c # t" using assms(2) by (cases s) auto
  have "spec_step D0 (fresh st) c = Some ((FIELD_BEGUN, False, 0, [c]), [])"
    using assms(1,3) by (auto simp: s fresh_def quote_needed_def byte_at_def)
  then show ?thesis
    using spec_plain_tail [of t "[c]" ev] assms(1) by (simp add: s)
qed

lemma cell_field_unquoted: "\<not> needs_quote x \<Longrightarrow> \<not> list_ex (quote_needed st0) (cell_field x)"
  by (cases x) (auto simp: needs_quote_def cell_field_def NULL_chars quote_needed_def byte_at_def)

lemma spec_cell:
  assumes "nl_ok (fst x)" "st = FIELD_NOT_BEGUN \<or> st = ROW_NOT_BEGUN \<and> (needs_quote x \<or> cell_field x \<noteq> [])"
  shows "\<exists>a. spec_run D0 (encodeCell (cell_rec x) st0) (fresh st) ev = Some (a, ev) \<and>
    pending a (cell_field x) (needs_quote x)"
proof (cases "needs_quote x")
  case True
  then have "spec_run D0 (encodeCell (cell_rec x) st0) (fresh st) ev =
      Some ((FIELD_MIGHT_HAVE_ENDED, True, 0, cell_field x @ [0x22]), ev)"
    using spec_quoted [OF clean_D0, of st "cell_field x" ev] assms(2) by (auto simp: encodeCell_field [OF assms(1)])
  then show ?thesis using True by (simp add: pending_def)
next
  case False
  show ?thesis
  proof (cases "cell_field x = []")
    case True
    then show ?thesis using False assms by (auto simp: pending_def encodeCell_field)
  next
    case ne: False
    then have "spec_run D0 (cell_field x) (fresh st) ev = Some ((FIELD_BEGUN, False, 0, cell_field x), ev)"
      using assms(2) by (intro spec_plain cell_field_unquoted False) auto
    then show ?thesis using False ne assms(1) by (simp add: pending_def encodeCell_field)
  qed
qed

definition cell_event :: "byte list \<times> bool \<Rightarrow> csv_event" where
  "cell_event x = Field (cell_field x) (needs_quote x)"

fun line_text :: "(byte list \<times> bool) list \<Rightarrow> byte list" where
  "line_text [] = []"
| "line_text [x] = encodeCell (cell_rec x) st0"
| "line_text (x # y # xs) = encodeCell (cell_rec x) st0 @ [0x2c] @ line_text (y # xs)"

lemma spec_line:
  assumes "xs \<noteq> []" "\<forall>x \<in> set xs. nl_ok (fst x)" "st = FIELD_NOT_BEGUN \<or> st = ROW_NOT_BEGUN \<and> xs \<noteq> [([], False)]"
  shows "spec_run D0 (line_text xs @ [0x0d]) (fresh st) ev = Some (fresh ROW_NOT_BEGUN, ev @ map cell_event xs @ [Row 13])"
  using assms
proof (induction xs arbitrary: st ev rule: line_text.induct)
  case (2 x)
  have "needs_quote x \<or> cell_field x \<noteq> []" if "st = ROW_NOT_BEGUN"
    using "2.prems"(3) that by (cases x) (auto simp: cell_field_def NULL_chars)
  then obtain a where "spec_run D0 (encodeCell (cell_rec x) st0) (fresh st) ev = Some (a, ev)"
    "pending a (cell_field x) (needs_quote x)"
    using spec_cell [of x st ev] "2.prems"(2,3) by (metis list.set_intros(1))
  then show ?case by (simp add: spec_run_append pending_eol cell_event_def)
next
  case (3 x y xs)
  have IH: "spec_run D0 (line_text (y # xs) @ [0x0d]) (fresh FIELD_NOT_BEGUN) ev' =
      Some (fresh ROW_NOT_BEGUN, ev' @ map cell_event (y # xs) @ [Row 13])" for ev'
    using "3.prems"(2) by (intro "3.IH") auto
  have "\<exists>a. spec_run D0 (encodeCell (cell_rec x) st0) (fresh st) ev = Some (a, ev) \<and>
      spec_step D0 a 0x2c = Some (fresh FIELD_NOT_BEGUN, [cell_event x])"
  proof (cases "st = ROW_NOT_BEGUN \<and> \<not> needs_quote x \<and> cell_field x = []")
    case True
    then show ?thesis
      using "3.prems"(2) empty_row_delim by (simp add: encodeCell_field cell_event_def)
  next
    case False
    then obtain a where "spec_run D0 (encodeCell (cell_rec x) st0) (fresh st) ev = Some (a, ev)"
      "pending a (cell_field x) (needs_quote x)"
      using spec_cell [of x st ev] "3.prems"(2,3) by (metis list.set_intros(1))
    then show ?thesis using pending_delim by (auto simp: cell_event_def)
  qed
  then obtain a where "spec_run D0 (encodeCell (cell_rec x) st0) (fresh st) ev = Some (a, ev)"
      "spec_step D0 a 0x2c = Some (fresh FIELD_NOT_BEGUN, [cell_event x])" by blast
  then show ?case
    using IH [of "ev @ [cell_event x]"] by (simp add: spec_run_append)
qed simp

section \<open>The text of a sheet\<close>

lemma encode_line_later:
  "0 < k \<Longrightarrow> concat (map (\<lambda>(x, c). (if x > 0 then delim st else []) @ encodeCell c st) (enumerate k cells))
     = concat (map (\<lambda>c. delim st @ encodeCell c st) cells)"
  by (induction cells arbitrary: k) simp_all

lemma line_text_concat:
  "line_text (x # xs) = encodeCell (cell_rec x) st0 @ concat (map (\<lambda>c. 0x2c # encodeCell c st0) (map cell_rec xs))"
  by (induction xs arbitrary: x) simp_all

lemma encode_line_text: "encode_line st0 (map cell_rec xs) = line_text xs"
proof (cases xs)
  case (Cons x ys)
  then show ?thesis
    using encode_line_later [of 1 st0 "map cell_rec ys"] by (simp add: encode_line_def line_text_concat)
qed (simp add: encode_line_def)

lemma cells_of_row_eq:
  assumes "valid c" "vec_at (arr (ts c)) y = Some r" "i + n \<le> length r"
  shows "cells_of_row n (int i) y c = Some (map cell_rec (take n (drop i r)))"
  using assms(3)
proof (induction n arbitrary: i)
  case (Suc n)
  have "vec_at r (int i) = Some (r ! i)" using Suc.prems by simp
  then have "cellSummary (int i) y c = Some (cell_rec (r ! i))"
    using assms(1,2) by (cases "r ! i") (simp add: cellSummary_def cellString_def esc_pcell_def cell_def cell_rec_def)
  moreover have "cells_of_row n (int i + 1) y c = Some (map cell_rec (take n (drop (Suc i) r)))"
    using Suc.IH [of "Suc i"] Suc.prems by (simp add: add.commute)
  moreover have "take (Suc n) (drop i r) = r ! i # take n (drop (Suc i) r)"
    using Suc.prems by (subst Cons_nth_drop_Suc [symmetric]) simp_all
  ultimately show ?case by simp
qed simp

definition sheet_text :: "(byte list \<times> bool) list list \<Rightarrow> byte list" where
  "sheet_text rows = concat (map (\<lambda>r. line_text r @ [0x0d, 0x0a]) rows)"

lemma encode_rows_eq:
  assumes "valid c" "sheet_ok (ts c)" "i + n \<le> length (arr (ts c))"
  shows "encode_rows n (int i) st0 None c = Some (sheet_text (take n (drop i (arr (ts c)))))"
  using assms(3)
proof (induction n arbitrary: i)
  case (Suc n)
  let ?r = "arr (ts c) ! i"
  have r: "vec_at (arr (ts c)) (int i) = Some ?r" using Suc.prems by simp
  have len: "nat (width (ts c)) = length ?r"
    using sheet_ok_rows [OF assms(2), of ?r] Suc.prems by (simp add: width_def flip: nat_int_comparison)
  have row: "cells_of_row (nat (width (ts c))) 0 (int i) c = Some (map cell_rec ?r)"
    using cells_of_row_eq [OF assms(1) r, of 0 "length ?r"] len by simp
  have "encode_rows n (int i + 1) st0 None c = Some (sheet_text (take n (drop (Suc i) (arr (ts c)))))"
    using Suc.IH [of "Suc i"] Suc.prems by (simp add: add.commute)
  moreover have "encode_row st0 None z y (map cell_rec ?r) = line_text ?r @ [0x0d, 0x0a]" for z y
    by (simp add: encode_row_def Let_def encode_line_text)
  moreover have "take (Suc n) (drop i (arr (ts c))) = ?r # take n (drop (Suc i) (arr (ts c)))"
    using Suc.prems by (subst Cons_nth_drop_Suc [symmetric]) simp_all
  ultimately show ?case using row by (simp add: sheet_text_def)
qed (simp add: sheet_text_def)

lemma encode_eq:
  assumes "valid c" "sheet_ok (ts c)"
  shows "encode st0 None c = Some (sheet_text (arr (ts c)))"
  using encode_rows_eq [OF assms, of 0 "length (arr (ts c))"] sheet_okD(1) [OF assms(2)]
  by (simp add: encode_def height_def)

definition row_events :: "(byte list \<times> bool) list \<Rightarrow> csv_event list" where
  "row_events r = map cell_event r @ [Row 13]"

lemma spec_sheet_text:
  assumes "\<forall>r \<in> set rows. r \<noteq> [] \<and> r \<noteq> [([], False)] \<and> (\<forall>x \<in> set r. nl_ok (fst x))"
  shows "spec_run D0 (sheet_text rows) (fresh ROW_NOT_BEGUN) ev
    = Some (fresh ROW_NOT_BEGUN, ev @ concat (map row_events rows))"
  using assms
proof (induction rows arbitrary: ev)
  case (Cons r rows)
  have lf: "spec_step D0 (fresh ROW_NOT_BEGUN) 0x0a = Some (fresh ROW_NOT_BEGUN, [])"
    by (simp add: fresh_def)
  have "spec_run D0 (line_text r @ [0x0d]) (fresh ROW_NOT_BEGUN) ev = Some (fresh ROW_NOT_BEGUN, ev @ row_events r)"
    using spec_line [of r ROW_NOT_BEGUN ev] Cons.prems by (simp add: row_events_def)
  then have "spec_run D0 ((line_text r @ [0x0d]) @ 0x0a # sheet_text rows) (fresh ROW_NOT_BEGUN) ev
      = spec_run D0 (sheet_text rows) (fresh ROW_NOT_BEGUN) (ev @ row_events r)"
    by (simp add: spec_run_append lf del: append_assoc)
  then show ?case
    using Cons.IH [of "ev @ row_events r"] Cons.prems by (simp add: sheet_text_def)
qed (simp add: sheet_text_def)

section \<open>The callbacks\<close>

text \<open>
  The cells that survive: a NULL cell has an empty text (or the null token), other texts have no
  NUL, no line end that the writer moves or drops, and are not a run of underscores followed by
  a proper prefix of the null token.
\<close>

definition cell_ok :: "byte list \<times> bool \<Rightarrow> bool" where
  "cell_ok x \<longleftrightarrow> nl_ok (fst x) \<and>
     (if snd x then fst x = [] \<or> fst x = chars_of ''NULL''
      else 0 \<notin> set (fst x) \<and>
        \<not> (0 < score (fst x) \<and> length (drop (score (fst x)) (fst x)) < 4 \<and>
           drop (score (fst x)) (fst x) = take (length (drop (score (fst x)) (fst x))) (chars_of ''NULL'')))"

text \<open>What is read for a cell: a NULL cell comes back with the null token as its text.\<close>

definition read_back :: "byte list \<times> bool \<Rightarrow> byte list \<times> bool" where
  "read_back x = (if x = ([], True) then (chars_of ''NULL'', True) else x)"

lemma score_underscore: "score (0x5f # t) = Suc (score t)"
  by (simp add: score_def)

lemma no_nul_takeWhile: "0 \<notin> set t \<Longrightarrow> takeWhile (\<lambda>b. b \<noteq> 0) t = t"
  by (induction t) auto

lemma memcmp_eq_NULL:
  assumes "memcmp_eq r (chars_of ''NULL'')" "0 \<notin> set r"
  shows "r = chars_of ''NULL'' \<or> length r < 4 \<and> r = take (length r) (chars_of ''NULL'')"
proof -
  have l: "length r \<le> 5" "r = take (length r) (chars_of ''NULL'' @ [0])"
    using assms(1) by (simp_all add: memcmp_eq_def NULL_chars)
  show ?thesis
  proof (cases "length r = 5")
    case True
    then have "r = chars_of ''NULL'' @ [0]" using l(2) by (simp add: NULL_chars)
    then show ?thesis using assms(2) by (metis in_set_conv_decomp)
  next
    case False
    then have "length r \<le> 4" using l(1) by simp
    moreover have "length (chars_of ''NULL'') = 4" by (simp add: NULL_chars)
    ultimately have "r = take (length r) (chars_of ''NULL'')" using l(2) by simp
    then show ?thesis
      using \<open>length r \<le> 4\<close> \<open>length (chars_of ''NULL'') = 4\<close> by (cases "length r = 4") auto
  qed
qed

lemma cb1_cell:
  assumes "cell_ok x" "style (sheet d) = st0"
  shows "csvfile_merge_cb1 (cell_field x) (length (cell_field x)) q d =
    d\<lparr>expecting := False, sheet := addField (fst (read_back x)) (snd (read_back x)) (sheet d)\<rparr>"
proof -
  obtain t e where x: "x = (t, e)" by fastforce
  consider (null) "e" "t = [] \<or> t = chars_of ''NULL''" | (coll) "\<not> e" "drop (score t) t = chars_of ''NULL''"
    | (plain) "\<not> e" "drop (score t) t \<noteq> chars_of ''NULL''"
    using assms(1) unfolding cell_ok_def x fst_conv snd_conv by meson
  then show ?thesis
  proof cases
    case null
    then have "cell_field x = chars_of ''NULL''" "read_back x = (chars_of ''NULL'', True)"
      by (auto simp: cell_field_def read_back_def x)
    then show ?thesis
      using assms(2) by (simp add: csvfile_merge_cb1_def Let_def addField_n_def memcmp_eq_def NULL_chars)
  next
    case coll
    then have f: "cell_field x = 0x5f # t" "read_back x = (t, False)" and z: "0 \<notin> set t"
      using assms(1) by (auto simp: cell_field_def read_back_def x cell_ok_def)
    have "4 \<le> length t" using arg_cong [OF coll(2), of length] by (simp add: NULL_chars)
    then show ?thesis
      using assms(2) coll(2) f z
      by (simp add: csvfile_merge_cb1_def Let_def addField_n_def score_underscore no_nul_takeWhile memcmp_eq_def NULL_chars)
  next
    case plain
    then have f: "cell_field x = t" "read_back x = (t, False)" and z: "0 \<notin> set t"
      using assms(1) by (auto simp: cell_field_def read_back_def x cell_ok_def)
    have 1: "\<not> (length (chars_of ''NULL'') = length t \<and> memcmp_eq t (chars_of ''NULL''))"
    proof
      assume "length (chars_of ''NULL'') = length t \<and> memcmp_eq t (chars_of ''NULL'')"
      then have "t = chars_of ''NULL''" by (auto simp: memcmp_eq_def)
      then show False using plain(2) by (simp add: score_def NULL_chars)
    qed
    have "0 \<notin> set (drop (score t) t)" using z by (meson in_set_dropD)
    then have 2: "\<not> (0 < score t \<and> memcmp_eq (drop (score t) t) (chars_of ''NULL''))"
      using memcmp_eq_NULL [of "drop (score t) t"] plain assms(1) by (auto simp: cell_ok_def x)
    show ?thesis
      using assms(2) 1 2 f z by (auto simp: csvfile_merge_cb1_def Let_def addField_n_def no_nul_takeWhile)
  qed
qed

text \<open>The sheet while it is being filled.\<close>

definition building :: "csv_sheet \<Rightarrow> nat \<Rightarrow> (byte list \<times> bool) list list \<Rightarrow> bool" where
  "building c n rows \<longleftrightarrow> rec c = [] \<and> tw c = 0 \<and> valid c \<and> style c = st0 \<and> th c = int (length rows) \<and>
     arr (ts c) = rows \<and> h (ts c) = int (length rows) \<and> w (ts c) = (if rows = [] then 0 else int n)"

lemma fields_replay:
  assumes "\<forall>x \<in> set r. cell_ok x" "style (sheet d) = st0" "r \<noteq> []"
  shows "replay csvfile_merge_cb1 csvfile_merge_cb2 (map cell_event r) d =
    d\<lparr>expecting := False, sheet := (sheet d)\<lparr>rec := rec (sheet d) @ map read_back r, tw := tw (sheet d) + int (length r)\<rparr>\<rparr>"
  using assms
proof (induction r arbitrary: d)
  case (Cons x r)
  let ?d = "d\<lparr>expecting := False, sheet := addField (fst (read_back x)) (snd (read_back x)) (sheet d)\<rparr>"
  have step: "csvfile_merge_cb1 (cell_field x) (length (cell_field x)) (needs_quote x) d = ?d"
    using Cons.prems by (intro cb1_cell) auto
  have st: "style (sheet ?d) = st0" using Cons.prems(2) by (simp add: addField_def)
  show ?case
  proof (cases "r = []")
    case True
    then show ?thesis by (simp add: cell_event_def step addField_def)
  next
    case False
    then show ?thesis
      using Cons.IH [OF _ st] Cons.prems(1) by (simp add: cell_event_def step) (simp add: addField_def)
  qed
qed simp

lemma row_replay:
  assumes "building (sheet d) n rows" "\<forall>x \<in> set r. cell_ok x" "length r = n" "0 < n" "\<not> ignore d"
  shows "\<exists>d'. replay csvfile_merge_cb1 csvfile_merge_cb2 (row_events r) d = d' \<and> \<not> ignore d' \<and>
    building (sheet d') n (rows @ [map read_back r])"
proof -
  have st: "style (sheet d) = st0" using assms(1) by (simp add: building_def)
  have ne: "r \<noteq> []" using assms(3,4) by auto
  show ?thesis
    unfolding row_events_def replay_simps fields_replay [OF assms(2) st ne]
    using assms by (auto simp: csvfile_merge_cb2_def building_def addRecord_def Let_def)
qed

lemma rows_replay:
  assumes "building (sheet d) n rows" "\<forall>r \<in> set rs. length r = n \<and> (\<forall>x \<in> set r. cell_ok x)" "0 < n" "\<not> ignore d"
  shows "building (sheet (replay csvfile_merge_cb1 csvfile_merge_cb2 (concat (map row_events rs)) d)) n
    (rows @ map (map read_back) rs)"
  using assms
proof (induction rs arbitrary: d rows)
  case (Cons r rs)
  obtain d' where d': "replay csvfile_merge_cb1 csvfile_merge_cb2 (row_events r) d = d'" "\<not> ignore d'"
    "building (sheet d') n (rows @ [map read_back r])"
    using row_replay [OF Cons.prems(1)] Cons.prems by auto
  show ?case using Cons.IH [OF d'(3)] Cons.prems(2,3) d'(1,2) by simp
qed simp

interpretation sheet_reader: event_client csvfile_merge_cb1 csvfile_merge_cb2
  by unfold_locales (simp add: csvfile_merge_cb1_def Let_def addField_n_def drop_take)

section \<open>The whole file\<close>

lemma read_text:
  assumes "realloc_law rea" "alloc_total rea" "length doc + 1 < SIZE_MAX" "concat chunks = doc"
    and run: "spec_run D0 doc (fresh ROW_NOT_BEGUN) [] = Some (fresh ROW_NOT_BEGUN, ev)"
  shows "csv_read rea st0 chunks c0 = Some (sheet (replay csvfile_merge_cb1 csvfile_merge_cb2 ev
    \<lparr>sheet = (csv_clear c0)\<lparr>style := st0\<rparr>, expecting = True, ignore = False\<rparr>))"
proof -
  define p where "p = (csv_init_state rea 0)\<lparr>delim_char := 0x2c\<rparr>"
  define d where "d = \<lparr>sheet = (csv_clear c0)\<lparr>style := st0\<rparr>, expecting = True, ignore = False\<rparr>"
  have inv: "csv_inv p"
    by (simp add: p_def csv_init_state_def csv_inv_def buf_inv_def state_inv_def MEM_BLK_SIZE_def SIZE_MAX_def)
  have cfg: "realloc_func p = rea" "0 < blk_size p" "status p = CSV_SUCCESS" "entry_pos p = 0"
    by (simp_all add: p_def csv_init_state_def MEM_BLK_SIZE_def)
  have dia: "dialect_of p = D0"
    by (auto simp: dialect_of_def D0_def p_def csv_init_state_def has_opt_def space_char_def term_char_def fun_eq_iff)
  have ast: "astate_of p = fresh ROW_NOT_BEGUN"
    by (simp add: astate_of_def fresh_def p_def csv_init_state_def)
  obtain p' where p': "csv_parse collect1 collect2 p doc [] = (length doc, p', ev)" "astate_of p' = fresh ROW_NOT_BEGUN"
  proof (rule csv_parse_complete [OF inv])
    show "spec_run (dialect_of p) doc (astate_of p) [] = Some (fresh ROW_NOT_BEGUN, ev)" using run by (simp add: dia ast)
  qed (use assms(1-3) in \<open>simp_all add: cfg\<close>)
  have "csv_parse (Some csvfile_merge_cb1) (Some csvfile_merge_cb2) p doc d
      = (length doc, p', replay csvfile_merge_cb1 csvfile_merge_cb2 ev d)"
    using sheet_reader.csv_parse_replay [OF inv, where s = doc and d = d and ev = "[]"] p'(1) assms(1) by (simp add: cfg)
  then have feed: "foldl (csv_feed (Some csvfile_merge_cb1) (Some csvfile_merge_cb2)) (Some (p, d)) chunks
      = Some (p', replay csvfile_merge_cb1 csvfile_merge_cb2 ev d)"
    by (simp add: csv.feed_chunks csv_feed_def assms(4))
  have "pstate p' = ROW_NOT_BEGUN" using p'(2) by (simp add: astate_of_def fresh_def)
  then have "snd (snd (csv_fini cb1 cb2 p' x)) = x" for cb1 cb2 and x :: reader_state
    by (simp add: csv_fini_def Let_def)
  then show ?thesis
    using feed by (simp add: csv_read_def Let_def byte_at_def flip: p_def d_def)
qed

section \<open>Properties\<close>


definition demo_csv :: csv_sheet where
  "demo_csv = new_csv_sheet\<lparr>ts := \<lparr>arr =
     [[(chars_of ''id'', False), (chars_of ''a, b'', False)], [([], True), (chars_of ''say \"x\"'', False)]],
     h = 2, w = 2, zero = ([], False)\<rparr>\<rparr>"


subsection \<open>Cells that do not survive\<close>

text \<open>A line end before a quote is moved behind the quote.\<close>

lemma encodeCell_moves_newline:
  "encodeCell \<lparr>ctext = [0x0a, 0x22], escaped = False\<rparr> default_style = [0x22, 0x22, 0x0a, 0x22, 0x22]"
  by (simp add: encodeCell_def Let_def quote_needed_def score_def NULL_chars)

text \<open>A line end at the end of a text is dropped.\<close>

lemma encodeCell_drops_newline: "encodeCell \<lparr>ctext = [0x61, 0x0a], escaped = False\<rparr> default_style = [0x22, 0x61, 0x22]"
  by (simp add: encodeCell_def Let_def quote_needed_def score_def NULL_chars)

text \<open>The reader takes the underscore from a text the writer did not add one to.\<close>

lemma reader_drops_underscore:
  "encodeCell \<lparr>ctext = chars_of ''_N'', escaped = False\<rparr> default_style = chars_of ''_N'' \<and>
   rec (sheet (csvfile_merge_cb1 (chars_of ''_N'') 2 False \<lparr>sheet = new_csv_sheet, expecting = True, ignore = False\<rparr>))
     = [(chars_of ''N'', False)]"
  by (simp add: encodeCell_def Let_def quote_needed_def score_def chars_of_def byte_at_def csvfile_merge_cb1_def
      new_csv_sheet_def memcmp_eq_def addField_n_def addField_def)

text \<open>\<open>addRecord\<close> counts rows on its own: after a row has been inserted through the sheet interface,
  the next record leaves the height one short.\<close>

lemma addRecord_stale_height:
  "map_option (\<lambda>(_, s). let c = addRecord (demo_csv\<lparr>th := 2, ts := s\<rparr>) in (length (arr (ts c)), h (ts c)))
     (esc_insertRow (-1) (ts demo_csv)) = Some (4, 3)"
  by (simp add: demo_csv_def esc_insertRow_def insertRow_def addRecord_def Let_def vec_at_def new_csv_sheet_def)

end
