(* ===== verification/Fossil_Delta.thy ===== *)
theory Fossil_Delta
  imports Coopy_Prelude
begin

text \<open>
  The delta encoder of the versioning engine, \<^verbatim>\<open>src/ssfossil/fossil/src/delta.c\<close>: the rolling
  hash, the base-64 integers, the checksum, \<open>delta_create\<close> and \<open>delta_apply\<close>.

  Files are lists of bytes; the byte a C program may read right behind a buffer is the NUL its
  owner keeps there.  Hashes and file offsets in a delta have the width the code gives them
  (\<open>u16\<close>, \<open>u32\<close>).  Positions inside the encoder are natural numbers: they are bounded by the
  length of a file.  A loop that does not end yields \<open>None\<close>.  \<open>delta_create\<close> writes its output
  front to back, so \<open>create_from\<close> returns what is written from a position on.
\<close>

definition NHASH :: nat where
  "NHASH = 16"

section \<open>The rolling hash\<close>

record hash =
  ha :: u16
  hb :: u16
  hi :: nat
  hz :: "byte list"

text \<open>Plain \<open>char\<close> is signed: it is sign-extended before it is added.\<close>

fun hash_init_loop :: "byte list \<Rightarrow> nat \<Rightarrow> u16 \<Rightarrow> u16 \<Rightarrow> byte list \<Rightarrow> u16 \<times> u16 \<times> byte list" where
  "hash_init_loop z 0 a b out = (a, b, out)"
| "hash_init_loop z (Suc left) a b out =
     (let c = byte_at z (NHASH - Suc left)
      in hash_init_loop z left (a + scast c) (b + of_nat (Suc left) * scast c) (out @ [c]))"

definition hash_init :: "byte list \<Rightarrow> hash" where
  "hash_init z = (case hash_init_loop z NHASH 0 0 [] of (a, b, out) \<Rightarrow>
     \<lparr>ha = a AND 0xffff, hb = b AND 0xffff, hi = 0, hz = out\<rparr>)"

definition hash_next :: "hash \<Rightarrow> byte \<Rightarrow> hash" where
  "hash_next h c =
     (let old = scast (byte_at (hz h) (hi h));
          a = ha h - old + scast c
      in \<lparr>ha = a, hb = hb h - of_nat NHASH * old + a, hi = (hi h + 1) mod NHASH, hz = (hz h)[hi h := c]\<rparr>)"

definition hash_32bit :: "hash \<Rightarrow> u32" where
  "hash_32bit h = (ucast (ha h AND 0xffff) OR push_bit 16 (ucast (hb h AND 0xffff)))"

section \<open>Base-64 integers\<close>

definition zDigits :: "byte list" where
  "zDigits = chars_of ''0123456789ABCDEFGHIJKLMNOPQRSTUVWXYZ_abcdefghijklmnopqrstuvwxyz~''"

function putInt_digits :: "u32 \<Rightarrow> byte list" where
  "putInt_digits v = (if v = 0 then [] else zDigits ! unat (v AND 0x3f) # putInt_digits (drop_bit 6 v))"
  by pat_completeness auto
termination
proof (relation "measure unat")
  fix v :: u32
  assume "v \<noteq> 0"
  then have "0 < unat v" by (simp add: unat_gt_0)
  then show "(drop_bit 6 v, v) \<in> measure unat"
    by (simp add: unat_drop_bit_eq drop_bit_eq_div unat_div_distrib)
qed simp

declare putInt_digits.simps [simp del]

definition putInt :: "u32 \<Rightarrow> byte list" where
  "putInt v = (if v = 0 then [0x30] else rev (putInt_digits v))"

definition zValue :: "int list" where
  "zValue = [
    -1, -1, -1, -1, -1, -1, -1, -1,   -1, -1, -1, -1, -1, -1, -1, -1,
    -1, -1, -1, -1, -1, -1, -1, -1,   -1, -1, -1, -1, -1, -1, -1, -1,
    -1, -1, -1, -1, -1, -1, -1, -1,   -1, -1, -1, -1, -1, -1, -1, -1,
     0,  1,  2,  3,  4,  5,  6,  7,    8,  9, -1, -1, -1, -1, -1, -1,
    -1, 10, 11, 12, 13, 14, 15, 16,   17, 18, 19, 20, 21, 22, 23, 24,
    25, 26, 27, 28, 29, 30, 31, 32,   33, 34, 35, -1, -1, -1, -1, 36,
    -1, 37, 38, 39, 40, 41, 42, 43,   44, 45, 46, 47, 48, 49, 50, 51,
    52, 53, 54, 55, 56, 57, 58, 59,   60, 61, 62, -1, -1, -1, 63, -1]"

definition digit_value :: "byte \<Rightarrow> int" where
  "digit_value c = zValue ! unat (c AND 0x7f)"

fun getInt_loop :: "u32 \<Rightarrow> byte list \<Rightarrow> u32 \<times> byte list" where
  "getInt_loop v [] = (v, [])"
| "getInt_loop v (c # cs) =
     (if digit_value c \<ge> 0 then getInt_loop (push_bit 6 v + of_int (digit_value c)) cs else (v, c # cs))"

text \<open>Returns the number and the rest of the string; the caller's length shrinks with it.\<close>

definition getInt :: "byte list \<Rightarrow> u32 \<times> byte list" where
  "getInt z = getInt_loop 0 z"

partial_function (option) digit_count_loop :: "u32 \<Rightarrow> u32 \<Rightarrow> nat \<Rightarrow> nat option" where
  "digit_count_loop v x i = (if v \<ge> x then digit_count_loop v (push_bit 6 x) (i + 1) else Some i)"

definition digit_count :: "nat \<Rightarrow> nat option" where
  "digit_count v = digit_count_loop (of_nat v) 64 1"

section \<open>The checksum\<close>

definition be_add :: "byte list \<Rightarrow> nat \<Rightarrow> u32" where
  "be_add z k = ucast (byte_at z k) + ucast (byte_at z (k + 4)) + ucast (byte_at z (k + 8)) + ucast (byte_at z (k + 12))"

function checksum16 :: "u32 \<Rightarrow> byte list \<Rightarrow> u32 \<times> byte list" where
  "checksum16 acc z =
     (if length z \<ge> 16 then
        checksum16 (acc + push_bit 24 (be_add z 0) + push_bit 16 (be_add z 1) + push_bit 8 (be_add z 2) + be_add z 3)
          (drop 16 z)
      else (acc, z))"
  by pat_completeness auto
termination by (relation "measure (length \<circ> snd)") auto

function checksum4 :: "u32 \<Rightarrow> byte list \<Rightarrow> u32 \<times> byte list" where
  "checksum4 acc z =
     (if length z \<ge> 4 then
        checksum4 (acc + (push_bit 24 (ucast (z ! 0)) OR push_bit 16 (ucast (z ! 1)) OR
                          push_bit 8 (ucast (z ! 2)) OR ucast (z ! 3))) (drop 4 z)
      else (acc, z))"
  by pat_completeness auto
termination by (relation "measure (length \<circ> snd)") auto

declare checksum16.simps [simp del] checksum4.simps [simp del]

text \<open>The final \<open>switch\<close> falls through from 3 to 2 to 1.\<close>

definition checksum_tail :: "u32 \<Rightarrow> byte list \<Rightarrow> u32" where
  "checksum_tail acc z =
     (let s3 = (if length z = 3 then acc + push_bit 8 (ucast (z ! 2)) else acc);
          s2 = (if length z = 3 \<or> length z = 2 then s3 + push_bit 16 (ucast (z ! 1)) else s3)
      in if length z = 3 \<or> length z = 2 \<or> length z = 1 then s2 + push_bit 24 (ucast (z ! 0)) else s2)"

definition checksum :: "byte list \<Rightarrow> u32" where
  "checksum z = (case checksum16 0 z of (s, r) \<Rightarrow> case checksum4 s r of (s', r') \<Rightarrow> checksum_tail s' r')"

section \<open>delta\_create\<close>

text \<open>The landmark table and its collision chains; \<open>-1\<close> is the empty entry.\<close>

function build_landmarks :: "byte list \<Rightarrow> nat \<Rightarrow> nat \<Rightarrow> int list \<Rightarrow> int list \<Rightarrow> int list \<times> int list" where
  "build_landmarks src nHash i landmark collide =
     (if i < length src - NHASH then
        (let hv = unat (hash_32bit (hash_init (drop i src))) mod nHash
         in build_landmarks src nHash (i + NHASH)
              (landmark[hv := int (i div NHASH)]) (collide[i div NHASH := landmark ! hv]))
      else (landmark, collide))"
  by pat_completeness auto
termination
  by (relation "measure (\<lambda>(src, nHash, i, landmark, collide). length src - i)") (auto simp: NHASH_def)

declare build_landmarks.simps [simp del]

text \<open>\<open>j\<close>: how many bytes match forwards from \<open>src[x]\<close>, \<open>out[y]\<close>.\<close>

function match_forward :: "byte list \<Rightarrow> byte list \<Rightarrow> nat \<Rightarrow> nat \<Rightarrow> nat \<Rightarrow> nat" where
  "match_forward src out j x y =
     (if x < length src \<and> y < length out \<and> src ! x = out ! y
      then match_forward src out (j + 1) (x + 1) (y + 1) else j)"
  by pat_completeness auto
termination by (relation "measure (\<lambda>(src, out, j, x, y). length src - x)") auto

text \<open>\<open>k\<close>: how many bytes match backwards from \<open>src[iSrc - 1]\<close>, \<open>out[oi - 1]\<close>, at most \<open>i\<close>.\<close>

function match_backward :: "byte list \<Rightarrow> byte list \<Rightarrow> nat \<Rightarrow> nat \<Rightarrow> nat \<Rightarrow> nat \<Rightarrow> nat" where
  "match_backward src out iSrc oi i k =
     (if k < iSrc \<and> k \<le> i \<and> src ! (iSrc - k) = out ! (oi - k)
      then match_backward src out iSrc oi i (k + 1) else k - 1)"
  by pat_completeness auto
termination by (relation "measure (\<lambda>(src, out, iSrc, oi, i, k). iSrc - k)") auto

declare match_forward.simps [simp del] match_backward.simps [simp del]

type_synonym best = "nat \<times> nat \<times> nat"

text \<open>The walk along one collision chain, at most \<open>limit\<close> blocks; the best match so far is
  (count, offset, literal size).\<close>

primrec try_blocks ::
  "byte list \<Rightarrow> byte list \<Rightarrow> int list \<Rightarrow> nat \<Rightarrow> nat \<Rightarrow> nat \<Rightarrow> int \<Rightarrow> best \<Rightarrow> best option" where
  "try_blocks src out collide base i 0 iBlock best = Some best"
| "try_blocks src out collide base i (Suc limit) iBlock best =
     (if iBlock < 0 then Some best
      else
        (let iSrc = nat iBlock * NHASH;
             j = match_forward src out 0 iSrc (base + i);
             k = match_backward src out iSrc (base + i) i 1;
             ofst = iSrc - k; cnt = j + k; litsz = i - k
         in Option.bind (digit_count (i - k)) (\<lambda>d1.
            Option.bind (digit_count cnt) (\<lambda>d2.
            Option.bind (digit_count ofst) (\<lambda>d3.
              (let sz = d1 + d2 + d3 + 3;
                   best' = (if cnt \<ge> sz \<and> cnt > fst best then (cnt, ofst, litsz) else best)
               in try_blocks src out collide base i limit (collide ! nat iBlock) best'))))))"

text \<open>The inner scan: the first position \<open>i\<close> with a worthwhile match; count 0 when the end of the
  target is reached without one.\<close>

function scan :: "byte list \<Rightarrow> byte list \<Rightarrow> nat \<Rightarrow> int list \<Rightarrow> int list \<Rightarrow> nat \<Rightarrow> nat \<Rightarrow> hash \<Rightarrow> best option" where
  "scan src out nHash landmark collide base i h =
     Option.bind (try_blocks src out collide base i 250 (landmark ! (unat (hash_32bit h) mod nHash)) (0, 0, 0))
       (\<lambda>best. if fst best > 0 then Some best
               else if base + i + NHASH > length out then Some (0, 0, 0)
               else scan src out nHash landmark collide base (i + 1) (hash_next h (byte_at out (base + i + NHASH))))"
  by pat_completeness auto
termination
  by (relation "measure (\<lambda>(src, out, nHash, landmark, collide, base, i, h). length out + 1 - (base + i + NHASH))") auto

declare scan.simps [simp del]

definition insert_cmd :: "byte list \<Rightarrow> byte list" where
  "insert_cmd text = putInt (of_nat (length text)) @ [0x3a] @ text"

definition copy_cmd :: "nat \<Rightarrow> nat \<Rightarrow> byte list" where
  "copy_cmd cnt ofst = putInt (of_nat cnt) @ [0x40] @ putInt (of_nat ofst) @ [0x2c]"

definition checksum_cmd :: "byte list \<Rightarrow> byte list" where
  "checksum_cmd out = putInt (checksum out) @ [0x3b]"

function create_from :: "byte list \<Rightarrow> byte list \<Rightarrow> nat \<Rightarrow> int list \<Rightarrow> int list \<Rightarrow> nat \<Rightarrow> byte list option" where
  "create_from src out nHash landmark collide base =
     (if base + NHASH < length out then
        (case scan src out nHash landmark collide base 0 (hash_init (drop base out)) of
           None \<Rightarrow> None
         | Some (cnt, ofst, litsz) \<Rightarrow>
             (if cnt > 0 then
                map_option (\<lambda>rest. (if litsz > 0 then insert_cmd (take litsz (drop base out)) else [])
                                   @ copy_cmd cnt ofst @ rest)
                  (create_from src out nHash landmark collide (base + litsz + cnt))
              else map_option (\<lambda>rest. insert_cmd (drop base out) @ rest)
                     (create_from src out nHash landmark collide (length out))))
      else Some ((if base < length out then insert_cmd (drop base out) else []) @ checksum_cmd out))"
  by pat_completeness auto
termination
  by (relation "measure (\<lambda>(src, out, nHash, landmark, collide, base). length out - base)") auto

declare create_from.simps [simp del]

definition delta_create :: "byte list \<Rightarrow> byte list \<Rightarrow> byte list option" where
  "delta_create src out = map_option (\<lambda>body. putInt (of_nat (length out)) @ [0x0a] @ body)
     (if length src \<le> NHASH then Some (insert_cmd out @ checksum_cmd out)
      else (let nHash = length src div NHASH in
            case build_landmarks src nHash 0 (replicate nHash (-1)) (replicate nHash (-1)) of
              (landmark, collide) \<Rightarrow> create_from src out nHash landmark collide 0))"

section \<open>delta\_output\_size and delta\_apply\<close>

text \<open>\<open>delta_output_size\<close> returns an \<open>int\<close>: the unsigned number reinterpreted, or -1.\<close>

definition delta_output_size :: "byte list \<Rightarrow> int" where
  "delta_output_size delta = (case getInt delta of (sz, rest) \<Rightarrow>
     if byte_at rest 0 \<noteq> 0x0a then -1 else sint sz)"

text \<open>\<open>Bad\<close> is the return value -1; \<open>Fault\<close> a \<open>memcpy\<close> that reads outside of the source or writes
  outside of the output buffer, which has room for the announced size.\<close>

datatype delta_result = Output "byte list" | Bad | Fault

function apply_loop :: "byte list \<Rightarrow> u32 \<Rightarrow> u32 \<Rightarrow> byte list \<Rightarrow> byte list \<Rightarrow> delta_result" where
  "apply_loop src limit tot delta out =
     (if delta = [] \<or> hd delta = 0 then Bad
      else (case getInt delta of (cnt, z1) \<Rightarrow>
        (case z1 of [] \<Rightarrow> Bad | op # z2 \<Rightarrow>
          if op = 0x40 then
            (case getInt z2 of (ofst, z3) \<Rightarrow>
              if byte_at z3 0 \<noteq> 0x2c then Bad
              else let tot' = tot + cnt in
                if tot' > limit then Bad
                else if ofst + cnt > of_nat (length src) then Bad
                else if unat ofst + unat cnt > length src \<or> length out + unat cnt > unat limit then Fault
                else apply_loop src limit tot' (drop 1 z3) (out @ take (unat cnt) (drop (unat ofst) src)))
          else if op = 0x3a then
            (let tot' = tot + cnt in
              if tot' > limit then Bad
              else if cnt > of_nat (length z2) then Bad
              else if unat cnt > length z2 \<or> length out + unat cnt > unat limit then Fault
              else apply_loop src limit tot' (drop (unat cnt) z2) (out @ take (unat cnt) z2))
          else if op = 0x3b then
            (if cnt \<noteq> checksum (take (unat tot) out) then Bad
             else if tot \<noteq> limit then Bad
             else Output out)
          else Bad)))"
  by pat_completeness auto
termination
proof -
  have gl: "length (snd (getInt_loop v z)) \<le> length z" for v z
    by (induction v z rule: getInt_loop.induct) auto
  have g: "length r \<le> length z" if "(v, r) = getInt z" for z v r
    using gl [of 0 z] by (simp flip: that [unfolded getInt_def])
  show ?thesis
    by (relation "measure (\<lambda>(src, limit, tot, delta, out). length delta)") (auto dest!: g)
qed

declare apply_loop.simps [simp del]

definition delta_apply :: "byte list \<Rightarrow> byte list \<Rightarrow> delta_result" where
  "delta_apply src delta = (case getInt delta of (limit, rest) \<Rightarrow>
     if byte_at rest 0 \<noteq> 0x0a then Bad else apply_loop src limit 0 (drop 1 rest) [])"

end
