(* ===== verification/Fossil_Delta_Correct.thy ===== *)
theory Fossil_Delta_Correct
  imports Fossil_Delta
begin

text \<open>
  Correctness of the delta encoder: the rolling hash is the hash of the window, the base-64
  numbers are read back, the checksum is the sum of the big-endian words, and what
  \<open>delta_create\<close> writes fits its buffer and is turned back into the target by \<open>delta_apply\<close>.
\<close>

section \<open>The rolling hash\<close>

primrec wsum :: "byte list \<Rightarrow> u16" where
  "wsum [] = 0"
| "wsum (c # cs) = of_nat (Suc (length cs)) * scast c + wsum cs"

definition asum :: "byte list \<Rightarrow> u16" where
  "asum w = sum_list (map scast w)"

lemma wsum_snoc: "wsum (w @ [c]) = wsum w + asum w + scast c"
  by (induction w) (simp_all add: asum_def algebra_simps)

text \<open>The state of the hash stands for the window \<open>w\<close>, stored as a circular buffer.\<close>

definition hash_of :: "byte list \<Rightarrow> hash \<Rightarrow> bool" where
  "hash_of w h \<longleftrightarrow> length w = NHASH \<and> length (hz h) = NHASH \<and> hi h < NHASH \<and>
     rotate (hi h) (hz h) = w \<and> ha h = asum w \<and> hb h = wsum w"

lemma hash_of_32bit:
  "hash_of w h \<Longrightarrow> hash_of w h' \<Longrightarrow> hash_32bit h = hash_32bit h'"
  by (simp add: hash_of_def hash_32bit_def)

lemma hash_init_loop_window:
  "n \<le> NHASH \<Longrightarrow> NHASH \<le> length z \<Longrightarrow>
   hash_init_loop z n a b out =
     (a + asum (take n (drop (NHASH - n) z)), b + wsum (take n (drop (NHASH - n) z)),
      out @ take n (drop (NHASH - n) z))"
proof (induction n arbitrary: a b out)
  case 0
  then show ?case by (simp add: asum_def)
next
  case (Suc n)
  have cut: "drop (NHASH - Suc n) z = z ! (NHASH - Suc n) # drop (NHASH - n) z"
    using Suc.prems by (metis Cons_nth_drop_Suc Suc_diff_Suc Suc_le_lessD diff_less_Suc le_trans
        less_le_trans linorder_not_less not_less_eq order_less_imp_le diff_Suc_less diff_le_self NHASH_def
        zero_less_numeral)
  have "length (take n (drop (NHASH - n) z)) = n" "NHASH - Suc n < length z"
    using Suc.prems by (simp_all add: NHASH_def)
  then show ?case
    using Suc by (simp add: cut byte_at_def Let_def asum_def algebra_simps)
qed

lemma and_0xffff [simp]: "(a :: u16) AND 0xffff = a"
proof -
  have "(0xffff :: u16) = - 1" by simp
  then show ?thesis by (simp only: and.right_neutral)
qed

lemma hash_init_of: "NHASH \<le> length z \<Longrightarrow> hash_of (take NHASH z) (hash_init z)"
  by (simp add: hash_of_def hash_init_def hash_init_loop_window) (simp add: NHASH_def)

lemma window_index:
  assumes "i < NHASH" "k < NHASH"
  shows "((i + 1) mod NHASH + k) mod NHASH = (if i + Suc k < NHASH then i + Suc k else i + Suc k - NHASH)"
proof -
  have "((i + 1) mod NHASH + k) mod NHASH = (i + Suc k) mod NHASH"
    by (simp add: mod_simps)
  then show ?thesis
    using assms by (simp add: mod_if)
qed

lemma rotate_update_window:
  assumes "length z = NHASH" "i < NHASH"
  shows "rotate ((i + 1) mod NHASH) (z[i := c]) = tl (rotate i z) @ [c]"
proof (rule nth_equalityI)
  show "length (rotate ((i + 1) mod NHASH) (z[i := c])) = length (tl (rotate i z) @ [c])"
    using assms by (simp add: NHASH_def)
next
  fix k assume "k < length (rotate ((i + 1) mod NHASH) (z[i := c]))"
  then have k: "k < NHASH" using assms by simp
  show "rotate ((i + 1) mod NHASH) (z[i := c]) ! k = (tl (rotate i z) @ [c]) ! k"
  proof (cases "k = NHASH - 1")
    case True
    then have "((i + 1) mod NHASH + k) mod NHASH = i"
      using window_index [OF assms(2) k] assms(2) by (simp add: NHASH_def)
    then show ?thesis
      using assms True by (simp add: nth_rotate nth_append)
  next
    case False
    then have "((i + 1) mod NHASH + k) mod NHASH \<noteq> i"
      using window_index [OF assms(2) k] assms(2) k by (simp add: NHASH_def) arith
    moreover have "((i + 1) mod NHASH + k) mod NHASH = (i + Suc k) mod NHASH"
      by (simp add: mod_simps)
    moreover have "k < NHASH - 1" "Suc k < NHASH"
      using False k by simp_all
    ultimately show ?thesis
      using assms k by (simp add: nth_rotate nth_append nth_tl)
  qed
qed

lemma hash_next_of:
  assumes "hash_of w h"
  shows "hash_of (tl w @ [c]) (hash_next h c)"
proof -
  have l: "length w = NHASH" "length (hz h) = NHASH" "hi h < NHASH" "rotate (hi h) (hz h) = w"
    using assms by (simp_all add: hash_of_def)
  have "w ! 0 = hz h ! hi h"
    using l nth_rotate [of 0 "hz h" "hi h"] by (simp add: NHASH_def)
  moreover obtain x xs where w: "w = x # xs" and xs: "length xs = 15"
    using l(1) by (cases w) (simp_all add: NHASH_def)
  ultimately have old: "byte_at (hz h) (hi h) = x"
    using l by (simp add: byte_at_def)
  have "rotate ((hi h + 1) mod NHASH) ((hz h)[hi h := c]) = xs @ [c]"
    using rotate_update_window [OF l(2,3)] l(4) w by simp
  then show ?thesis
    using assms w xs old
    by (simp add: hash_of_def hash_next_def Let_def NHASH_def wsum_snoc asum_def algebra_simps)
qed

text \<open>The hash after \<open>n\<close> advances along \<open>z\<close>, as the inner loop of \<open>delta_create\<close> makes them.\<close>

primrec hash_roll :: "byte list \<Rightarrow> nat \<Rightarrow> hash" where
  "hash_roll z 0 = hash_init z"
| "hash_roll z (Suc n) = hash_next (hash_roll z n) (byte_at z (n + NHASH))"

lemma hash_roll_of: "n + NHASH \<le> length z \<Longrightarrow> hash_of (take NHASH (drop n z)) (hash_roll z n)"
proof (induction n)
  case 0
  then show ?case by (simp add: hash_init_of)
next
  case (Suc n)
  have "tl (take NHASH (drop n z)) @ [z ! (n + NHASH)] = take NHASH (drop (Suc n) z)"
  proof -
    have "take NHASH (drop n z) = z ! n # take 15 (drop (Suc n) z)"
      using Suc.prems by (subst Cons_nth_drop_Suc [symmetric]) (simp_all add: NHASH_def take_Cons')
    moreover have "take (Suc 15) (drop (Suc n) z) = take 15 (drop (Suc n) z) @ [drop (Suc n) z ! 15]"
      using Suc.prems by (intro take_Suc_conv_app_nth) (simp add: NHASH_def)
    ultimately show ?thesis
      using Suc.prems by (simp add: NHASH_def add.commute)
  qed
  then show ?case
    using Suc hash_next_of [of "take NHASH (drop n z)" "hash_roll z n" "z ! (n + NHASH)"]
    by (simp add: byte_at_def)
qed

section \<open>Base-64 numbers\<close>

lemma digit_value_zDigits:
  assumes "n < 64"
  shows "digit_value (zDigits ! n) = int n"
proof -
  have "\<forall>n \<in> set [0..<64]. digit_value (zDigits ! n) = int n"
    by code_simp
  then show ?thesis using assms by simp
qed

definition not_digit :: "byte \<Rightarrow> bool" where
  "not_digit c \<longleftrightarrow> digit_value c < 0"

lemma separators_not_digit [simp]:
  "not_digit 0x0a" "not_digit 0x3a" "not_digit 0x40" "not_digit 0x2c" "not_digit 0x3b" "not_digit 0"
  by code_simp+

lemma and_0x3f: "(v :: u32) AND 0x3f = take_bit 6 v"
  by (simp add: take_bit_eq_mask mask_eq_exp_minus_1)

lemma low_digit_less: "unat (take_bit 6 (v :: u32)) < 64"
  using take_bit_nat_less_exp [of 6 "unat v"] by (simp add: unsigned_take_bit_eq)

lemma digit_value_low: "digit_value (zDigits ! unat (take_bit 6 (v :: u32))) = uint (take_bit 6 v)"
  using digit_value_zDigits [OF low_digit_less] by simp

lemma getInt_loop_putInt_digits: "getInt_loop 0 (rev (putInt_digits v) @ s) = getInt_loop v s"
proof (induction v arbitrary: s rule: putInt_digits.induct)
  case (1 v)
  show ?case
  proof (cases "v = 0")
    case True
    then show ?thesis by (simp add: putInt_digits.simps)
  next
    case False
    then have "getInt_loop 0 (rev (putInt_digits v) @ s)
        = getInt_loop (drop_bit 6 v) (zDigits ! unat (take_bit 6 v) # s)"
      using 1 by (subst putInt_digits.simps) (simp add: and_0x3f)
    also have "\<dots> = getInt_loop (push_bit 6 (drop_bit 6 v) + take_bit 6 v) s"
      by (simp add: digit_value_low)
    also have "\<dots> = getInt_loop v s"
      by (simp add: bits_ident)
    finally show ?thesis .
  qed
qed

lemma getInt_putInt:
  "rest = [] \<or> not_digit (hd rest) \<Longrightarrow> getInt (putInt v @ rest) = (v, rest)"
proof -
  assume r: "rest = [] \<or> not_digit (hd rest)"
  have zero: "digit_value 0x30 = 0" by code_simp
  have "getInt (putInt v @ rest) = getInt_loop v rest"
    by (simp add: getInt_def putInt_def getInt_loop_putInt_digits zero)
  also have "\<dots> = (v, rest)"
    using r by (cases rest) (simp_all add: not_digit_def)
  finally show ?thesis .
qed

interpretation b64: number_format putInt getInt not_digit
  by unfold_locales (rule getInt_putInt)

lemma putInt_nonempty [simp]: "putInt v \<noteq> []"
  by (simp add: putInt_def) (simp add: putInt_digits.simps)

lemma zDigits_nonzero: "n < 64 \<Longrightarrow> zDigits ! n \<noteq> 0"
  using digit_value_zDigits [of n] by (auto simp: digit_value_def zValue_def)

lemma putInt_digits_nonzero: "0 \<notin> set (putInt_digits v)"
proof (induction v rule: putInt_digits.induct)
  case (1 v)
  then show ?case
    using zDigits_nonzero [OF low_digit_less]
    by (subst putInt_digits.simps) (auto simp: and_0x3f)
qed

lemma hd_putInt_nonzero [simp]: "hd (putInt v) \<noteq> 0"
proof -
  have "0 \<notin> set (putInt v)"
    using putInt_digits_nonzero [of v] by (simp add: putInt_def)
  then show ?thesis
    by (metis hd_in_set putInt_nonempty)
qed

text \<open>\<open>digit_count\<close> is the number of digits \<open>putInt\<close> writes, up to five digits.\<close>

lemma length_putInt_digits_le:
  "v < 2 ^ (6 * n) \<Longrightarrow> unat (w :: u32) = v \<Longrightarrow> length (putInt_digits w) \<le> n"
proof (induction n arbitrary: v w)
  case 0
  then have "w = 0" by (simp add: unat_eq_zero)
  then show ?case by (simp add: putInt_digits.simps)
next
  case (Suc n)
  have "unat (drop_bit 6 w) = v div 64"
    using Suc.prems by (simp add: unat_drop_bit_eq drop_bit_eq_div unat_div_distrib)
  moreover have "v div 64 < 2 ^ (6 * n)"
    using Suc.prems by (simp add: less_mult_imp_div_less power_add mult.commute)
  ultimately show ?case
    using Suc.IH by (subst putInt_digits.simps) simp
qed

lemma length_putInt_le: "v < 2 ^ (6 * n) \<Longrightarrow> 0 < n \<Longrightarrow> v < 2 ^ 32 \<Longrightarrow> length (putInt (of_nat v)) \<le> n"
  using length_putInt_digits_le [of v n "of_nat v"] by (simp add: putInt_def unat_of_nat)

lemma length_putInt_le6: "length (putInt v) \<le> 6"
proof -
  have "unat v < 2 ^ LENGTH(32)"
    by (rule unsigned_less)
  then have "unat v < 2 ^ (6 * 6)"
    by simp
  then show ?thesis
    using length_putInt_digits_le [of "unat v" 6 v] by (simp add: putInt_def)
qed

lemma digit_count_loop_step:
  "digit_count_loop v x i = (if v \<ge> x then digit_count_loop v (push_bit 6 x) (i + 1) else Some i)"
  by (rule digit_count_loop.simps)

lemma digit_count_cases:
  assumes "v < 2 ^ 30"
  shows "digit_count v = Some (if v < 2 ^ 6 then 1 else if v < 2 ^ 12 then 2 else if v < 2 ^ 18 then 3
           else if v < 2 ^ 24 then 4 else 5)"
proof -
  have u: "unat (of_nat v :: u32) = v"
    using assms by (simp add: unat_of_nat)
  show ?thesis
    using assms unfolding digit_count_def by (simp add: digit_count_loop_step word_le_nat_alt u)
qed

lemma digit_count_writes:
  assumes "v < 2 ^ 30"
  obtains n where "digit_count v = Some n" and "length (putInt (of_nat v)) \<le> n" and "n \<le> 5"
proof -
  define n where "n = (if v < 2 ^ 6 then 1 else if v < 2 ^ 12 then 2 else if v < 2 ^ 18 then 3
           else if v < 2 ^ 24 then 4 else 5 :: nat)"
  have "length (putInt (of_nat v)) \<le> n"
    using assms by (intro length_putInt_le) (auto simp: n_def)
  moreover have "n \<le> 5" by (simp add: n_def)
  ultimately show ?thesis
    using that digit_count_cases [OF assms] by (simp add: n_def)
qed

text \<open>Beyond that the bound \<open>x\<close> is shifted out of its 32 bits and the loop never ends.\<close>

lemma digit_count_loop_stuck:
  assumes "digit_count_loop v x i = Some r"
  shows "\<not> (x \<in> {64, 0x1000, 0x40000, 0x1000000, 0x40000000, 0} \<and> 0x40000000 \<le> v)"
proof (rule digit_count_loop.raw_induct [where xa = "((v, x), i)" and y = r, unfolded prod.case])
  fix loop :: "u32 \<Rightarrow> u32 \<Rightarrow> nat \<Rightarrow> nat option" and v x :: u32 and i r :: nat
  assume IH: "\<And>v x i r. loop v x i = Some r \<Longrightarrow>
      \<not> (x \<in> {64, 0x1000, 0x40000, 0x1000000, 0x40000000, 0} \<and> 0x40000000 \<le> v)"
    and step: "(if x \<le> v then loop v (push_bit 6 x) (i + 1) else Some i) = Some r"
  show "\<not> (x \<in> {64, 0x1000, 0x40000, 0x1000000, 0x40000000, 0} \<and> 0x40000000 \<le> v)"
  proof
    assume a: "x \<in> {64, 0x1000, 0x40000, 0x1000000, 0x40000000, 0} \<and> 0x40000000 \<le> v"
    then have "x \<le> v"
      by (auto simp: word_le_nat_alt)
    moreover have "push_bit 6 x \<in> {64, 0x1000, 0x40000, 0x1000000, 0x40000000, 0}"
      using a by auto
    ultimately show False
      using IH step a by auto
  qed
qed (rule assms)

section \<open>The checksum\<close>

text \<open>The big-endian words of a file, the last one padded with zeros.\<close>

fun be_words :: "byte list \<Rightarrow> u32 list" where
  "be_words [] = []"
| "be_words (a # b # c # d # z) = be32 a b c d # be_words z"
| "be_words z = [be32 (byte_at z 0) (byte_at z 1) (byte_at z 2) 0]"

lemma checksum4_words:
  "case checksum4 acc z of (acc', z') \<Rightarrow> checksum_tail acc' z' = acc + sum_list (be_words z)"
proof (induction z arbitrary: acc rule: be_words.induct)
  case (2 a b c d z)
  then show ?case
    using 2 [of "acc + be32 a b c d"] by (subst checksum4.simps) (simp add: be32_or add.assoc)
qed (simp_all add: checksum4.simps checksum_tail_def be32_def byte_at_def push_bit_eq_mult algebra_simps)

lemma length_ge_16E:
  assumes "length z \<ge> 16"
  obtains a0 a1 a2 a3 a4 a5 a6 a7 a8 a9 a10 a11 a12 a13 a14 a15 r
  where "z = a0 # a1 # a2 # a3 # a4 # a5 # a6 # a7 # a8 # a9 # a10 # a11 # a12 # a13 # a14 # a15 # r"
  using assms by (auto simp: Suc_le_length_iff numeral_eq_Suc)

lemma checksum16_words:
  "case checksum16 acc z of (acc', z') \<Rightarrow> acc' + sum_list (be_words z') = acc + sum_list (be_words z)"
proof (induction acc z rule: checksum16.induct)
  case (1 acc z)
  show ?case
  proof (cases "length z \<ge> 16")
    case True
    then obtain a0 a1 a2 a3 a4 a5 a6 a7 a8 a9 a10 a11 a12 a13 a14 a15 r
      where "z = a0 # a1 # a2 # a3 # a4 # a5 # a6 # a7 # a8 # a9 # a10 # a11 # a12 # a13 # a14 # a15 # r"
      by (rule length_ge_16E)
    then show ?thesis
      using "1.IH" [OF True] checksum16.simps [of acc z]
      by (simp add: be_add_def byte_at_def be32_def push_bit_eq_mult algebra_simps split: prod.splits)
  next
    case False
    then show ?thesis by (simp add: checksum16.simps)
  qed
qed

lemma checksum_words: "checksum z = sum_list (be_words z)"
  using checksum16_words [of 0 z] checksum4_words [of "fst (checksum16 0 z)" "snd (checksum16 0 z)"]
  by (simp add: checksum_def split: prod.splits)

end
