(* ===== verification/Fossil_Delta_Roundtrip.thy ===== *)
theory Fossil_Delta_Roundtrip
  imports Fossil_Delta_Correct
begin

text \<open>
  What the encoder finds is a real match, what it writes is a delta of the target within the
  announced buffer, and the decoder returns the target.
\<close>

section \<open>The landmark tables\<close>

definition entries_ok :: "nat \<Rightarrow> int list \<Rightarrow> bool" where
  "entries_ok nHash t \<longleftrightarrow> length t = nHash \<and> (\<forall>e \<in> set t. e < int nHash)"

lemma entries_okD: "entries_ok nHash t \<Longrightarrow> i < nHash \<Longrightarrow> t ! i < int nHash"
  by (simp add: entries_ok_def)

lemma entries_ok_update: "entries_ok nHash t \<Longrightarrow> e < int nHash \<Longrightarrow> entries_ok nHash (t[i := e])"
  using set_update_subset_insert [of t i e] by (auto simp: entries_ok_def)

lemma build_landmarks_ok:
  assumes "nHash = length src div NHASH" "entries_ok nHash landmark" "entries_ok nHash collide"
  shows "case build_landmarks src nHash i landmark collide of (landmark', collide') \<Rightarrow>
           entries_ok nHash landmark' \<and> entries_ok nHash collide'"
  using assms
proof (induction src nHash i landmark collide rule: build_landmarks.induct)
  case (1 src nHash i landmark collide)
  show ?case
  proof (cases "i < length src - NHASH")
    case True
    define hv where "hv = unat (hash_32bit (hash_init (drop i src))) mod nHash"
    have "0 < nHash" using True "1.prems"(1) by (simp add: NHASH_def div_greater_zero_iff)
    then have hv: "hv < nHash" by (simp add: hv_def)
    have "i div NHASH < nHash" using True "1.prems"(1) by (simp add: NHASH_def)
    then have "entries_ok nHash (landmark[hv := int (i div NHASH)])"
      "entries_ok nHash (collide[i div NHASH := landmark ! hv])"
      using "1.prems" hv by (simp_all add: entries_ok_update entries_okD)
    then show ?thesis
      using "1.IH" [OF True hv_def "1.prems"(1)] True
      by (subst build_landmarks.simps) (simp add: Let_def hv_def)
  next
    case False
    then show ?thesis using "1.prems" by (simp add: build_landmarks.simps)
  qed
qed

section \<open>Matches\<close>

lemma match_forward_matches:
  "match_forward src out j x y = j + n \<Longrightarrow>
     (\<forall>t < n. x + t < length src \<and> y + t < length out \<and> src ! (x + t) = out ! (y + t))"
  and match_forward_ge: "j \<le> match_forward src out j x y"
proof (induction src out j x y arbitrary: n rule: match_forward.induct)
  case (1 src out j x y)
  { case 1
    show ?case
    proof (cases "x < length src \<and> y < length out \<and> src ! x = out ! y")
      case True
      then have eq: "match_forward src out (j + 1) (x + 1) (y + 1) = j + n"
        using 1 by (simp add: match_forward.simps)
      moreover have "j + 1 \<le> match_forward src out (j + 1) (x + 1) (y + 1)"
        by (rule "1.IH"(2) [OF True])
      ultimately obtain m where m: "n = Suc m"
        by (cases n) simp_all
      then have IH: "\<forall>t < m. x + 1 + t < length src \<and> y + 1 + t < length out \<and> src ! (x + 1 + t) = out ! (y + 1 + t)"
        using "1.IH"(1) [OF True, of m] eq by simp
      show ?thesis
      proof (intro allI impI)
        fix t assume "t < n"
        then show "x + t < length src \<and> y + t < length out \<and> src ! (x + t) = out ! (y + t)"
          using True IH m by (cases t) auto
      qed
    next
      case False
      then show ?thesis using 1 by (auto simp: match_forward.simps)
    qed
  next
    case 2
    show ?case
      using "1.IH"(2) by (subst match_forward.simps) auto
  }
qed

lemma match_backward_matches:
  assumes "1 \<le> k" "k \<le> Suc i" "i \<le> oi" "k \<le> max 1 iSrc"
    and "\<forall>t. 1 \<le> t \<and> t < k \<longrightarrow> src ! (iSrc - t) = out ! (oi - t)"
  shows "match_backward src out iSrc oi i k \<le> i \<and> (match_backward src out iSrc oi i k \<le> iSrc) \<and>
     (\<forall>t. 1 \<le> t \<and> t \<le> match_backward src out iSrc oi i k \<longrightarrow> src ! (iSrc - t) = out ! (oi - t))"
  using assms
proof (induction src out iSrc oi i k rule: match_backward.induct)
  case (1 src out iSrc oi i k)
  show ?case
  proof (cases "k < iSrc \<and> k \<le> i \<and> src ! (iSrc - k) = out ! (oi - k)")
    case True
    have "\<forall>t. 1 \<le> t \<and> t < k + 1 \<longrightarrow> src ! (iSrc - t) = out ! (oi - t)"
      using "1.prems"(5) True by (metis less_Suc_eq Suc_eq_plus1)
    moreover have "match_backward src out iSrc oi i k = match_backward src out iSrc oi i (k + 1)"
      using True by (subst match_backward.simps) simp
    ultimately show ?thesis
      using "1.IH" [OF True] "1.prems" True by simp
  next
    case False
    then have "match_backward src out iSrc oi i k = k - 1"
      by (subst match_backward.simps) auto
    then show ?thesis
      using "1.prems" by auto
  qed
qed

text \<open>A match worth a copy command: the bytes agree, they lie inside both files, and the commands are
  no longer than the bytes they stand for.\<close>

fun good_match :: "byte list \<Rightarrow> byte list \<Rightarrow> nat \<Rightarrow> best \<Rightarrow> bool" where
  "good_match src out base (cnt, ofst, litsz) \<longleftrightarrow>
     cnt = 0 \<or> (ofst + cnt \<le> length src \<and> base + litsz + cnt \<le> length out \<and>
       take cnt (drop ofst src) = take cnt (drop (base + litsz) out) \<and>
       length (putInt (of_nat litsz)) + length (putInt (of_nat cnt)) + length (putInt (of_nat ofst)) + 3 \<le> cnt)"

lemma block_match:
  assumes "iSrc \<le> length src" "base + i \<le> length out"
    and j: "j = match_forward src out 0 iSrc (base + i)"
    and k: "k = match_backward src out iSrc (base + i) i 1"
  shows "k \<le> iSrc" "k \<le> i" "iSrc - k + (j + k) \<le> length src" "base + (i - k) + (j + k) \<le> length out"
    "take (j + k) (drop (iSrc - k) src) = take (j + k) (drop (base + (i - k)) out)"
proof -
  have fwd: "\<forall>t < j. iSrc + t < length src \<and> base + i + t < length out \<and> src ! (iSrc + t) = out ! (base + i + t)"
    using match_forward_matches [of src out 0 iSrc "base + i" j] j by simp
  have bwd: "k \<le> i" "k \<le> iSrc" "\<forall>t. 1 \<le> t \<and> t \<le> k \<longrightarrow> src ! (iSrc - t) = out ! (base + i - t)"
    using match_backward_matches [of 1 i "base + i" iSrc src out] k by simp_all
  show "k \<le> i" "k \<le> iSrc" by fact+
  have jlen: "iSrc + j \<le> length src" "base + i + j \<le> length out"
    using fwd assms(1,2) by (cases j; auto simp: Suc_le_eq)+
  then show len: "iSrc - k + (j + k) \<le> length src" "base + (i - k) + (j + k) \<le> length out"
    using bwd by simp_all
  show "take (j + k) (drop (iSrc - k) src) = take (j + k) (drop (base + (i - k)) out)"
  proof (rule nth_equalityI)
    show "length (take (j + k) (drop (iSrc - k) src)) = length (take (j + k) (drop (base + (i - k)) out))"
      using len bwd by simp
  next
    fix t assume "t < length (take (j + k) (drop (iSrc - k) src))"
    then have t: "t < j + k" by simp
    have "src ! (iSrc - k + t) = out ! (base + (i - k) + t)"
    proof (cases "t < k")
      case True
      then have "src ! (iSrc - (k - t)) = out ! (base + i - (k - t))"
        using bwd(3) [rule_format, of "k - t"] by simp
      then show ?thesis using True bwd(1,2) by simp
    next
      case False
      then have "src ! (iSrc + (t - k)) = out ! (base + i + (t - k))"
        using fwd [rule_format, of "t - k"] t False by simp
      then show ?thesis using False bwd(1,2) by simp
    qed
    then show "take (j + k) (drop (iSrc - k) src) ! t = take (j + k) (drop (base + (i - k)) out) ! t"
      using t len by simp
  qed
qed

lemma try_blocks_good:
  assumes "entries_ok (length src div NHASH) collide" "length src < 2 ^ 30" "length out < 2 ^ 30"
    and "base + i \<le> length out" "iBlock < int (length src div NHASH)" "good_match src out base best"
  shows "\<exists>best'. try_blocks src out collide base i limit iBlock best = Some best' \<and> good_match src out base best'"
  using assms(5,6)
proof (induction limit arbitrary: iBlock best)
  case 0
  then show ?case by simp
next
  case (Suc limit)
  show ?case
  proof (cases "iBlock < 0")
    case True
    then show ?thesis using Suc.prems by simp
  next
    case False
    define iSrc where "iSrc = nat iBlock * NHASH"
    define j where "j = match_forward src out 0 iSrc (base + i)"
    define k where "k = match_backward src out iSrc (base + i) i 1"
    have blk: "nat iBlock < length src div NHASH"
      using False Suc.prems(1) by simp
    then have iSrc: "iSrc \<le> length src"
      by (simp add: iSrc_def NHASH_def)
    note bm = block_match [OF iSrc assms(4) j_def k_def]
    have small: "i - k < 2 ^ 30" "j + k < 2 ^ 30" "iSrc - k < 2 ^ 30"
      using bm assms(2,3) by simp_all
    obtain d1 where d1: "digit_count (i - k) = Some d1" "length (putInt (of_nat (i - k))) \<le> d1"
      using digit_count_writes [OF small(1)] by metis
    obtain d2 where d2: "digit_count (j + k) = Some d2" "length (putInt (of_nat (j + k))) \<le> d2"
      using digit_count_writes [OF small(2)] by metis
    obtain d3 where d3: "digit_count (iSrc - k) = Some d3" "length (putInt (of_nat (iSrc - k))) \<le> d3"
      using digit_count_writes [OF small(3)] by metis
    define best' where "best' = (if j + k \<ge> d1 + d2 + d3 + 3 \<and> j + k > fst best then (j + k, iSrc - k, i - k) else best)"
    have "good_match src out base best'"
      using bm d1(2) d2(2) d3(2) Suc.prems(2) by (auto simp: best'_def)
    moreover have "collide ! nat iBlock < int (length src div NHASH)"
      using assms(1) blk by (rule entries_okD)
    ultimately have "\<exists>best''. try_blocks src out collide base i limit (collide ! nat iBlock) best' = Some best''
        \<and> good_match src out base best''"
      by (intro Suc.IH)
    moreover have "try_blocks src out collide base i (Suc limit) iBlock best
        = try_blocks src out collide base i limit (collide ! nat iBlock) best'"
      using False d1(1) d2(1) d3(1)
      by (simp add: Let_def best'_def flip: iSrc_def j_def k_def [unfolded One_nat_def])
    ultimately show ?thesis by simp
  qed
qed

lemma scan_good:
  assumes "entries_ok (length src div NHASH) landmark" "entries_ok (length src div NHASH) collide"
    and "length src < 2 ^ 30" "length out < 2 ^ 30" "NHASH < length src"
    and "base + i + NHASH \<le> length out + 1"
  shows "\<exists>best. scan src out (length src div NHASH) landmark collide base i h = Some best
           \<and> good_match src out base best"
  using assms
proof (induction src out "length src div NHASH" landmark collide base i h rule: scan.induct)
  case (1 src out landmark collide base i h)
  let ?nHash = "length src div NHASH"
  let ?hv = "unat (hash_32bit h) mod ?nHash"
  have "?hv < ?nHash"
    using "1.prems"(5) by (simp add: NHASH_def div_greater_zero_iff)
  then have "landmark ! ?hv < int ?nHash"
    using "1.prems"(1) by (simp add: entries_okD)
  moreover have "base + i \<le> length out"
    using "1.prems"(6) by (simp add: NHASH_def)
  ultimately obtain best where
    best: "try_blocks src out collide base i 250 (landmark ! ?hv) (0, 0, 0) = Some best" "good_match src out base best"
    using try_blocks_good [OF "1.prems"(2-4)] by (metis good_match.simps)
  show ?case
  proof (cases "fst best > 0 \<or> base + i + NHASH > length out")
    case True
    then show ?thesis
      using best by (subst scan.simps) (cases best; auto)
  next
    case False
    then have "\<exists>best. scan src out ?nHash landmark collide base (i + 1) (hash_next h (byte_at out (base + i + NHASH)))
        = Some best \<and> good_match src out base best"
      using "1.prems" by (intro "1.hyps") (auto simp: best)
    then show ?thesis
      using best False by (subst scan.simps) simp
  qed
qed

section \<open>The decoder on one command\<close>

lemma apply_loop_insert:
  assumes "length out + length text < 2 ^ 32" "length out + length text \<le> unat limit"
    and "length text + length rest < 2 ^ 32"
  shows "apply_loop src limit (of_nat (length out)) (insert_cmd text @ rest) out
       = apply_loop src limit (of_nat (length out + length text)) rest (out @ text)"
proof -
  have u: "unat (of_nat (length text) :: u32) = length text"
    "unat (of_nat (length text + length rest) :: u32) = length text + length rest"
    "unat (of_nat (length out + length text) :: u32) = length out + length text"
    using assms by (simp_all only: unat_of_nat) simp_all
  have "\<not> limit < of_nat (length out + length text)"
    using assms u by (simp add: word_less_nat_alt del: of_nat_add)
  moreover have "\<not> of_nat (length text + length rest) < (of_nat (length text) :: u32)"
    using u by (simp add: word_less_nat_alt del: of_nat_add)
  ultimately show ?thesis
    using assms u by (subst apply_loop.simps) (simp add: insert_cmd_def Let_def)
qed

lemma apply_loop_copy:
  assumes "length out + cnt < 2 ^ 32" "length out + cnt \<le> unat limit"
    and "ofst + cnt \<le> length src" "length src < 2 ^ 32"
  shows "apply_loop src limit (of_nat (length out)) (copy_cmd cnt ofst @ rest) out
       = apply_loop src limit (of_nat (length out + cnt)) rest (out @ take cnt (drop ofst src))"
proof -
  have u: "unat (of_nat cnt :: u32) = cnt" "unat (of_nat ofst :: u32) = ofst"
    "unat (of_nat (ofst + cnt) :: u32) = ofst + cnt" "unat (of_nat (length src) :: u32) = length src"
    "unat (of_nat (length out + cnt) :: u32) = length out + cnt"
    using assms by (simp_all only: unat_of_nat) simp_all
  have "\<not> limit < of_nat (length out + cnt)"
    using assms u by (simp add: word_less_nat_alt del: of_nat_add)
  moreover have "\<not> of_nat (length src) < (of_nat (ofst + cnt) :: u32)"
    using assms u by (simp add: word_less_nat_alt del: of_nat_add)
  ultimately show ?thesis
    using assms u by (subst apply_loop.simps) (simp add: copy_cmd_def Let_def byte_at_def)
qed

lemma apply_loop_checksum:
  assumes "length out < 2 ^ 32"
  shows "apply_loop src (of_nat (length out)) (of_nat (length out)) (checksum_cmd out) out = Output out"
  using assms by (subst apply_loop.simps) (simp add: checksum_cmd_def unat_of_nat)

lemma length_insert_cmd: "length (insert_cmd text) = length (putInt (of_nat (length text))) + 1 + length text"
  by (simp add: insert_cmd_def)

lemma length_insert_cmd_le: "length (insert_cmd text) \<le> length text + 7"
  using length_putInt_le6 [of "of_nat (length text)"] by (simp add: length_insert_cmd)

lemma length_copy_cmd:
  "length (copy_cmd cnt ofst) = length (putInt (of_nat cnt)) + length (putInt (of_nat ofst)) + 2"
  by (simp add: copy_cmd_def)

lemma length_checksum_cmd_le: "length (checksum_cmd out) \<le> 7"
  using length_putInt_le6 [of "checksum out"] by (simp add: checksum_cmd_def)

section \<open>The whole delta\<close>

text \<open>\<open>d\<close> is a delta of the rest of the target, from \<open>base\<close> on, of bounded length.\<close>

definition delta_of_rest :: "byte list \<Rightarrow> byte list \<Rightarrow> nat \<Rightarrow> byte list \<Rightarrow> bool" where
  "delta_of_rest src out base d \<longleftrightarrow> length d + base \<le> length out + 14 \<and>
     apply_loop src (of_nat (length out)) (of_nat base) d (take base out) = Output out"

lemma delta_of_rest_end:
  assumes "base \<le> length out" "length out < 2 ^ 30"
  shows "delta_of_rest src out base
    ((if base < length out then insert_cmd (drop base out) else []) @ checksum_cmd out)"
proof (cases "base < length out")
  case True
  have "apply_loop src (of_nat (length out)) (of_nat (length (take base out)))
      (insert_cmd (drop base out) @ checksum_cmd out) (take base out) = Output out"
    using assms length_checksum_cmd_le [of out]
    by (subst apply_loop_insert) (simp_all add: unat_of_nat apply_loop_checksum flip: of_nat_add)
  then show ?thesis
    using True length_checksum_cmd_le [of out] length_insert_cmd_le [of "drop base out"]
    by (simp add: delta_of_rest_def min_absorb2)
next
  case False
  then have "base = length out" using assms by simp
  then show ?thesis
    using assms length_checksum_cmd_le [of out] by (simp add: delta_of_rest_def apply_loop_checksum)
qed

lemma delta_of_rest_copy:
  assumes "delta_of_rest src out (base + litsz + cnt) d" "good_match src out base (cnt, ofst, litsz)" "0 < cnt"
    and "length src < 2 ^ 30" "length out < 2 ^ 30"
  shows "delta_of_rest src out base
    ((if litsz > 0 then insert_cmd (take litsz (drop base out)) else []) @ copy_cmd cnt ofst @ d)"
proof -
  let ?lit = "if litsz > 0 then insert_cmd (take litsz (drop base out)) else []"
  have m: "ofst + cnt \<le> length src" "base + litsz + cnt \<le> length out"
    "take cnt (drop ofst src) = take cnt (drop (base + litsz) out)"
    "length (putInt (of_nat litsz)) + length (putInt (of_nat cnt)) + length (putInt (of_nat ofst)) + 3 \<le> cnt"
    using assms(2,3) by simp_all
  have len: "length (?lit @ copy_cmd cnt ofst @ d) + base \<le> length out + 14"
    using m assms(1) by (simp add: delta_of_rest_def length_insert_cmd length_copy_cmd min_absorb2)
  have lit: "apply_loop src (of_nat (length out)) (of_nat base) (?lit @ copy_cmd cnt ofst @ d) (take base out)
      = apply_loop src (of_nat (length out)) (of_nat (base + litsz)) (copy_cmd cnt ofst @ d) (take (base + litsz) out)"
  proof (cases "litsz > 0")
    case True
    have l: "length (take base out) = base" "length (take litsz (drop base out)) = litsz"
      using m by simp_all
    have "length litsz' + length (copy_cmd cnt ofst @ d) < 2 ^ 32" if "length litsz' = litsz" for litsz' :: "byte list"
      using that len m assms(5) True by (simp add: length_insert_cmd min_absorb2)
    then show ?thesis
      using apply_loop_insert [of "take base out" "take litsz (drop base out)" "of_nat (length out)" "copy_cmd cnt ofst @ d" src]
        l m assms(5) True by (simp add: unat_of_nat take_add)
  qed simp
  have "apply_loop src (of_nat (length out)) (of_nat (base + litsz)) (copy_cmd cnt ofst @ d) (take (base + litsz) out)
      = apply_loop src (of_nat (length out)) (of_nat (base + litsz + cnt)) d (take (base + litsz + cnt) out)"
    using apply_loop_copy [of "take (base + litsz) out" cnt "of_nat (length out)" ofst src d] m assms(4,5)
    by (simp add: unat_of_nat min_absorb2 take_add [of "base + litsz" cnt])
  then show ?thesis
    using lit len assms(1) by (simp only: delta_of_rest_def)
qed

lemma create_from_correct:
  assumes "entries_ok (length src div NHASH) landmark" "entries_ok (length src div NHASH) collide"
    and "length src < 2 ^ 30" "length out < 2 ^ 30" "NHASH < length src" "base \<le> length out"
  shows "\<exists>d. create_from src out (length src div NHASH) landmark collide base = Some d
           \<and> delta_of_rest src out base d"
  using assms
proof (induction src out "length src div NHASH" landmark collide base rule: create_from.induct)
  case (1 src out landmark collide base)
  let ?nHash = "length src div NHASH"
  show ?case
  proof (cases "base + NHASH < length out")
    case True
    then obtain cnt ofst litsz where
      s: "scan src out ?nHash landmark collide base 0 (hash_init (drop base out)) = Some (cnt, ofst, litsz)"
      and good: "good_match src out base (cnt, ofst, litsz)"
      using scan_good [OF "1.prems"(1-5), of base 0 "hash_init (drop base out)"] by auto
    show ?thesis
    proof (cases "cnt > 0")
      case pos: True
      have "\<exists>d. create_from src out ?nHash landmark collide (base + litsz + cnt) = Some d
          \<and> delta_of_rest src out (base + litsz + cnt) d"
        using "1.prems" good pos by (intro "1.hyps"(1) [OF True s refl refl pos]) auto
      then show ?thesis
        using delta_of_rest_copy [OF _ good pos "1.prems"(3,4)] s pos True
        by (subst create_from.simps) auto
    next
      case False
      have fin: "create_from src out ?nHash landmark collide (length out) = Some (checksum_cmd out)"
        by (subst create_from.simps) simp
      have "create_from src out ?nHash landmark collide base = Some (insert_cmd (drop base out) @ checksum_cmd out)"
        using False s True by (subst create_from.simps) (simp add: fin)
      then show ?thesis
        using delta_of_rest_end [OF "1.prems"(6,4)] True by simp
    qed
  next
    case False
    then show ?thesis
      using delta_of_rest_end [OF "1.prems"(6,4)] by (subst create_from.simps) simp
  qed
qed

lemma delta_create_correct:
  assumes "length src < 2 ^ 30" "length out < 2 ^ 30"
  shows "\<exists>body. delta_create src out = Some (putInt (of_nat (length out)) @ 0x0a # body)
           \<and> delta_of_rest src out 0 body"
proof (cases "length src \<le> NHASH")
  case True
  have "apply_loop src (of_nat (length out)) 0 (insert_cmd out @ checksum_cmd out) [] = Output out"
    using apply_loop_insert [of "[]" out "of_nat (length out)" "checksum_cmd out" src] assms
      length_checksum_cmd_le [of out] by (simp add: unat_of_nat apply_loop_checksum)
  then have "delta_of_rest src out 0 (insert_cmd out @ checksum_cmd out)"
    using length_insert_cmd_le [of out] length_checksum_cmd_le [of out] by (simp add: delta_of_rest_def)
  then show ?thesis using True by (simp add: delta_create_def)
next
  case False
  let ?nHash = "length src div NHASH"
  let ?none = "replicate ?nHash (-1) :: int list"
  have "entries_ok ?nHash ?none" by (auto simp: entries_ok_def)
  then obtain landmark collide where
    t: "build_landmarks src ?nHash 0 ?none ?none = (landmark, collide)"
      "entries_ok ?nHash landmark" "entries_ok ?nHash collide"
    using build_landmarks_ok [of ?nHash src ?none ?none 0] by (auto split: prod.splits)
  then show ?thesis
    using create_from_correct [OF t(2,3) assms, of 0] False by (auto simp: delta_create_def Let_def)
qed

section \<open>What an accepted delta guarantees\<close>

lemma getInt_suffix:
  assumes "getInt z = (v, r)"
  obtains pre where "z = pre @ r"
proof -
  have "\<exists>pre. z = pre @ snd (getInt_loop v z)" for v z
    by (induction v z rule: getInt_loop.induct) (auto, metis append_Cons)
  then show ?thesis using that assms by (metis getInt_def snd_conv)
qed

text \<open>Some command of the delta carries the checksum of \<open>out\<close>.\<close>

definition has_checksum :: "byte list \<Rightarrow> byte list \<Rightarrow> bool" where
  "has_checksum delta out \<longleftrightarrow> (\<exists>pre s r. delta = pre @ s \<and> getInt s = (checksum out, 0x3b # r))"

lemma has_checksum_append: "has_checksum d out \<Longrightarrow> has_checksum (pre @ d) out"
  unfolding has_checksum_def by (metis append.assoc)

lemma has_checksum_Cons: "has_checksum d out \<Longrightarrow> has_checksum (c # d) out"
  using has_checksum_append [of d out "[c]"] by simp

lemma has_checksum_getInt: "getInt z = (v, r) \<Longrightarrow> has_checksum r out \<Longrightarrow> has_checksum z out"
  by (metis getInt_suffix has_checksum_append)

lemma has_checksum_drop: "has_checksum (drop n d) out \<Longrightarrow> has_checksum d out"
  by (metis append_take_drop_id has_checksum_append)

lemma unat_add_room:
  fixes cnt limit tot :: u32
  assumes "length out + unat cnt \<le> unat limit" "unat tot = length out"
  shows "unat (tot + cnt) = length out + unat cnt"
proof -
  have "unat limit < 2 ^ LENGTH(32)"
    by (rule unsigned_less)
  then show ?thesis
    using assms by (simp add: unat_plus_if')
qed

lemma apply_loop_sound:
  "apply_loop src limit tot delta out = Output res \<Longrightarrow> unat tot = length out \<Longrightarrow>
   length res = unat limit \<and> has_checksum delta res"
proof (induction src limit tot delta out rule: apply_loop.induct)
  case (1 src limit tot delta out)
  have ne: "\<not> (delta = [] \<or> hd delta = 0)"
    using "1.prems"(1) by (subst (asm) apply_loop.simps) (auto split: if_splits)
  obtain cnt z1 where g: "getInt delta = (cnt, z1)" by fastforce
  show ?case
  proof (cases z1)
    case Nil
    then show ?thesis using "1.prems"(1) ne g by (subst (asm) apply_loop.simps) simp
  next
    case (Cons op z2)
    obtain ofst z3 where g3: "getInt z2 = (ofst, z3)" by fastforce
    note run = "1.prems"(1) [unfolded apply_loop.simps [of src limit tot delta out]]
    consider "op = 0x40" | "op = 0x3a" | "op = 0x3b"
      using run ne g Cons by (auto split: if_splits)
    then show ?thesis
    proof cases
      assume op: "op = 0x40"
      have c: "\<not> byte_at z3 0 \<noteq> 0x2c" "\<not> limit < tot + cnt" "\<not> of_nat (length src) < ofst + cnt"
        "\<not> (length src < unat ofst + unat cnt \<or> unat limit < length out + unat cnt)"
        using run ne g Cons op g3 by (auto simp: Let_def split: if_splits)
      have rest: "apply_loop src limit (tot + cnt) (drop 1 z3) (out @ take (unat cnt) (drop (unat ofst) src)) = Output res"
        using run ne g Cons op g3 c by (simp add: Let_def)
      have "unat (tot + cnt) = length (out @ take (unat cnt) (drop (unat ofst) src))"
        using c(4) unat_add_room [OF _ "1.prems"(2), of cnt limit] by (simp add: min_def) arith
      then have "length res = unat limit \<and> has_checksum (drop 1 z3) res"
        using "1.IH"(1) [OF ne g [symmetric] Cons op g3 [symmetric] c(1) refl c(2,3,4) rest] by simp
      then show ?thesis
        using g g3 Cons by (metis has_checksum_getInt has_checksum_Cons has_checksum_drop)
    next
      assume op: "op = 0x3a"
      have c: "\<not> limit < tot + cnt" "\<not> of_nat (length z2) < cnt"
        "\<not> (length z2 < unat cnt \<or> unat limit < length out + unat cnt)"
        using run ne g Cons op by (auto simp: Let_def split: if_splits)
      have rest: "apply_loop src limit (tot + cnt) (drop (unat cnt) z2) (out @ take (unat cnt) z2) = Output res"
        using run ne g Cons op c by (simp add: Let_def)
      have "unat (tot + cnt) = length (out @ take (unat cnt) z2)"
        using c(3) unat_add_room [OF _ "1.prems"(2), of cnt limit] by (simp add: min_absorb2)
      moreover have "op \<noteq> 0x40" using op by simp
      ultimately have "length res = unat limit \<and> has_checksum (drop (unat cnt) z2) res"
        using "1.IH"(2) [OF ne g [symmetric] Cons _ op refl c rest] by simp
      then show ?thesis
        using g Cons by (metis has_checksum_getInt has_checksum_Cons has_checksum_drop)
    next
      assume op: "op = 0x3b"
      have "res = out" "cnt = checksum out" "tot = limit"
        using run ne g Cons op "1.prems"(2) by (auto split: if_splits)
      then show ?thesis
        using "1.prems"(2) g Cons op unfolding has_checksum_def by (metis append_Nil)
    qed
  qed
qed

section \<open>Properties\<close>

text \<open>C8: for every source and target below 1 GB, \<open>delta_create\<close> returns a delta (its loops end), the
  delta is at most 21 bytes longer than the target (the caller provides 60), \<open>delta_output_size\<close>
  reads the size of the target from it, and \<open>delta_apply\<close> turns the source into the target.\<close>

theorem delta_roundtrip:
  assumes "length src < 2 ^ 30" "length out < 2 ^ 30"
  shows "\<exists>d. delta_create src out = Some d \<and> length d \<le> length out + 21 \<and>
           delta_output_size d = int (length out) \<and> delta_apply src d = Output out"
proof -
  obtain body where body: "delta_create src out = Some (putInt (of_nat (length out)) @ 0x0a # body)"
    "delta_of_rest src out 0 body"
    using delta_create_correct [OF assms] by blast
  let ?n = "of_nat (length out) :: u32"
  have "sint ?n = int (length out)"
    using assms by (simp add: sint_uint unsigned_of_nat take_bit_nat_eq_self signed_take_bit_int_eq_self)
  then show ?thesis
    using body length_putInt_le6 [of ?n] by (simp add: delta_of_rest_def delta_output_size_def delta_apply_def byte_at_def)
qed

lemma delta_roundtrip_witness:
  "\<exists>d. delta_create (chars_of ''the quick brown fox jumps over'') (chars_of ''a quick brown fox jumps over it'') = Some d
     \<and> delta_apply (chars_of ''the quick brown fox jumps over'') d = Output (chars_of ''a quick brown fox jumps over it'')"
  using delta_roundtrip [of "chars_of ''the quick brown fox jumps over''" "chars_of ''a quick brown fox jumps over it''"]
  by (auto simp: chars_of_def)

text \<open>C9: an output that \<open>delta_apply\<close> accepts has exactly the size the delta announces, and the delta
  contains its checksum; so truncated, padded or mismatched output is never accepted.\<close>

theorem delta_apply_sound:
  "case delta_apply src delta of
     Output out \<Rightarrow> length out = unat (fst (getInt delta)) \<and> has_checksum delta out
   | Bad \<Rightarrow> True
   | Fault \<Rightarrow> True"
proof (cases "delta_apply src delta")
  case (Output out)
  obtain limit rest where g: "getInt delta = (limit, rest)" by fastforce
  then have "apply_loop src limit 0 (drop 1 rest) [] = Output out"
    using Output by (auto simp: delta_apply_def split: if_splits)
  then have "length out = unat limit \<and> has_checksum (drop 1 rest) out"
    by (auto dest: apply_loop_sound)
  then have "length out = unat limit \<and> has_checksum delta out"
    using g by (metis has_checksum_drop has_checksum_getInt)
  then show ?thesis using Output g by simp
qed simp_all

text \<open>\<open>getInt\<close> reads back every number \<open>putInt\<close> writes, and stops exactly behind it, whatever
  non-digit follows.\<close>

theorem getInt_putInt_roundtrip:
  "getInt (putInt v @ 0x0a # rest) = (v, 0x0a # rest) \<and> getInt (putInt v @ 0x3a # rest) = (v, 0x3a # rest) \<and>
   getInt (putInt v @ 0x40 # rest) = (v, 0x40 # rest) \<and> getInt (putInt v @ 0x2c # rest) = (v, 0x2c # rest) \<and>
   getInt (putInt v @ 0x3b # rest) = (v, 0x3b # rest) \<and> inj putInt"
  using b64.whole.enc_inj_on by simp

text \<open>C11: the rolling hash is history free: after \<open>n\<close> advances it has the value the window would get
  if it were hashed from scratch, so equal windows of source and target always collide.\<close>

theorem hash_rolls:
  assumes "n + NHASH \<le> length z"
  shows "hash_32bit (hash_roll z n) = hash_32bit (hash_init (drop n z))"
  using hash_roll_of [OF assms] hash_init_of [of "drop n z"] assms by (intro hash_of_32bit) auto

lemma hash_rolls_witness:
  "hash_32bit (hash_roll (chars_of ''abcdefghijklmnopqrst'') 3) = hash_32bit (hash_init (chars_of ''defghijklmnopqrst''))"
  using hash_rolls [of 3 "chars_of ''abcdefghijklmnopqrst''"] by (simp add: chars_of_def NHASH_def)

text \<open>C12: the unrolled loops of \<open>checksum\<close> compute the sum of the big-endian 32-bit words of the file,
  padded with zeros.\<close>

theorem checksum_is_word_sum: "checksum z = sum_list (be_words z)"
  by (rule checksum_words)

subsection \<open>Two defects\<close>

text \<open>\<open>digit_count\<close> does not return for a count, offset or literal of 1 GB and more.\<close>

lemma digit_count_diverges:
  assumes "2 ^ 30 \<le> v" "v < 2 ^ 31"
  shows "digit_count v = None"
proof (cases "digit_count v")
  case (Some r)
  have "(0x40000000 :: u32) \<le> of_nat v"
    using assms by (simp add: word_le_nat_alt unat_of_nat)
  then show ?thesis
    using digit_count_loop_stuck [of "of_nat v" 64 1 r] Some by (simp add: digit_count_def)
qed simp

text \<open>The bound check of a copy command wraps around: this delta makes \<open>delta_apply\<close> read 4 GB behind
  a source of three bytes.\<close>

lemma delta_apply_overread: "delta_apply (chars_of ''abc'') (chars_of ''5'' @ [0x0a] @ chars_of ''2@3~~~~~,'') = Fault"
proof -
  have g: "getInt (chars_of ''5'' @ [0x0a] @ chars_of ''2@3~~~~~,'') = (5, 0x0a # chars_of ''2@3~~~~~,'')"
    "getInt (chars_of ''2@3~~~~~,'') = (2, 0x40 # chars_of ''3~~~~~,'')"
    "getInt (chars_of ''3~~~~~,'') = (0xffffffff, [0x2c])"
    by code_simp+
  have "apply_loop (chars_of ''abc'') 5 0 (chars_of ''2@3~~~~~,'') [] = Fault"
    by (subst apply_loop.simps, simp only: g) (simp add: g, simp add: chars_of_def byte_at_def Let_def)
  then show ?thesis
    by (simp only: delta_apply_def g) (simp add: byte_at_def)
qed

end
