(* ===== verification/Fossil_Bag.thy ===== *)
theory Fossil_Bag
  imports Coopy_Prelude
begin

text \<open>
  \<^verbatim>\<open>src/ssfossil/fossil/src/bag.c\<close>: a bag of positive integers as an open-addressing hash table
  with tombstones.  The versioning engine keeps its sets of artifact ids in such bags.

  Slots and sizes are natural numbers, elements are \<open>int\<close>s.  An operation returns \<open>None\<close> when an
  assertion of the code fails, when the hash \<open>i*101\<close> leaves the range of a C \<open>int\<close> (undefined
  behaviour), or when a probe goes round the table without stopping: a probe depends on the slot
  only, so after as many steps as there are slots it would run forever.
\<close>

section \<open>The model\<close>

record bag =
  cnt :: nat
  sz :: nat
  used :: nat
  a :: "int list"

definition bag_init :: bag where
  "bag_init = \<lparr>cnt = 0, sz = 0, used = 0, a = []\<rparr>"

definition bag_clear :: "bag \<Rightarrow> bag" where
  "bag_clear p = bag_init"

definition INT_MAX :: int where
  "INT_MAX = 2 ^ 31 - 1"

definition bag_hash :: "int \<Rightarrow> int option" where
  "bag_hash i = (if i * 101 \<le> INT_MAX then Some (i * 101) else None)"

text \<open>Probing: from slot \<open>h\<close> to the first slot whose entry satisfies the loop's exit condition.\<close>

fun probe :: "(int \<Rightarrow> bool) \<Rightarrow> int list \<Rightarrow> nat \<Rightarrow> nat \<Rightarrow> nat option" where
  "probe stop t h 0 = None"
| "probe stop t h (Suc n) =
     (if stop (t ! h) then Some h else probe stop t (if h + 1 \<ge> length t then 0 else h + 1) n)"

definition probe_from :: "(int \<Rightarrow> bool) \<Rightarrow> int list \<Rightarrow> int \<Rightarrow> nat option" where
  "probe_from stop t e =
     Option.bind (bag_hash e) (\<lambda>x. probe stop t (nat (x mod int (length t))) (length t))"

fun resize_loop :: "int list \<Rightarrow> int list \<Rightarrow> int list option" where
  "resize_loop [] t = Some t"
| "resize_loop (e # es) t =
     (if e > 0 then Option.bind (probe_from (\<lambda>x. x = 0) t e) (\<lambda>h. resize_loop es (t[h := e]))
      else resize_loop es t)"

definition bag_resize :: "bag \<Rightarrow> nat \<Rightarrow> bag option" where
  "bag_resize p newSize =
     (if \<not> newSize > cnt p then None
      else Option.bind (resize_loop (a p) (replicate newSize 0)) (\<lambda>t.
        let nLive = length (filter (\<lambda>e. e > 0) (a p)); nDel = length (filter (\<lambda>e. e < 0) (a p)) in
        if cnt p \<noteq> nLive then None
        else if used p \<noteq> nLive + nDel then None
        else Some (p\<lparr>a := t, sz := newSize, used := cnt p\<rparr>)))"

definition bag_insert :: "bag \<Rightarrow> int \<Rightarrow> (bool \<times> bag) option" where
  "bag_insert p e =
     (if \<not> e > 0 then None
      else Option.bind (if used p + 1 \<ge> sz p div 2 then bag_resize p (sz p * 2 + 20) else Some p) (\<lambda>p.
        Option.bind (probe_from (\<lambda>x. \<not> (x > 0 \<and> x \<noteq> e)) (a p) e) (\<lambda>h.
          if a p ! h \<le> 0 then
            Some (True, p\<lparr>used := (if a p ! h = 0 then used p + 1 else used p), a := (a p)[h := e], cnt := cnt p + 1\<rparr>)
          else Some (False, p))))"

definition bag_find :: "bag \<Rightarrow> int \<Rightarrow> bool option" where
  "bag_find p e =
     (if \<not> e > 0 then None
      else if sz p = 0 then Some False
      else map_option (\<lambda>h. a p ! h = e) (probe_from (\<lambda>x. \<not> (x \<noteq> 0 \<and> x \<noteq> e)) (a p) e))"

definition bag_remove :: "bag \<Rightarrow> int \<Rightarrow> bag option" where
  "bag_remove p e =
     (if \<not> e > 0 then None
      else if sz p = 0 then Some p
      else Option.bind (probe_from (\<lambda>x. \<not> (x \<noteq> 0 \<and> x \<noteq> e)) (a p) e) (\<lambda>h.
        if a p ! h \<noteq> 0 then
          (let nx = (if h + 1 \<ge> sz p then 0 else h + 1);
               p = (if a p ! nx = 0 then p\<lparr>a := (a p)[h := 0], used := used p - 1\<rparr>
                    else p\<lparr>a := (a p)[h := -1]\<rparr>);
               p = p\<lparr>cnt := cnt p - 1\<rparr>
           in if cnt p = 0 then Some (p\<lparr>a := replicate (sz p) 0, used := 0\<rparr>)
              else if sz p > 40 \<and> cnt p < sz p div 8 then bag_resize p (sz p div 2)
              else Some p)
        else Some p))"

definition bag_first :: "bag \<Rightarrow> int" where
  "bag_first p = (case dropWhile (\<lambda>x. x \<le> 0) (a p) of [] \<Rightarrow> 0 | x # _ \<Rightarrow> x)"

definition bag_next :: "bag \<Rightarrow> int \<Rightarrow> int option" where
  "bag_next p e =
     (if \<not> sz p > 0 then None
      else if \<not> e > 0 then None
      else Option.bind (probe_from (\<lambda>x. \<not> (x \<noteq> 0 \<and> x \<noteq> e)) (a p) e) (\<lambda>h.
        if a p ! h = 0 then None
        else Some (case dropWhile (\<lambda>x. x \<le> 0) (drop (h + 1) (a p)) of [] \<Rightarrow> 0 | x # _ \<Rightarrow> x)))"

definition bag_count :: "bag \<Rightarrow> nat" where
  "bag_count p = cnt p"

section \<open>Probing\<close>

lemma next_slot:
  assumes "h < n"
  shows "(if h + 1 \<ge> n then 0 else h + 1) < n"
    and "((if h + 1 \<ge> n then 0 else h + 1) + i) mod n = (h + Suc i) mod n"
proof -
  show "((if h + 1 \<ge> n then 0 else h + 1) + i) mod n = (h + Suc i) mod n"
  proof (cases "h + 1 \<ge> n")
    case True
    then have "h + Suc i = n + i" using assms by simp
    then show ?thesis using True by (simp only: if_True mod_add_self1) simp
  qed simp
qed (use assms in simp)

lemma probe_SomeD:
  assumes "probe stop t h n = Some k" "h < length t"
  obtains m where "m < n" "k = (h + m) mod length t" "stop (t ! k)" "\<forall>i < m. \<not> stop (t ! ((h + i) mod length t))"
proof -
  have "\<exists>m < n. k = (h + m) mod length t \<and> stop (t ! k) \<and> (\<forall>i < m. \<not> stop (t ! ((h + i) mod length t)))"
    using assms
  proof (induction n arbitrary: h)
    case (Suc n)
    show ?case
    proof (cases "stop (t ! h)")
      case True
      then show ?thesis using Suc.prems by (intro exI [of _ 0]) simp
    next
      case False
      define h' where "h' = (if h + 1 \<ge> length t then 0 else h + 1)"
      have h': "h' < length t" "(h' + i) mod length t = (h + Suc i) mod length t" for i
        unfolding h'_def by (rule next_slot [OF Suc.prems(2)])+
      have "probe stop t h' n = Some k"
        using Suc.prems(1) False by (simp add: h'_def)
      then obtain m where m: "m < n" "k = (h' + m) mod length t" "stop (t ! k)"
        "\<forall>i < m. \<not> stop (t ! ((h' + i) mod length t))"
        using Suc.IH h'(1) by blast
      have "\<not> stop (t ! ((h + i) mod length t))" if "i < Suc m" for i
        using that False m(4) h'(2) Suc.prems(2) by (cases i) simp_all
      then show ?thesis
        using m h'(2) by (intro exI [of _ "Suc m"]) simp
    qed
  qed simp
  then show ?thesis using that by blast
qed

lemma probe_total:
  assumes "\<exists>m < n. stop (t ! ((h + m) mod length t))" "h < length t"
  shows "\<exists>k. probe stop t h n = Some k"
  using assms
proof (induction n arbitrary: h)
  case (Suc n)
  show ?case
  proof (cases "stop (t ! h)")
    case False
    define h' where "h' = (if h + 1 \<ge> length t then 0 else h + 1)"
    have h': "h' < length t" "(h' + i) mod length t = (h + Suc i) mod length t" for i
      unfolding h'_def by (rule next_slot [OF Suc.prems(2)])+
    obtain m where m: "m < Suc n" "stop (t ! ((h + m) mod length t))"
      using Suc.prems(1) by blast
    then obtain i where "m = Suc i"
      using False Suc.prems(2) by (cases m) auto
    then have "\<exists>m < n. stop (t ! ((h' + m) mod length t))"
      using m h'(2) by auto
    then show ?thesis using Suc.IH [OF _ h'(1)] False by (auto simp: h'_def)
  qed simp
qed simp

text \<open>Every slot is reached within one round.\<close>

lemma slot_offset:
  assumes "h < n" "k < n"
  obtains m where "m < n" "k = (h + m) mod (n :: nat)"
proof (cases "h \<le> k")
  case True
  then show ?thesis using that [of "k - h"] assms by simp
next
  case False
  then show ?thesis using that [of "k + n - h"] assms by simp
qed

text \<open>The slot of an element, and the elements the hash is defined for.\<close>

definition slot :: "nat \<Rightarrow> int \<Rightarrow> nat" where
  "slot n e = nat (e * 101 mod int n)"

definition bag_elem :: "int \<Rightarrow> bool" where
  "bag_elem e \<longleftrightarrow> 0 < e \<and> e * 101 \<le> INT_MAX"

lemma slot_less [simp]: "0 < n \<Longrightarrow> slot n e < n"
  by (simp add: slot_def nat_less_iff)

lemma probe_from_elem:
  "bag_elem e \<Longrightarrow> probe_from stop t e = probe stop t (slot (length t) e) (length t)"
  by (simp add: probe_from_def bag_hash_def bag_elem_def slot_def)

lemma probe_from_total:
  assumes "bag_elem e" "k < length t" "stop (t ! k)"
  obtains h where "probe_from stop t e = Some h"
proof -
  have "slot (length t) e < length t" using assms(2) by (intro slot_less) auto
  then show ?thesis
    using that slot_offset [OF _ assms(2)] probe_total [of "length t" stop t] assms
    by (metis probe_from_elem)
qed

lemma probe_from_SomeD:
  assumes "probe_from stop t e = Some k" "bag_elem e" "0 < length t"
  obtains m where "m < length t" "k = (slot (length t) e + m) mod length t" "stop (t ! k)"
    "\<forall>i < m. \<not> stop (t ! ((slot (length t) e + i) mod length t))"
  using probe_SomeD [of stop t "slot (length t) e" "length t" k] assms by (auto simp: probe_from_elem)

section \<open>The invariant\<close>

text \<open>
  \<open>reach\<close>: a search for \<open>e\<close> can get to slot \<open>k\<close>, no empty slot is in the way.  The table is sound
  when every live element can be reached.
\<close>

definition reach :: "int list \<Rightarrow> int \<Rightarrow> nat \<Rightarrow> bool" where
  "reach t e k \<longleftrightarrow> (\<exists>m < length t. k = (slot (length t) e + m) mod length t \<and>
     (\<forall>i < m. t ! ((slot (length t) e + i) mod length t) \<noteq> 0))"

definition chain_ok :: "int list \<Rightarrow> bool" where
  "chain_ok t \<longleftrightarrow> (\<forall>k < length t. 0 < t ! k \<longrightarrow> bag_elem (t ! k) \<and> reach t (t ! k) k)"

definition live :: "int list \<Rightarrow> int list" where
  "live t = filter (\<lambda>x. 0 < x) t"

definition bag_content :: "bag \<Rightarrow> int multiset" where
  "bag_content p = mset (live (a p))"

definition bag_ok :: "bag \<Rightarrow> bool" where
  "bag_ok p \<longleftrightarrow> length (a p) = sz p \<and> cnt p = length (live (a p)) \<and>
     used p = length (filter (\<lambda>x. x \<noteq> 0) (a p)) \<and> (used p < sz p \<or> sz p = 0) \<and> chain_ok (a p)"

lemma chain_okD: "chain_ok t \<Longrightarrow> k < length t \<Longrightarrow> 0 < t ! k \<Longrightarrow> bag_elem (t ! k) \<and> reach t (t ! k) k"
  by (simp add: chain_ok_def)

lemma reach_mono:
  "reach t e k \<Longrightarrow> length t' = length t \<Longrightarrow> (\<And>i. i < length t \<Longrightarrow> t ! i \<noteq> 0 \<Longrightarrow> t' ! i \<noteq> 0) \<Longrightarrow> reach t' e k"
  unfolding reach_def by (metis gr_implies_not0 mod_less_divisor neq0_conv)

lemma bag_content_update:
  assumes "k < length t"
  shows "mset (live (t[k := x])) + (if 0 < t ! k then {#t ! k#} else {#})
       = mset (live t) + (if 0 < x then {#x#} else {#})"
proof -
  have "t ! k \<in># mset t" using assms by simp
  then show ?thesis
    using assms by (auto simp: live_def mset_update filter_diff_mset mset_filter multiset_eq_iff)
qed

lemma empty_slot:
  assumes "length (filter (\<lambda>x. x \<noteq> 0) t) < length t"
  obtains k where "k < length t" "t ! k = 0"
  using exists_not_filtered [OF assms] by auto

lemma probe_find:
  assumes "chain_ok t" "bag_elem e" "k0 < length t" "t ! k0 = 0"
  obtains h where "probe_from (\<lambda>x. \<not> (x \<noteq> 0 \<and> x \<noteq> e)) t e = Some h" "h < length t"
    "t ! h = (if e \<in> set t then e else 0)"
proof -
  let ?stop = "\<lambda>x. \<not> (x \<noteq> 0 \<and> x \<noteq> e)"
  have "?stop (t ! k0)" using assms(4) by simp
  then obtain h where h: "probe_from ?stop t e = Some h"
    by (rule probe_from_total [OF assms(2,3)])
  have len: "0 < length t" using assms(3) by linarith
  obtain m where m: "m < length t" "h = (slot (length t) e + m) mod length t" "?stop (t ! h)"
    "\<forall>i < m. \<not> ?stop (t ! ((slot (length t) e + i) mod length t))"
    by (rule probe_from_SomeD [OF h assms(2) len])
  have hl: "h < length t" using m(2) len by simp
  have "t ! h = e" if mem: "e \<in> set t"
  proof -
    obtain k where k: "k < length t" "t ! k = e" using mem by (auto simp: in_set_conv_nth)
    then have "reach t e k"
      using chain_okD [OF assms(1) k(1)] assms(2) by (simp add: bag_elem_def)
    then obtain n where n: "k = (slot (length t) e + n) mod length t"
      "\<forall>i < n. t ! ((slot (length t) e + i) mod length t) \<noteq> 0"
      unfolding reach_def by blast
    have "m \<le> n" using m(4) n(1) k(2) by (meson not_le)
    then show ?thesis
      using m(2,3) n k(2) by (cases "m = n") auto
  qed
  moreover have "t ! h = 0" if "e \<notin> set t"
    using that m(3) hl nth_mem by fastforce
  ultimately show ?thesis using that [OF h hl] by simp
qed

lemma probe_put:
  assumes "probe_from stop t e = Some h" "bag_elem e" "k0 < length t" "chain_ok t" "stop 0"
  shows "chain_ok (t[h := e])" "h < length t" "stop (t ! h)"
proof -
  obtain m where m: "m < length t" "h = (slot (length t) e + m) mod length t" "stop (t ! h)"
    "\<forall>i < m. \<not> stop (t ! ((slot (length t) e + i) mod length t))"
    using probe_from_SomeD [OF assms(1,2)] assms(3) by (metis gr_zeroI not_less_zero)
  show hl: "h < length t" using m(2) assms(3) by (cases t) simp_all
  show "stop (t ! h)" by fact
  have e0: "e \<noteq> 0" using assms(2) by (simp add: bag_elem_def)
  have nz: "t[h := e] ! i \<noteq> 0" if "i < length t" "t ! i \<noteq> 0" for i
    using that e0 by (cases "i = h") simp_all
  have "reach t e h"
    unfolding reach_def using m assms(5) by metis
  then have "reach (t[h := e]) e h"
    by (rule reach_mono) (simp_all add: nz)
  moreover have "reach (t[h := e]) (t ! k) k" if "k < length t" "0 < t ! k" for k
    using chain_okD [OF assms(4) that] nz reach_mono [of t "t ! k" k "t[h := e]"] by simp
  ultimately show "chain_ok (t[h := e])"
    using assms(2) chain_okD [OF assms(4)] hl by (auto simp: chain_ok_def nth_list_update)
qed

section \<open>The operations keep the invariant\<close>

lemma resize_loop_ok:
  assumes "\<forall>e \<in> set es. 0 < e \<longrightarrow> bag_elem e" "chain_ok t" "\<forall>x \<in> set t. 0 \<le> x"
    and "length (live es) + length (live t) < length t"
  shows "\<exists>t'. resize_loop es t = Some t' \<and> length t' = length t \<and> chain_ok t' \<and> (\<forall>x \<in> set t'. 0 \<le> x) \<and>
           mset (live t') = mset (live es) + mset (live t)"
  using assms
proof (induction es arbitrary: t)
  case (Cons e es)
  show ?case
  proof (cases "0 < e")
    case True
    have nz: "filter (\<lambda>x. x \<noteq> 0) t = live t"
      unfolding live_def using Cons.prems(3) by (intro filter_cong) auto
    have e: "bag_elem e" using Cons.prems(1) True by simp
    obtain k where k: "k < length t" "t ! k = 0"
      using empty_slot [of t] Cons.prems(4) nz by auto
    obtain h where h: "probe_from (\<lambda>x. x = 0) t e = Some h"
      using probe_from_total [OF e k(1), where stop = "\<lambda>x. x = 0"] k(2) by auto
    have h': "h < length t" "t ! h = 0" "chain_ok (t[h := e])"
      using probe_put [OF h e k(1) Cons.prems(2)] by simp_all
    have c: "mset (live (t[h := e])) = add_mset e (mset (live t))"
      using bag_content_update [OF h'(1), of e] h'(2) True by simp
    then have "length (live (t[h := e])) = Suc (length (live t))"
      by (metis size_mset size_add_mset)
    moreover have "\<forall>x \<in> set (t[h := e]). 0 \<le> x"
      using Cons.prems(3) True set_update_subset_insert [of t h e] by auto
    ultimately have "\<exists>t'. resize_loop es (t[h := e]) = Some t' \<and> length t' = length (t[h := e]) \<and> chain_ok t' \<and>
        (\<forall>x \<in> set t'. 0 \<le> x) \<and> mset (live t') = mset (live es) + mset (live (t[h := e]))"
      using Cons.prems(1,4) h'(3) True by (intro Cons.IH) (auto simp: live_def)
    then show ?thesis
      using True h c by (auto simp: live_def)
  next
    case False
    then have l: "live (e # es) = live es" by (simp add: live_def)
    then show ?thesis
      using Cons.IH [of t] Cons.prems False by simp
  qed
qed (simp add: live_def)

lemma live_replicate [simp]: "live (replicate n 0) = []"
  by (simp add: live_def)

lemma chain_ok_replicate [simp]: "chain_ok (replicate n 0)"
  by (simp add: chain_ok_def)

lemma live_nonzero: "length (filter (\<lambda>x. x \<noteq> 0) t) = length (live t) + length (filter (\<lambda>x. x < (0 :: int)) t)"
  unfolding live_def by (induction t) auto

lemma bag_ok_elems: "bag_ok p \<Longrightarrow> e \<in> set (a p) \<Longrightarrow> 0 < e \<Longrightarrow> bag_elem e"
  unfolding bag_ok_def chain_ok_def by (metis in_set_conv_nth)

lemma bag_resize_ok:
  assumes "bag_ok p" "cnt p < n"
  obtains p' where "bag_resize p n = Some p'" "bag_ok p'" "bag_content p' = bag_content p" "sz p' = n" "used p' = cnt p"
    "cnt p' = cnt p"
proof -
  have "\<exists>t'. resize_loop (a p) (replicate n 0) = Some t' \<and> length t' = length (replicate n (0 :: int)) \<and>
      chain_ok t' \<and> (\<forall>x \<in> set t'. 0 \<le> x) \<and> mset (live t') = mset (live (a p)) + mset (live (replicate n 0))"
    using assms by (intro resize_loop_ok) (auto simp: bag_ok_elems bag_ok_def)
  then obtain t where t: "resize_loop (a p) (replicate n 0) = Some t" "length t = n" "chain_ok t"
    "\<forall>x \<in> set t. 0 \<le> x" "mset (live t) = mset (live (a p))"
    by auto
  have "filter (\<lambda>x. x \<noteq> 0) t = live t"
    unfolding live_def using t(4) by (intro filter_cong) auto
  moreover have "length (live t) = cnt p"
    using t(5) assms(1) by (metis bag_ok_def size_mset)
  ultimately have "bag_ok (p\<lparr>a := t, sz := n, used := cnt p\<rparr>)"
    using t assms(2) by (simp add: bag_ok_def)
  moreover have "bag_resize p n = Some (p\<lparr>a := t, sz := n, used := cnt p\<rparr>)"
    using assms t(1) live_nonzero [of "a p"] by (simp add: bag_resize_def bag_ok_def Let_def live_def)
  ultimately show ?thesis
    using that t(5) by (simp add: bag_content_def)
qed

lemma bag_content_pos: "e \<in># bag_content p \<longleftrightarrow> e \<in> set (a p) \<and> 0 < e"
  by (simp add: bag_content_def live_def)

lemma bag_insert_ok:
  assumes "bag_ok p" "bag_elem e"
  obtains rc p' where "bag_insert p e = Some (rc, p')" "bag_ok p'"
    "bag_content p' = (if rc then add_mset e (bag_content p) else bag_content p)" "e \<in># bag_content p'"
proof -
  define step where "step = (if used p + 1 \<ge> sz p div 2 then bag_resize p (sz p * 2 + 20) else Some p)"
  have cu: "cnt p \<le> used p"
    using assms(1) live_nonzero [of "a p"] by (simp add: bag_ok_def)
  obtain q where q: "step = Some q" "bag_ok q" "bag_content q = bag_content p" "used q + 1 < sz q"
  proof (cases "used p + 1 \<ge> sz p div 2")
    case True
    have "cnt p < sz p * 2 + 20" using assms(1) cu by (auto simp: bag_ok_def)
    then obtain p' where "bag_resize p (sz p * 2 + 20) = Some p'" "bag_ok p'" "bag_content p' = bag_content p"
      "sz p' = sz p * 2 + 20" "used p' = cnt p" "cnt p' = cnt p"
      by (rule bag_resize_ok [OF assms(1)])
    then show ?thesis
      using that True cu assms(1) by (auto simp: step_def bag_ok_def)
  next
    case False
    then show ?thesis using that assms(1) by (simp add: step_def)
  qed
  let ?stop = "\<lambda>x. \<not> (x > 0 \<and> x \<noteq> e)"
  have lq: "length (a q) = sz q" "cnt q = length (live (a q))" "used q = length (filter (\<lambda>x. x \<noteq> 0) (a q))" "chain_ok (a q)"
    using q(2) by (simp_all add: bag_ok_def)
  obtain k where k: "k < length (a q)" "a q ! k = 0"
    using empty_slot [of "a q"] q(4) lq(1,3) by auto
  then obtain h where h: "probe_from ?stop (a q) e = Some h"
    using probe_from_total [OF assms(2) k(1), of ?stop] by auto
  have put: "chain_ok ((a q)[h := e])" "h < length (a q)" "?stop (a q ! h)"
    using probe_put [OF h assms(2) k(1) lq(4)] by simp_all
  have ins: "bag_insert p e = (if a q ! h \<le> 0 then
      Some (True, q\<lparr>used := (if a q ! h = 0 then used q + 1 else used q), a := (a q)[h := e], cnt := cnt q + 1\<rparr>)
      else Some (False, q))"
    unfolding bag_insert_def step_def [symmetric] using assms(2) q(1) h by (simp add: bag_elem_def)
  have e: "0 < e" using assms(2) by (simp add: bag_elem_def)
  show ?thesis
  proof (cases "a q ! h \<le> 0")
    case True
    have c: "mset (live ((a q)[h := e])) = add_mset e (mset (live (a q)))"
      using bag_content_update [OF put(2), of e] True e by simp
    have "length (live ((a q)[h := e])) = cnt q + 1"
      using c lq(2) by (metis Suc_eq_plus1 size_add_mset size_mset)
    moreover have "length (filter (\<lambda>x. x \<noteq> 0) ((a q)[h := e])) = (if a q ! h = 0 then used q + 1 else used q)"
      using length_filter_update [OF put(2), of "\<lambda>x. x \<noteq> 0" e] e lq(3) by (cases "a q ! h = 0") simp_all
    ultimately have "bag_ok (q\<lparr>used := (if a q ! h = 0 then used q + 1 else used q), a := (a q)[h := e], cnt := cnt q + 1\<rparr>)"
      using put(1) lq(1) q(4) by (simp add: bag_ok_def)
    then show ?thesis
      using that ins True c q(3) by (simp add: bag_content_def)
  next
    case False
    then have "a q ! h = e" using put(3) by simp
    then have "e \<in># bag_content q" using put(2) e by (metis bag_content_pos nth_mem)
    then show ?thesis using that ins False q by simp
  qed
qed

lemma bag_find_ok:
  assumes "bag_ok p" "bag_elem e"
  shows "bag_find p e = Some (e \<in># bag_content p)"
proof (cases "sz p = 0")
  case True
  then show ?thesis
    using assms by (simp add: bag_find_def bag_elem_def bag_ok_def bag_content_pos)
next
  case False
  obtain k where k: "k < length (a p)" "a p ! k = 0"
    using assms(1) False empty_slot [of "a p"] by (auto simp: bag_ok_def)
  obtain h where "probe_from (\<lambda>x. \<not> (x \<noteq> 0 \<and> x \<noteq> e)) (a p) e = Some h" "h < length (a p)"
    "a p ! h = (if e \<in> set (a p) then e else 0)"
    using probe_find [OF _ assms(2) k] assms(1) by (auto simp: bag_ok_def)
  then show ?thesis
    using assms(2) False by (simp add: bag_find_def bag_elem_def bag_content_pos)
qed

text \<open>Emptying a slot is safe when the slot behind it is empty, and otherwise it gets a tombstone.\<close>

lemma chain_ok_tombstone:
  assumes "chain_ok t" "h < length t"
  shows "chain_ok (t[h := -1])"
proof -
  have nz: "t[h := -1] ! i \<noteq> 0" if "i < length t" "t ! i \<noteq> 0" for i
    using that by (cases "i = h") simp_all
  have "reach (t[h := -1]) (t ! k) k" if "k < length t" "0 < t ! k" for k
    using chain_okD [OF assms(1) that] nz reach_mono [of t "t ! k" k "t[h := -1]"] by simp
  then show ?thesis
    using chain_okD [OF assms(1)] assms(2) by (auto simp: chain_ok_def nth_list_update)
qed

lemma reach_clear:
  assumes "reach t e k" "k \<noteq> h" "h < length t" "t ! ((h + 1) mod length t) = 0" "t ! k \<noteq> 0"
  shows "reach (t[h := 0]) e k"
proof -
  let ?n = "length t" and ?s = "slot (length t) e"
  obtain m where m: "m < ?n" "k = (?s + m) mod ?n" "\<forall>i < m. t ! ((?s + i) mod ?n) \<noteq> 0"
    using assms(1) by (auto simp: reach_def)
  have "t[h := 0] ! ((?s + i) mod ?n) \<noteq> 0" if i: "i < m" for i
  proof (cases "(?s + i) mod ?n = h")
    case True
    then have "(?s + Suc i) mod ?n = (h + 1) mod ?n"
      by (metis add_Suc_right Suc_eq_plus1 mod_Suc_eq)
    then have "t ! ((?s + Suc i) mod ?n) = 0" using assms(4) by simp
    moreover have "t ! ((?s + Suc i) mod ?n) \<noteq> 0"
      using m(3) [rule_format, of "Suc i"] i m(2) assms(5) by (cases "Suc i = m") simp_all
    ultimately show ?thesis by simp
  next
    case False
    then show ?thesis using m(3) i by simp
  qed
  then show ?thesis
    using m by (auto simp: reach_def)
qed

lemma chain_ok_clear:
  assumes "chain_ok t" "h < length t" "t ! ((h + 1) mod length t) = 0"
  shows "chain_ok (t[h := 0])"
  using assms chain_okD [OF assms(1)] by (auto simp: chain_ok_def nth_list_update intro!: reach_clear)

lemma next_slot_mod: "(h :: nat) < n \<Longrightarrow> (if h + 1 \<ge> n then 0 else h + 1) = (h + 1) mod n"
  using next_slot(2) [of h n 0] next_slot(1) [of h n] by simp

lemma bag_remove_ok:
  assumes "bag_ok p" "bag_elem e"
  obtains p' where "bag_remove p e = Some p'" "bag_ok p'" "bag_content p' = bag_content p - {#e#}"
proof (cases "e \<in># bag_content p")
  case False
  show ?thesis
  proof (cases "sz p = 0")
    case True
    then show ?thesis
      using that [of p] assms False by (simp add: bag_remove_def bag_elem_def diff_single_trivial)
  next
    case nz: False
    obtain k where k: "k < length (a p)" "a p ! k = 0"
      using assms(1) nz empty_slot [of "a p"] by (auto simp: bag_ok_def)
    have "e \<notin> set (a p)" using False assms(2) by (simp add: bag_content_pos bag_elem_def)
    then obtain h where "probe_from (\<lambda>x. \<not> (x \<noteq> 0 \<and> x \<noteq> e)) (a p) e = Some h" "a p ! h = 0"
      using probe_find [OF _ assms(2) k] assms(1) by (auto simp: bag_ok_def)
    then show ?thesis
      using that [of p] assms False nz by (simp add: bag_remove_def bag_elem_def diff_single_trivial)
  qed
next
  case True
  have lp: "length (a p) = sz p" "cnt p = length (live (a p))" "used p = length (filter (\<lambda>x. x \<noteq> 0) (a p))"
    "chain_ok (a p)" "used p < sz p \<or> sz p = 0"
    using assms(1) by (metis bag_ok_def)+
  have e: "0 < e" "e \<in> set (a p)" using True by (simp_all add: bag_content_pos)
  then have nz: "0 < sz p" "used p < sz p" using lp(1,5) by (cases "a p"; auto)+
  obtain k where k: "k < length (a p)" "a p ! k = 0"
    using lp nz empty_slot [of "a p"] by auto
  obtain h where h: "probe_from (\<lambda>x. \<not> (x \<noteq> 0 \<and> x \<noteq> e)) (a p) e = Some h" "h < length (a p)" "a p ! h = e"
    using probe_find [OF lp(4) assms(2) k] e(2) by auto
  define b where "b \<longleftrightarrow> a p ! ((h + 1) mod sz p) = 0"
  define q where "q = p\<lparr>a := (a p)[h := (if b then 0 else -1)], used := used p - of_bool b, cnt := cnt p - 1\<rparr>"
  have rem: "bag_remove p e = (if cnt q = 0 then Some (q\<lparr>a := replicate (sz p) 0, used := 0\<rparr>)
      else if sz p > 40 \<and> cnt q < sz p div 8 then bag_resize q (sz p div 2) else Some q)"
    using h e nz next_slot_mod [of h "sz p"] lp(1) unfolding bag_remove_def
    by (simp add: Let_def q_def b_def)
  have "add_mset e (mset (live (a q))) = mset (live (a p))"
    using bag_content_update [OF h(2), of "if b then 0 else -1"] h(3) e(1) by (auto simp: q_def)
  then have c: "mset (live (a q)) = mset (live (a p)) - {#e#}"
    by (metis add_mset_remove_trivial)
  moreover have "e \<in># mset (live (a p))" using True by (simp add: bag_content_def)
  ultimately have "length (live (a q)) = cnt p - 1"
    using lp(2) by (metis size_Diff_singleton size_mset)
  moreover have "length (filter (\<lambda>x. x \<noteq> 0) (a q)) = used p - of_bool b"
    using length_filter_update [OF h(2), of "\<lambda>x. x \<noteq> 0" "if b then 0 else -1"] h(3) e(1) lp(3)
    by (auto simp: q_def)
  moreover have "chain_ok (a q)"
    using chain_ok_tombstone [OF lp(4) h(2)] chain_ok_clear [OF lp(4) h(2)] lp(1) by (simp add: q_def b_def)
  ultimately have q: "bag_ok q" using lp(1) nz by (simp add: bag_ok_def q_def)
  have cq: "bag_content q = bag_content p - {#e#}" using c by (simp add: bag_content_def)
  consider "cnt q = 0" | "cnt q \<noteq> 0" "sz p > 40 \<and> cnt q < sz p div 8" | "cnt q \<noteq> 0" "\<not> (sz p > 40 \<and> cnt q < sz p div 8)"
    by blast
  then show ?thesis
  proof cases
    case 1
    then have "bag_content q = {#}" using q by (simp add: bag_ok_def bag_content_def)
    moreover have "bag_ok (q\<lparr>a := replicate (sz p) 0, used := 0\<rparr>)"
      using 1 nz by (simp add: bag_ok_def q_def)
    ultimately show ?thesis
      using that rem 1 cq by (simp add: bag_content_def)
  next
    case 2
    then have "cnt q < sz p div 2" by linarith
    then show ?thesis
      using bag_resize_ok [OF q] that rem 2 cq by (metis (no_types, lifting))
  next
    case 3
    then show ?thesis using that rem q cq by (metis (no_types, lifting))
  qed
qed

section \<open>The contract\<close>

text \<open>What the clients of a bag rely on: the operations return, and act on the multiset of its items.\<close>

locale item_bag =
  fixes inv :: "'b \<Rightarrow> bool" and ok :: "'e \<Rightarrow> bool" and items :: "'b \<Rightarrow> 'e multiset"
    and empty :: 'b and ins :: "'b \<Rightarrow> 'e \<Rightarrow> (bool \<times> 'b) option" and find :: "'b \<Rightarrow> 'e \<Rightarrow> bool option"
    and rem :: "'b \<Rightarrow> 'e \<Rightarrow> 'b option"
  assumes inv_empty: "inv empty" and items_empty: "items empty = {#}"
    and ins_ok: "inv b \<Longrightarrow> ok e \<Longrightarrow> \<exists>r b'. ins b e = Some (r, b') \<and> inv b' \<and>
      items b' = (if r then add_mset e (items b) else items b) \<and> e \<in># items b'"
    and find_ok: "inv b \<Longrightarrow> ok e \<Longrightarrow> find b e = Some (e \<in># items b)"
    and rem_ok: "inv b \<Longrightarrow> ok e \<Longrightarrow> \<exists>b'. rem b e = Some b' \<and> inv b' \<and> items b' = items b - {#e#}"
begin

lemma ins_set: "inv b \<Longrightarrow> ok e \<Longrightarrow> \<exists>r b'. ins b e = Some (r, b') \<and> inv b' \<and> set_mset (items b') = insert e (set_mset (items b))"
  using ins_ok [of b e] by (auto split: if_splits)

lemma ins_all:
  "list_all ok es \<Longrightarrow> inv b \<Longrightarrow>
   \<exists>b'. foldl (\<lambda>s e. Option.bind s (\<lambda>b. map_option snd (ins b e))) (Some b) es = Some b' \<and> inv b' \<and>
     set_mset (items b') = set_mset (items b) \<union> set es"
proof (induction es arbitrary: b)
  case (Cons e es)
  then obtain r b' where "ins b e = Some (r, b')" "inv b'" "set_mset (items b') = insert e (set_mset (items b))"
    using ins_set by (metis list.pred_inject(2))
  then show ?case using Cons.IH [of b'] Cons.prems by auto
qed simp

lemma find_after_ins_all:
  "list_all ok es \<Longrightarrow> ok e \<Longrightarrow>
   Option.bind (foldl (\<lambda>s e. Option.bind s (\<lambda>b. map_option snd (ins b e))) (Some empty) es) (\<lambda>b. find b e)
     = Some (e \<in> set es)"
  using ins_all [OF _ inv_empty, of es] by (auto simp: items_empty find_ok)

end

lemma bag_init_ok: "bag_ok bag_init" "bag_content bag_init = {#}"
  by (simp_all add: bag_ok_def bag_init_def bag_content_def live_def chain_ok_def)

interpretation bag: item_bag bag_ok bag_elem bag_content bag_init bag_insert bag_find bag_remove
proof unfold_locales
  fix b e assume "bag_ok b" "bag_elem e"
  then show "\<exists>r b'. bag_insert b e = Some (r, b') \<and> bag_ok b' \<and>
      bag_content b' = (if r then add_mset e (bag_content b) else bag_content b) \<and> e \<in># bag_content b'"
    using bag_insert_ok by metis
next
  fix b e assume "bag_ok b" "bag_elem e"
  then show "\<exists>b'. bag_remove b e = Some b' \<and> bag_ok b' \<and> bag_content b' = bag_content b - {#e#}"
    using bag_remove_ok by metis
qed (simp_all add: bag_init_ok bag_find_ok)

section \<open>Iteration\<close>

text \<open>The loop \<open>for(e=bag_first(p); e>0; e=bag_next(p,e))\<close> of the clients, with a bound on its steps.\<close>

fun bag_walk :: "bag \<Rightarrow> nat \<Rightarrow> int \<Rightarrow> int list option" where
  "bag_walk p 0 e = None"
| "bag_walk p (Suc n) e =
     (if e > 0 then Option.bind (bag_next p e) (\<lambda>e'. map_option (Cons e) (bag_walk p n e')) else Some [])"

definition first_or_0 :: "int list \<Rightarrow> int" where
  "first_or_0 xs = (case xs of [] \<Rightarrow> 0 | x # _ \<Rightarrow> x)"

lemma first_live: "(case dropWhile (\<lambda>x. x \<le> 0) t of [] \<Rightarrow> 0 | x # _ \<Rightarrow> x) = first_or_0 (live t)"
  by (induction t) (auto simp: first_or_0_def live_def)

lemma live_split: "h < length t \<Longrightarrow> 0 < t ! h \<Longrightarrow> live t = live (take h t) @ t ! h # live (drop (h + 1) t)"
  unfolding live_def by (subst id_take_nth_drop [of h t]) auto

lemma bag_next_live:
  assumes "bag_ok p" "live (a p) = xs @ e # ys" "distinct (live (a p))"
  shows "bag_next p e = Some (first_or_0 ys)"
proof -
  have "e \<in> set (live (a p))" using assms(2) by simp
  then have e: "e \<in> set (a p)" "0 < e" by (simp_all add: live_def)
  then have be: "bag_elem e" using assms(1) bag_ok_elems by blast
  have nz: "0 < sz p" using e(1) assms(1) by (cases "a p") (auto simp: bag_ok_def)
  obtain k where k: "k < length (a p)" "a p ! k = 0"
    using assms(1) nz empty_slot [of "a p"] by (auto simp: bag_ok_def)
  obtain h where h: "probe_from (\<lambda>x. \<not> (x \<noteq> 0 \<and> x \<noteq> e)) (a p) e = Some h" "h < length (a p)" "a p ! h = e"
    using probe_find [OF _ be k] assms(1) e(1) by (auto simp: bag_ok_def)
  have "live (a p) = live (take h (a p)) @ e # live (drop (h + 1) (a p))"
    using live_split [OF h(2)] h(3) e(2) by simp
  then have "live (drop (h + 1) (a p)) = ys"
    using assms(2,3) by (metis append_Cons_eq_iff distinct.simps(2) distinct_append not_distinct_conv_prefix)
  then show ?thesis
    using h e(2) nz first_live [of "drop (h + 1) (a p)"] by (simp add: bag_next_def)
qed

lemma bag_walk_live:
  assumes "bag_ok p" "distinct (live (a p))"
  shows "live (a p) = xs @ ys \<Longrightarrow> bag_walk p (Suc (length ys)) (first_or_0 ys) = Some ys"
proof (induction ys arbitrary: xs)
  case (Cons y ys)
  have "y \<in> set (live (a p))" using Cons.prems by simp
  then have "0 < y" by (simp add: live_def)
  moreover have "bag_next p y = Some (first_or_0 ys)"
    using bag_next_live [OF assms(1) Cons.prems assms(2)] .
  moreover have "bag_walk p (Suc (length ys)) (first_or_0 ys) = Some ys"
    using Cons.IH [of "xs @ [y]"] Cons.prems by simp
  ultimately show ?case
    by (simp add: first_or_0_def del: bag_walk.simps(2)) (simp add: bag_walk.simps(2) [of p "Suc (length ys)"] del: bag_walk.simps(2))
qed (simp add: first_or_0_def)

section \<open>Properties\<close>



text \<open>A bag filled by insertions alone is the set of what was inserted.\<close>

theorem bag_insertions_find:
  assumes "list_all bag_elem es" "bag_elem e"
  shows "Option.bind (foldl (\<lambda>s e. Option.bind s (\<lambda>p. map_option snd (bag_insert p e))) (Some bag_init) es)
           (\<lambda>p. bag_find p e) = Some (e \<in> set es)"
  by (rule bag.find_after_ins_all [OF assms])

lemma bag_insertions_find_witness:
  "Option.bind (foldl (\<lambda>s e. Option.bind s (\<lambda>p. map_option snd (bag_insert p e))) (Some bag_init) [3, 23, 3])
     (\<lambda>p. bag_find p 23) = Some True"
  using bag_insertions_find [of "[3, 23, 3]" 23] by (simp add: bag_elem_def INT_MAX_def)

text \<open>C15: the iteration over a bag without duplicates visits every element exactly once and ends.\<close>

theorem bag_walk_complete:
  assumes "bag_ok p" "distinct (live (a p))"
  shows "bag_walk p (bag_count p + 1) (bag_first p) = Some (live (a p))"
  using bag_walk_live [OF assms, of "[]" "live (a p)"] assms(1)
  by (simp add: bag_first_def first_live bag_count_def bag_ok_def)

lemma bag_walk_complete_witness:
  "\<exists>p. bag_insert bag_init 5 = Some (True, p) \<and> bag_walk p (bag_count p + 1) (bag_first p) = Some [5]"
proof -
  define p where "p = \<lparr>cnt = 1, sz = 20, used = 1, a = [0, 0, 0, 0, 0, 5, 0, 0, 0, 0, 0, 0, 0, 0, 0, 0, 0, 0, 0, 0]\<rparr>"
  have ins: "bag_insert bag_init 5 = Some (True, p)"
    unfolding p_def by code_simp
  then have ok: "bag_ok p"
    using bag_insert_ok [OF bag_init_ok(1), of 5] by (auto simp: bag_elem_def INT_MAX_def)
  have live: "live (a p) = [5]" by (simp add: p_def live_def)
  show ?thesis
    using bag_walk_complete [OF ok] ins by (simp add: live)
qed

text \<open>An insertion stops at the first tombstone, before it has seen whether the element is stored
  further on.  After inserting 1 and 21 and removing 1, inserting 21 again reports a new element,
  the count is 2, and removing 21 leaves it in the bag.\<close>

theorem bag_insert_duplicates:
  "Option.bind (bag_insert bag_init 1) (\<lambda>(_, p). Option.bind (bag_insert p 21) (\<lambda>(_, p).
   Option.bind (bag_remove p 1) (\<lambda>p. Option.bind (bag_insert p 21) (\<lambda>(rc, p).
   Option.bind (bag_remove p 21) (\<lambda>p'. Option.bind (bag_find p' 21) (\<lambda>found. Some (rc, bag_count p, found)))))))
   = Some (True, 2, True)"
  by code_simp

end
