(* ===== verification/Fossil_Pqueue.thy ===== *)
theory Fossil_Pqueue
  imports Coopy_Prelude
begin

text \<open>
  \<^verbatim>\<open>src/ssfossil/fossil/src/pqueue.c\<close>: a priority queue as an array kept in ascending order of value.
  The values are compared only, so any linear order stands for the \<open>double\<close>s that are not NaN.
  A slot that was allocated and never written is \<open>None\<close>.
\<close>

section \<open>The model\<close>

type_synonym 'v queue_element = "int \<times> 'v"

record 'v pqueue =
  pq_cnt :: nat
  pq_sz :: nat
  pq_a :: "'v queue_element option list"

definition pqueue_init :: "'v pqueue" where
  "pqueue_init = \<lparr>pq_cnt = 0, pq_sz = 0, pq_a = []\<rparr>"

definition pqueue_clear :: "'v pqueue \<Rightarrow> 'v pqueue" where
  "pqueue_clear p = pqueue_init"

definition pqueue_resize :: "'v pqueue \<Rightarrow> nat \<Rightarrow> 'v pqueue" where
  "pqueue_resize p N = p\<lparr>pq_a := take N (pq_a p) @ replicate (N - length (pq_a p)) None, pq_sz := N\<rparr>"

text \<open>The search for the first larger value, from index \<open>i\<close> on.\<close>

function insert_pos :: "('v :: linorder) queue_element option list \<Rightarrow> nat \<Rightarrow> 'v \<Rightarrow> nat \<Rightarrow> nat" where
  "insert_pos t n v i = (if i < n \<and> \<not> (case t ! i of Some (_, w) \<Rightarrow> w > v | None \<Rightarrow> False)
                         then insert_pos t n v (i + 1) else i)"
  by pat_completeness auto
termination by (relation "measure (\<lambda>(t, n, v, i). n - i)") auto

declare insert_pos.simps [simp del]

fun shift_up :: "'x list \<Rightarrow> nat \<Rightarrow> nat \<Rightarrow> 'x list" where
  "shift_up t i 0 = t"
| "shift_up t i (Suc j) = (if Suc j > i then shift_up (t[Suc j := t ! j]) i j else t)"

definition pqueue_insert :: "('v :: linorder) pqueue \<Rightarrow> int \<Rightarrow> 'v \<Rightarrow> 'v pqueue" where
  "pqueue_insert p e v =
     (let p = (if pq_cnt p + 1 > pq_sz p then pqueue_resize p (pq_cnt p + 5) else p);
          i = insert_pos (pq_a p) (pq_cnt p) v 0;
          t = (if i < pq_cnt p then shift_up (pq_a p) i (pq_cnt p) else pq_a p)
      in p\<lparr>pq_a := t[i := Some (e, v)], pq_cnt := pq_cnt p + 1\<rparr>)"

fun shift_down :: "'x list \<Rightarrow> nat \<Rightarrow> nat \<Rightarrow> 'x list" where
  "shift_down t i 0 = t"
| "shift_down t i (Suc n) = shift_down (t[i := t ! (i + 1)]) (i + 1) n"

definition pqueue_extract :: "'v pqueue \<Rightarrow> int \<times> 'v pqueue" where
  "pqueue_extract p =
     (if pq_cnt p = 0 then (0, p)
      else ((case pq_a p ! 0 of Some (e, _) \<Rightarrow> e | None \<Rightarrow> 0),
            p\<lparr>pq_a := shift_down (pq_a p) 0 (pq_cnt p - 1), pq_cnt := pq_cnt p - 1\<rparr>))"

section \<open>The abstract queue\<close>

text \<open>The queue a state stands for; well-formed states have all their live slots written.\<close>

definition queue_is :: "('v :: linorder) pqueue \<Rightarrow> 'v queue_element list \<Rightarrow> bool" where
  "queue_is p xs \<longleftrightarrow> length (pq_a p) = pq_sz p \<and> pq_cnt p \<le> pq_sz p \<and> take (pq_cnt p) (pq_a p) = map Some xs"

definition enqueue :: "('v :: linorder) queue_element list \<Rightarrow> int \<Rightarrow> 'v \<Rightarrow> 'v queue_element list" where
  "enqueue xs e v = takeWhile (\<lambda>x. \<not> snd x > v) xs @ (e, v) # dropWhile (\<lambda>x. \<not> snd x > v) xs"

lemma enqueue_Cons: "enqueue (x # xs) e v = (if snd x > v then (e, v) # x # xs else x # enqueue xs e v)"
  by (simp add: enqueue_def)

lemma enqueue_Nil: "enqueue [] e v = [(e, v)]"
  by (simp add: enqueue_def)

lemma mset_enqueue: "mset (enqueue xs e v) = add_mset (e, v) (mset xs)"
  by (induction xs) (simp_all add: enqueue_Cons enqueue_Nil)

lemma set_enqueue: "set (enqueue xs e v) = insert (e, v) (set xs)"
  using mset_enqueue [of xs e v] by (metis set_mset_add_mset_insert set_mset_mset)

lemma sorted_enqueue: "sorted (map snd xs) \<Longrightarrow> sorted (map snd (enqueue xs e v))"
proof (induction xs)
  case (Cons x xs)
  then show ?case by (auto simp: enqueue_Cons set_enqueue)
qed (simp add: enqueue_def)

lemma filter_enqueue:
  "sorted (map snd xs) \<Longrightarrow> filter (\<lambda>x. k = snd x) (enqueue xs e v) = filter (\<lambda>x. k = snd x) (xs @ [(e, v)])"
proof (induction xs)
  case (Cons x xs)
  show ?case
  proof (cases "snd x > v")
    case True
    then have "filter (\<lambda>y. v = snd y) (x # xs) = []"
      using Cons.prems by (auto simp: filter_empty_conv)
    then show ?thesis
      using True by (cases "k = v") (simp_all add: enqueue_Cons split: if_splits)
  next
    case False
    then have "enqueue (x # xs) e v = x # enqueue xs e v" by (simp add: enqueue_Cons)
    moreover have "filter (\<lambda>x. k = snd x) (enqueue xs e v) = filter (\<lambda>x. k = snd x) (xs @ [(e, v)])"
      using Cons by simp
    ultimately show ?thesis by (simp only: filter.simps append_Cons)
  qed
qed (simp add: enqueue_def)

text \<open>Enqueueing one after the other sorts, and keeps the order of elements with the same value.\<close>

lemma enqueue_all:
  "sort_key snd xs = foldl (\<lambda>q (e, v). enqueue q e v) [] xs"
proof -
  have "mset (foldl (\<lambda>q (e, v). enqueue q e v) [] xs) = mset xs \<and>
        sorted (map snd (foldl (\<lambda>q (e, v). enqueue q e v) [] xs)) \<and>
        (\<forall>k. filter (\<lambda>x. k = snd x) (foldl (\<lambda>q (e, v). enqueue q e v) [] xs) = filter (\<lambda>x. k = snd x) xs)"
    by (induction xs rule: rev_induct) (auto simp: mset_enqueue sorted_enqueue filter_enqueue split: prod.splits)
  then show ?thesis by (intro properties_for_sort_key) auto
qed

section \<open>Refinement\<close>

lemma nth_live:
  assumes "take n t = map Some xs" "n \<le> length t" "i < n"
  shows "t ! i = Some (xs ! i)"
proof -
  have "length xs = n" using assms(1,2) by (metis length_map length_take min_absorb2)
  then show ?thesis using assms by (metis nth_map nth_take)
qed

lemma insert_pos_spec:
  assumes "take n t = map Some xs" "n \<le> length t" "i \<le> n"
  shows "insert_pos t n v i = i + length (takeWhile (\<lambda>x. \<not> snd x > v) (drop i xs))"
  using assms
proof (induction t n v i rule: insert_pos.induct)
  case (1 t n v i)
  have len: "length xs = n" using "1.prems" by (metis length_map length_take min_absorb2)
  show ?case
  proof (cases "i < n")
    case True
    then have ti: "t ! i = Some (xs ! i)" using nth_live "1.prems" by blast
    have d: "drop i xs = xs ! i # drop (Suc i) xs" using True len by (simp add: Cons_nth_drop_Suc)
    show ?thesis
      using "1.IH" "1.prems" True ti by (subst insert_pos.simps) (auto simp: d split: prod.splits)
  next
    case False
    then show ?thesis using "1.prems" len by (simp add: insert_pos.simps)
  qed
qed

lemma length_shift_up [simp]: "length (shift_up t i j) = length t"
  by (induction t i j rule: shift_up.induct) auto

lemma nth_shift_up:
  "j < length t \<Longrightarrow> i \<le> j \<Longrightarrow> k < length t \<Longrightarrow>
   shift_up t i j ! k = (if i < k \<and> k \<le> j then t ! (k - 1) else t ! k)"
proof (induction t i j arbitrary: k rule: shift_up.induct)
  case (2 t i j)
  show ?case
  proof (cases "i = Suc j")
    case False
    then show ?thesis
      using 2 by (cases "k = Suc j") (auto simp: nth_list_update)
  qed auto
qed simp

lemma length_shift_down [simp]: "length (shift_down t i n) = length t"
  by (induction t i n rule: shift_down.induct) auto

lemma nth_shift_down:
  "i + n < length t \<Longrightarrow> k < length t \<Longrightarrow>
   shift_down t i n ! k = (if i \<le> k \<and> k < i + n then t ! (k + 1) else t ! k)"
proof (induction t i n arbitrary: k rule: shift_down.induct)
  case (2 t i n)
  then show ?case by (auto simp: nth_list_update)
qed auto

lemma queue_is_grow:
  assumes "queue_is p xs"
  shows "queue_is (pqueue_resize p (pq_cnt p + 5)) xs"
proof -
  have "take (pq_cnt p) (take (pq_cnt p + 5) (pq_a p)) = map Some xs"
    using assms by (simp add: queue_is_def)
  moreover have "pq_cnt p \<le> length (take (pq_cnt p + 5) (pq_a p))"
    using assms by (simp add: queue_is_def)
  ultimately show ?thesis
    using assms by (auto simp: queue_is_def pqueue_resize_def)
qed

lemma pqueue_insert_refines:
  assumes "queue_is p xs"
  shows "queue_is (pqueue_insert p e v) (enqueue xs e v)"
proof -
  define q where "q = (if pq_cnt p + 1 > pq_sz p then pqueue_resize p (pq_cnt p + 5) else p)"
  have q: "queue_is q xs" "pq_cnt q + 1 \<le> pq_sz q"
    using assms queue_is_grow by (auto simp: q_def pqueue_resize_def)
  then have len: "length (pq_a q) = pq_sz q" "take (pq_cnt q) (pq_a q) = map Some xs" "pq_cnt q < length (pq_a q)"
    by (simp_all add: queue_is_def)
  then have n: "length xs = pq_cnt q" by (metis length_map length_take less_imp_le min_absorb2)
  define i where "i = length (takeWhile (\<lambda>x. \<not> snd x > v) xs)"
  have pos: "insert_pos (pq_a q) (pq_cnt q) v 0 = i"
    using insert_pos_spec [OF len(2), of 0] len(3) by (simp add: i_def)
  have i: "i \<le> pq_cnt q" using length_takeWhile_le [of _ xs] n by (simp add: i_def)
  have spec: "enqueue xs e v = take i xs @ (e, v) # drop i xs"
    unfolding enqueue_def i_def by (metis takeWhile_eq_take dropWhile_eq_drop)
  let ?t = "(if i < pq_cnt q then shift_up (pq_a q) i (pq_cnt q) else pq_a q)"
  have t: "?t ! k = (if i < k then Some (xs ! (k - 1)) else Some (xs ! k))" if "k \<le> pq_cnt q" "k \<noteq> i" for k
    using that i len nth_live [OF len(2)] by (auto simp: nth_shift_up)
  have "take (pq_cnt q + 1) (?t[i := Some (e, v)]) = map Some (enqueue xs e v)"
  proof (rule nth_equalityI)
    show "length (take (pq_cnt q + 1) (?t[i := Some (e, v)])) = length (map Some (enqueue xs e v))"
      using len(3) n i by (simp add: spec)
    fix k assume "k < length (take (pq_cnt q + 1) (?t[i := Some (e, v)]))"
    then have "k \<le> pq_cnt q" by simp
    then show "take (pq_cnt q + 1) (?t[i := Some (e, v)]) ! k = map Some (enqueue xs e v) ! k"
      using t [of k] i len(3) n by (cases "k = i") (auto simp: spec nth_append nth_Cons' min_absorb2)
  qed
  then show ?thesis
    using len q(2) unfolding pqueue_insert_def q_def [symmetric]
    by (auto simp: Let_def pos queue_is_def split: if_splits)
qed

lemma pqueue_extract_refines:
  assumes "queue_is p xs"
  shows "case pqueue_extract p of (e, p') \<Rightarrow> e = (if xs = [] then 0 else fst (hd xs)) \<and> queue_is p' (tl xs)"
proof (cases xs)
  case Nil
  then show ?thesis using assms by (auto simp: pqueue_extract_def queue_is_def)
next
  case (Cons x ys)
  have len: "length (pq_a p) = pq_sz p" "take (pq_cnt p) (pq_a p) = map Some xs" "pq_cnt p \<le> length (pq_a p)"
    using assms by (simp_all add: queue_is_def)
  then have n: "length xs = pq_cnt p" by (metis length_map length_take min_absorb2)
  have live: "pq_a p ! k = Some (xs ! k)" if "k < pq_cnt p" for k
    using nth_live [OF len(2,3) that] .
  have "take (pq_cnt p - 1) (shift_down (pq_a p) 0 (pq_cnt p - 1)) = map Some (tl xs)"
    using n len(3) live Cons by (intro nth_equalityI) (auto simp: nth_shift_down nth_tl)
  then show ?thesis
    using Cons n len live [of 0] by (cases x) (auto simp: pqueue_extract_def queue_is_def)
qed

section \<open>Properties\<close>

text \<open>C17: the array code implements a sorted queue.  From a state that stands for \<open>xs\<close>, an insertion
  leads to the state for \<open>xs\<close> with the element put in front of the first larger value, and an
  extraction returns the id of the head (0 for the empty queue) and leads to the state for the tail.\<close>

theorem pqueue_refines:
  assumes "queue_is p xs"
  shows "queue_is (pqueue_insert p e v) (enqueue xs e v) \<and>
    (case pqueue_extract p of (e', p') \<Rightarrow> e' = (if xs = [] then 0 else fst (hd xs)) \<and> queue_is p' (tl xs))"
  using pqueue_insert_refines [OF assms] pqueue_extract_refines [OF assms] by simp

lemma pqueue_init_is: "queue_is pqueue_init []"
  by (simp add: queue_is_def pqueue_init_def)

lemma pqueue_refines_witness: "queue_is (pqueue_insert pqueue_init 4 (2 :: int)) [(4, 2)]"
  using pqueue_refines [OF pqueue_init_is, of 4 "2 :: int"] by (simp add: enqueue_def)

text \<open>Taking out \<open>n\<close> elements.\<close>

fun pqueue_drain :: "nat \<Rightarrow> 'v pqueue \<Rightarrow> int list" where
  "pqueue_drain 0 p = []"
| "pqueue_drain (Suc n) p = (case pqueue_extract p of (e, p') \<Rightarrow> e # pqueue_drain n p')"

lemma pqueue_drain_is: "queue_is p xs \<Longrightarrow> pqueue_drain (length xs) p = map fst xs"
proof (induction xs arbitrary: p)
  case (Cons x xs)
  then show ?case using pqueue_extract_refines [OF Cons.prems] by (auto split: prod.splits)
qed simp

lemma pqueue_insert_all:
  "queue_is (foldl (\<lambda>p (e, v). pqueue_insert p e v) pqueue_init xs) (foldl (\<lambda>q (e, v). enqueue q e v) [] xs)"
  by (induction xs rule: rev_induct) (auto simp: pqueue_init_is pqueue_insert_refines split: prod.splits)

text \<open>C18: filling the queue and emptying it again is a stable sort by value: the ids come out in
  ascending order of value, and those of equal value in the order of their insertion.\<close>

theorem pqueue_sorts:
  "pqueue_drain (length xs) (foldl (\<lambda>p (e, v). pqueue_insert p e v) pqueue_init xs) = map fst (sort_key snd xs)"
  using pqueue_drain_is [OF pqueue_insert_all [of xs]] by (simp flip: enqueue_all)

end
