(* ===== verification/Fossil_Encode.thy ===== *)
theory Fossil_Encode
  imports Coopy_Prelude
begin

text \<open>
  The text encodings of \<^verbatim>\<open>src/ssfossil/fossil/src/encode.c\<close>: HTML and HTTP escaping, the "fossilize"
  escaping of record headers, base 64 and base 16.

  A C string is the list of its bytes; reading behind the list gives the terminating NUL.  The
  encoders allocate by a first pass that counts, which is a definition of its own; the decoders
  that work in place are modelled in place, with their read and write positions.  Character
  classes are those of the C locale.
\<close>

section \<open>Character classes and strings\<close>

definition strlen :: "byte list \<Rightarrow> nat" where
  "strlen z = length (takeWhile (\<lambda>c. c \<noteq> 0) z)"

definition isalnum :: "byte \<Rightarrow> bool" where
  "isalnum c \<longleftrightarrow> 0x30 \<le> c \<and> c \<le> 0x39 \<or> 0x41 \<le> c \<and> c \<le> 0x5a \<or> 0x61 \<le> c \<and> c \<le> 0x7a"

definition isspace :: "byte \<Rightarrow> bool" where
  "isspace c \<longleftrightarrow> c = 0x20 \<or> 0x09 \<le> c \<and> c \<le> 0x0d"

text \<open>The length argument of the encoders: negative means up to the NUL.\<close>

definition arg_len :: "byte list \<Rightarrow> int \<Rightarrow> nat" where
  "arg_len z n = (if n < 0 then strlen z else nat n)"

section \<open>htmlize\<close>

definition html_size :: "byte \<Rightarrow> nat" where
  "html_size c = (if c = 0x3c then 4 else if c = 0x3e then 4 else if c = 0x26 then 5 else if c = 0x22 then 6 else 1)"

fun html_count :: "byte list \<Rightarrow> nat \<Rightarrow> nat" where
  "html_count (c # z) (Suc n) = (if c = 0 then 0 else html_size c + html_count z n)"
| "html_count _ _ = 0"

definition html_char :: "byte \<Rightarrow> byte list" where
  "html_char c = (if c = 0x3c then chars_of ''&lt;'' else if c = 0x3e then chars_of ''&gt;''
     else if c = 0x26 then chars_of ''&amp;'' else if c = 0x22 then chars_of ''&quot;'' else [c])"

fun htmlize_loop :: "byte list \<Rightarrow> nat \<Rightarrow> byte list" where
  "htmlize_loop (c # z) (Suc n) = (if c = 0 then [] else html_char c @ htmlize_loop z n)"
| "htmlize_loop _ _ = []"

definition htmlize :: "byte list \<Rightarrow> int \<Rightarrow> byte list" where
  "htmlize zIn n = htmlize_loop zIn (arg_len zIn n)"

section \<open>HTTP encoding\<close>

definition IsSafeChar :: "byte \<Rightarrow> byte \<Rightarrow> bool" where
  "IsSafeChar other c \<longleftrightarrow> isalnum c \<or> c = 0x2e \<or> c = 0x24 \<or> c = 0x7e \<or> c = 0x2d \<or> c = 0x5f \<or> c = other"

fun http_count :: "byte \<Rightarrow> byte list \<Rightarrow> nat \<Rightarrow> nat" where
  "http_count other (c # z) (Suc n) =
     (if c = 0 then 0 else (if IsSafeChar other c \<or> c = 0x20 then 1 else 3) + http_count other z n)"
| "http_count other _ _ = 0"

definition hex_upper :: "byte list" where
  "hex_upper = chars_of ''0123456789ABCDEF''"

definition http_char :: "byte \<Rightarrow> byte \<Rightarrow> byte list" where
  "http_char other c = (if IsSafeChar other c then [c] else if c = 0x20 then [0x2b]
     else [0x25, hex_upper ! unat (drop_bit 4 c AND 0xf), hex_upper ! unat (c AND 0xf)])"

fun http_loop :: "byte \<Rightarrow> byte list \<Rightarrow> nat \<Rightarrow> byte list" where
  "http_loop other (c # z) (Suc n) = (if c = 0 then [] else http_char other c @ http_loop other z n)"
| "http_loop other _ _ = []"

definition EncodeHttp :: "byte list \<Rightarrow> int \<Rightarrow> bool \<Rightarrow> byte list" where
  "EncodeHttp zIn n encodeSlash =
     (let other = (if encodeSlash then 0x61 else 0x2f) in http_loop other zIn (arg_len zIn n))"

definition httpize :: "byte list \<Rightarrow> int \<Rightarrow> byte list" where
  "httpize z n = EncodeHttp z n True"

definition urlize :: "byte list \<Rightarrow> int \<Rightarrow> byte list" where
  "urlize z n = EncodeHttp z n False"

definition AsciiToHex :: "byte \<Rightarrow> byte" where
  "AsciiToHex c = (if 0x61 \<le> c \<and> c \<le> 0x66 then c + 10 - 0x61
     else if 0x41 \<le> c \<and> c \<le> 0x46 then c + 10 - 0x41
     else if 0x30 \<le> c \<and> c \<le> 0x39 then c - 0x30 else 0)"

text \<open>In place: \<open>z\<close> with its NUL, read position \<open>i\<close>, write position \<open>j\<close>.  A \<open>%\<close> with less than two
  characters behind it writes nothing, and the position is left as it is.\<close>

function dehttpize_loop :: "byte list \<Rightarrow> nat \<Rightarrow> nat \<Rightarrow> byte list \<times> nat" where
  "dehttpize_loop z i j =
     (if byte_at z i = 0 then (z[j := 0], j)
      else if z ! i = 0x25 then
        (if byte_at z (i + 1) \<noteq> 0 \<and> byte_at z (i + 2) \<noteq> 0
         then dehttpize_loop (z[j := push_bit 4 (AsciiToHex (z ! (i + 1))) OR AsciiToHex (z ! (i + 2))]) (i + 3) (j + 1)
         else dehttpize_loop z (i + 1) (j + 1))
      else if z ! i = 0x2b then dehttpize_loop (z[j := 0x20]) (i + 1) (j + 1)
      else dehttpize_loop (z[j := z ! i]) (i + 1) (j + 1))"
  by pat_completeness auto
termination
  by (relation "measure (\<lambda>(z, i, j). length z - i)") (auto simp: byte_at_def split: if_splits)

declare dehttpize_loop.simps [simp del]

definition dehttpize :: "byte list \<Rightarrow> byte list \<times> nat" where
  "dehttpize z = dehttpize_loop z 0 0"

section \<open>fossilize\<close>

definition fossil_special :: "byte \<Rightarrow> bool" where
  "fossil_special c \<longleftrightarrow> c = 0 \<or> c = 0x20 \<or> c = 0x0a \<or> c = 0x09 \<or> c = 0x0d \<or> c = 0x0c \<or> c = 0x0b \<or> c = 0x5c"

definition fossil_count :: "byte list \<Rightarrow> nat" where
  "fossil_count z = length (filter fossil_special z) + length z"

definition fossil_char :: "byte \<Rightarrow> byte list" where
  "fossil_char c =
     (if c = 0 then [0x5c, 0x30]
      else if c = 0x5c then [0x5c, 0x5c]
      else if isspace c then
        [0x5c, if c = 0x0a then 0x6e else if c = 0x20 then 0x73 else if c = 0x09 then 0x74
               else if c = 0x0d then 0x72 else if c = 0x0b then 0x76 else if c = 0x0c then 0x66 else c]
      else [c])"

definition fossilize :: "byte list \<Rightarrow> int \<Rightarrow> byte list" where
  "fossilize zIn nIn = concat (map fossil_char (take (arg_len zIn nIn) zIn))"

definition unescape :: "byte \<Rightarrow> byte" where
  "unescape c = (if c = 0x6e then 0x0a else if c = 0x73 then 0x20 else if c = 0x74 then 0x09
     else if c = 0x72 then 0x0d else if c = 0x76 then 0x0b else if c = 0x66 then 0x0c
     else if c = 0x30 then 0 else if c = 0x5c then 0x5c else c)"

text \<open>In place; returns the buffer and the write position, which the code drops.\<close>

function defossilize_loop :: "byte list \<Rightarrow> nat \<Rightarrow> nat \<Rightarrow> byte list \<times> nat" where
  "defossilize_loop z i j =
     (if byte_at z i = 0 then (if byte_at z j \<noteq> 0 then z[j := 0] else z, j)
      else if z ! i = 0x5c \<and> byte_at z (i + 1) \<noteq> 0
        then defossilize_loop (z[j := unescape (z ! (i + 1))]) (i + 2) (j + 1)
      else defossilize_loop (z[j := z ! i]) (i + 1) (j + 1))"
  by pat_completeness auto
termination
  by (relation "measure (\<lambda>(z, i, j). length z - i)") (auto simp: byte_at_def split: if_splits)

declare defossilize_loop.simps [simp del]

definition defossilize :: "byte list \<Rightarrow> byte list" where
  "defossilize z = fst (defossilize_loop z 0 0)"

section \<open>Base 64\<close>

definition zBase :: "byte list" where
  "zBase = chars_of ''ABCDEFGHIJKLMNOPQRSTUVWXYZabcdefghijklmnopqrstuvwxyz0123456789+/''"

abbreviation base_char :: "byte \<Rightarrow> byte" where
  "base_char v \<equiv> zBase ! unat v"

fun encode64_loop :: "byte list \<Rightarrow> byte list" where
  "encode64_loop (x # y # w # z) =
     base_char (drop_bit 2 x AND 0x3f) # base_char ((push_bit 4 x AND 0x30) OR (drop_bit 4 y AND 0x0f)) #
     base_char ((push_bit 2 y AND 0x3c) OR (drop_bit 6 w AND 0x03)) # base_char (w AND 0x3f) # encode64_loop z"
| "encode64_loop [x, y] =
     [base_char (drop_bit 2 x AND 0x3f), base_char ((push_bit 4 x AND 0x30) OR (drop_bit 4 y AND 0x0f)),
      base_char (push_bit 2 y AND 0x3c), 0x3d]"
| "encode64_loop [x] = [base_char (drop_bit 2 x AND 0x3f), base_char (push_bit 4 x AND 0x30), 0x3d, 0x3d]"
| "encode64_loop [] = []"

definition encode64_alloc :: "nat \<Rightarrow> nat" where
  "encode64_alloc nData = nData * 4 div 3 + 8"

definition encode64 :: "byte list \<Rightarrow> int \<Rightarrow> byte list" where
  "encode64 zData nData = encode64_loop (take (if nData \<le> 0 then strlen zData else nat nData) zData)"

definition trans_table :: "byte list" where
  "trans_table = foldl (\<lambda>t i. t[unat (zBase ! i AND 0x7f) := of_nat i]) (replicate 128 0) [0..<length zBase]"

definition trans :: "byte \<Rightarrow> byte" where
  "trans c = trans_table ! unat (c AND 0x7f)"

fun decode64_loop :: "byte list \<Rightarrow> byte list" where
  "decode64_loop (p # q # r # s # z) =
     (let a = trans p; b = trans q; c = trans r; d = trans s
      in ((push_bit 2 a AND 0xfc) OR (drop_bit 4 b AND 0x03)) # ((push_bit 4 b AND 0xf0) OR (drop_bit 2 c AND 0x0f)) #
         ((push_bit 6 c AND 0xc0) OR (d AND 0x3f)) # decode64_loop z)"
| "decode64_loop [p, q, r] =
     (let a = trans p; b = trans q; c = trans r
      in [(push_bit 2 a AND 0xfc) OR (drop_bit 4 b AND 0x03), (push_bit 4 b AND 0xf0) OR (drop_bit 2 c AND 0x0f)])"
| "decode64_loop [p, q] = (let a = trans p; b = trans q in [(push_bit 2 a AND 0xfc) OR (drop_bit 4 b AND 0x03)])"
| "decode64_loop _ = []"

definition strip_pad :: "byte list \<Rightarrow> byte list" where
  "strip_pad z = rev (dropWhile (\<lambda>c. c = 0x3d) (rev z))"

definition decode64_alloc :: "nat \<Rightarrow> nat" where
  "decode64_alloc n64 = n64 * 3 div 4 + 4"

definition decode64 :: "byte list \<Rightarrow> byte list" where
  "decode64 z64 = decode64_loop (strip_pad (take (strlen z64) z64))"

section \<open>Base 16\<close>

definition zEncode :: "byte list" where
  "zEncode = chars_of ''0123456789abcdef''"

definition encode16 :: "byte list \<Rightarrow> byte list" where
  "encode16 pIn = concat (map (\<lambda>c. [zEncode ! unat (drop_bit 4 c), zEncode ! unat (c AND 0xf)]) pIn)"

definition zDecode :: "byte list" where
  "zDecode =
     replicate 48 64 @
     [ 0,  1,  2,  3,  4,  5,  6,  7,   8,  9, 64, 64, 64, 64, 64, 64,
      64, 10, 11, 12, 13, 14, 15, 64,  64,  1, 64, 64,  1, 64, 64,  0,
      64, 64, 64, 64, 64, 64, 64, 64,  64, 64, 64, 64, 64, 64, 64, 64,
      64, 10, 11, 12, 13, 14, 15, 64,  64,  1, 64, 64,  1, 64, 64,  0,
      64, 64, 64, 64, 64, 64, 64, 64,  64, 64, 64, 64, 64, 64, 64, 64] @
     replicate 128 64"

text \<open>The return code (\<open>True\<close>: error) and what has been written to the output.\<close>

fun decode16_loop :: "byte list \<Rightarrow> bool \<times> byte list" where
  "decode16_loop (x # y # z) =
     (if x AND 0x80 \<noteq> 0 \<or> zDecode ! unat x = 64 then (True, [])
      else if y AND 0x80 \<noteq> 0 \<or> zDecode ! unat y = 64 then (True, [])
      else case decode16_loop z of (rc, out) \<Rightarrow> (rc, (push_bit 4 (zDecode ! unat x) + zDecode ! unat y) # out))"
| "decode16_loop _ = (False, [])"

definition decode16 :: "byte list \<Rightarrow> bool \<times> byte list" where
  "decode16 zIn = (if odd (length zIn) then (True, []) else decode16_loop zIn)"

fun validate16 :: "byte list \<Rightarrow> nat \<Rightarrow> bool" where
  "validate16 z 0 = True"
| "validate16 z (Suc n) = (if zDecode ! unat (byte_at z 0) > 63 then byte_at z 0 = 0 else validate16 (drop 1 z) n)"

text \<open>In place, front to back; a negative count never runs out.\<close>

fun canonical16 :: "byte list \<Rightarrow> int \<Rightarrow> byte list" where
  "canonical16 [] n = []"
| "canonical16 (c # z) n = (if c = 0 \<or> n = 0 then c # z
     else zEncode ! unat (zDecode ! unat (c AND 0x7f) AND 0x1f) # canonical16 z (n - 1))"

end
