(* ===== verification/Fossil_Encode_Correct.thy ===== *)
theory Fossil_Encode_Correct
  imports Fossil_Encode
begin

text \<open>
  The decoders of \<^verbatim>\<open>encode.c\<close> undo its encoders, the counting passes allocate exactly what is
  written, and the canonical form of a base-16 string is the encoding of what it decodes to.
\<close>

section \<open>Finite facts about bytes\<close>

lemma and_0xf: "(c :: byte) AND 0xf = take_bit 4 c"
  by (simp add: take_bit_eq_mask mask_eq_exp_minus_1)

lemma low_nibble_less: "unat (take_bit 4 (c :: byte)) < 16"
  using take_bit_nat_less_exp [of 4 "unat c"] by (simp add: unsigned_take_bit_eq)

lemma high_nibble_less: "unat (drop_bit 4 (c :: byte)) < 16"
proof -
  have "unat c < 2 ^ LENGTH(8)" by (rule unsigned_less)
  then show ?thesis by (simp add: unat_drop_bit_eq drop_bit_eq_div unat_div_distrib)
qed

lemma high_nibble_mask: "drop_bit 4 (c :: byte) AND 0xf = drop_bit 4 c"
  unfolding and_0xf by (rule bit_word_eqI) (auto simp: bit_simps dest: bit_imp_le_length)

lemma join_nibbles: "push_bit 4 (drop_bit 4 (c :: byte)) + take_bit 4 c = c"
  by (rule bits_ident)

lemma or_nibbles: "push_bit 4 (drop_bit 4 (c :: byte)) OR take_bit 4 c = c"
  using disjunctive_add [of "push_bit 4 (drop_bit 4 c)" "take_bit 4 c"] join_nibbles [of c]
  by (simp add: bit_simps)

lemma zEncode_digit:
  assumes "unat v < 16"
  shows "zDecode ! unat (zEncode ! unat v) = v" "zEncode ! unat v AND 0x80 = 0" "v \<noteq> 64" "zEncode ! unat v \<noteq> 0"
proof -
  have "list_all (\<lambda>n. zDecode ! unat (zEncode ! n) = of_nat n \<and> zEncode ! n AND 0x80 = 0 \<and> zEncode ! n \<noteq> 0) [0..<16]"
    by code_simp
  then show "zDecode ! unat (zEncode ! unat v) = v" "zEncode ! unat v AND 0x80 = 0" "zEncode ! unat v \<noteq> 0"
    using assms by (auto simp: list_all_iff)
  show "v \<noteq> 64" using assms by auto
qed

lemma hex_upper_digit:
  assumes "unat v < 16"
  shows "AsciiToHex (hex_upper ! unat v) = v" "hex_upper ! unat v \<noteq> 0"
proof -
  have "list_all (\<lambda>n. AsciiToHex (hex_upper ! n) = of_nat n \<and> hex_upper ! n \<noteq> 0) [0..<16]"
    by code_simp
  then show "AsciiToHex (hex_upper ! unat v) = v" "hex_upper ! unat v \<noteq> 0"
    using assms by (auto simp: list_all_iff)
qed

lemma zBase_eq: "zBase = [
     65, 66, 67, 68, 69, 70, 71, 72, 73, 74, 75, 76, 77, 78, 79, 80,
     81, 82, 83, 84, 85, 86, 87, 88, 89, 90, 97, 98, 99, 100, 101, 102,
     103, 104, 105, 106, 107, 108, 109, 110, 111, 112, 113, 114, 115, 116, 117, 118,
     119, 120, 121, 122, 48, 49, 50, 51, 52, 53, 54, 55, 56, 57, 43, 47]"
  by (simp add: zBase_def chars_of_def)

lemma trans_table_eq: "trans_table = [
     0, 0, 0, 0, 0, 0, 0, 0, 0, 0, 0, 0, 0, 0, 0, 0,
     0, 0, 0, 0, 0, 0, 0, 0, 0, 0, 0, 0, 0, 0, 0, 0,
     0, 0, 0, 0, 0, 0, 0, 0, 0, 0, 0, 62, 0, 0, 0, 63,
     52, 53, 54, 55, 56, 57, 58, 59, 60, 61, 0, 0, 0, 0, 0, 0,
     0, 0, 1, 2, 3, 4, 5, 6, 7, 8, 9, 10, 11, 12, 13, 14,
     15, 16, 17, 18, 19, 20, 21, 22, 23, 24, 25, 0, 0, 0, 0, 0,
     0, 26, 27, 28, 29, 30, 31, 32, 33, 34, 35, 36, 37, 38, 39, 40,
     41, 42, 43, 44, 45, 46, 47, 48, 49, 50, 51, 0, 0, 0, 0, 0]"
  by code_simp

lemma trans_zBase:
  assumes "unat v < 64"
  shows "trans (zBase ! unat v) = v" "zBase ! unat v \<noteq> 0x3d" "zBase ! unat v \<noteq> 0"
proof -
  have "list_all (\<lambda>n. trans (zBase ! n) = of_nat n \<and> zBase ! n \<noteq> 0x3d \<and> zBase ! n \<noteq> 0) [0..<64]"
    unfolding trans_def trans_table_eq zBase_eq by code_simp
  then show "trans (zBase ! unat v) = v" "zBase ! unat v \<noteq> 0x3d" "zBase ! unat v \<noteq> 0"
    using assms by (auto simp: list_all_iff)
qed

section \<open>Base 16\<close>

lemma decode16_encode16: "decode16_loop (encode16 bs) = (False, bs)"
proof (induction bs)
  case (Cons c bs)
  then show ?case
    using zEncode_digit [OF high_nibble_less [of c]] zEncode_digit [OF low_nibble_less [of c]]
    by (simp add: encode16_def and_0xf join_nibbles)
qed (simp add: encode16_def)

lemma length_encode16: "length (encode16 bs) = 2 * length bs"
  by (induction bs) (simp_all add: encode16_def)

interpretation base16: codec "\<lambda>_. True" encode16 "\<lambda>z. snd (decode16 z)"
  by unfold_locales (simp add: decode16_def decode16_encode16 length_encode16)

text \<open>A base-16 character: its value is below 16; every other byte has the value 64.\<close>

definition is_hex :: "byte \<Rightarrow> bool" where
  "is_hex c \<longleftrightarrow> zDecode ! unat c \<noteq> 64"

lemma unat_byte_less: "unat (c :: byte) < 256"
proof -
  have "unat c < 2 ^ LENGTH(8)" by (rule unsigned_less)
  then show ?thesis by simp
qed

lemma length_zDecode [simp]: "length zDecode = 256"
  by (simp add: zDecode_def)

lemma zDecode_value: "zDecode ! unat (c :: byte) = 64 \<or> unat (zDecode ! unat c) < 16"
proof -
  have "list_all (\<lambda>v. v = 64 \<or> unat v < 16) zDecode"
    by (simp add: zDecode_def list_all_iff)
  then show ?thesis using unat_byte_less [of c] by (auto simp: list_all_iff)
qed

lemma bit7: "bit (c :: byte) 7 \<longleftrightarrow> 128 \<le> unat c"
proof -
  have "bit c 7 \<longleftrightarrow> odd (unat c div 128)"
    using bit_unsigned_iff [of c 7, where 'a = nat] by (simp add: bit_iff_odd)
  moreover have "unat c div 128 < 2" using unat_byte_less [of c] by simp
  ultimately show ?thesis by (auto simp: less_2_cases_iff)
qed

lemma sign_bit: "c AND 0x80 = 0 \<longleftrightarrow> unat (c :: byte) < 128"
proof (cases "bit c 7")
  case True
  then have "bit (c AND 0x80) 7" by (simp add: bit_simps)
  then show ?thesis using True bit7 [of c] by auto
next
  case False
  have "c AND 0x80 = 0"
    using False by (intro bit_word_eqI) (auto simp: bit_simps numeral_eq_Suc less_Suc_eq)
  then show ?thesis using False bit7 [of c] by simp
qed

lemma not_sign_hex: "is_hex c \<Longrightarrow> c AND 0x80 = 0"
proof (rule ccontr)
  assume hex: "is_hex c" and "c AND 0x80 \<noteq> 0"
  then have high: "128 \<le> unat c" by (simp add: sign_bit)
  have "drop 128 zDecode = replicate 128 64" by (simp add: zDecode_def)
  then have "drop 128 zDecode ! (unat c - 128) = 64"
    using unat_byte_less [of c] high by (simp only: nth_replicate)
  then show False
    using high hex unat_byte_less [of c] by (simp add: is_hex_def)
qed

lemma low7: "unat (c :: byte) < 128 \<Longrightarrow> c AND 0x7f = c"
proof -
  assume "unat c < 128"
  then have "unat (take_bit 7 c) = unat c"
    by (simp add: unsigned_take_bit_eq take_bit_nat_eq_self)
  then have "take_bit 7 c = c" by (rule unsigned_word_eqI)
  then show ?thesis by (simp add: take_bit_eq_mask mask_eq_exp_minus_1)
qed

lemma unat_pair:
  assumes "unat (v :: byte) < 16" "unat (w :: byte) < 16"
  shows "unat (push_bit 4 v + w) = unat v * 16 + unat w"
  using assms by (simp add: push_bit_eq_mult unat_word_ariths)

lemma split_pair:
  assumes "unat (v :: byte) < 16" "unat (w :: byte) < 16"
  shows "drop_bit 4 (push_bit 4 v + w) = v" "(push_bit 4 v + w) AND 0xf = w"
proof -
  have "unat (drop_bit 4 (push_bit 4 v + w)) = unat v"
    using assms by (simp add: unat_drop_bit_eq drop_bit_eq_div unat_div_distrib unat_pair)
  then show "drop_bit 4 (push_bit 4 v + w) = v" by (rule unsigned_word_eqI)
  have "unat (take_bit 4 (push_bit 4 v + w)) = unat w"
    using assms unfolding unsigned_take_bit_eq by (simp add: unat_pair take_bit_eq_mod)
  then have "take_bit 4 (push_bit 4 v + w) = w" by (rule unsigned_word_eqI)
  then show "(push_bit 4 v + w) AND 0xf = w" by (simp add: and_0xf)
qed

lemma canonical_char:
  assumes "is_hex c"
  shows "zEncode ! unat (zDecode ! unat (c AND 0x7f) AND 0x1f) = zEncode ! unat (zDecode ! unat c)"
proof -
  have v: "unat (zDecode ! unat c) < 16" using assms zDecode_value by (auto simp: is_hex_def)
  have "unat (take_bit 5 (zDecode ! unat c)) = unat (zDecode ! unat c)"
    using v by (simp add: unsigned_take_bit_eq take_bit_nat_eq_self)
  then have "take_bit 5 (zDecode ! unat c) = zDecode ! unat c" by (rule unsigned_word_eqI)
  then have "zDecode ! unat c AND 0x1f = zDecode ! unat c"
    by (simp add: take_bit_eq_mask mask_eq_exp_minus_1)
  then show ?thesis
    using not_sign_hex [OF assms] by (simp add: low7 sign_bit)
qed

lemma is_hex_nonzero: "is_hex c \<Longrightarrow> c \<noteq> 0"
  by (auto simp: is_hex_def zDecode_def nth_append)

lemma decode16_canonical:
  "even (length z) \<Longrightarrow> list_all is_hex z \<Longrightarrow>
   case decode16_loop z of (rc, bs) \<Rightarrow> \<not> rc \<and> encode16 bs = canonical16 z (int (length z))"
proof (induction z rule: decode16_loop.induct)
  case (1 x y z)
  have hex: "is_hex x" "is_hex y" using "1.prems" by simp_all
  then have v: "unat (zDecode ! unat x) < 16" "unat (zDecode ! unat y) < 16"
    using zDecode_value by (auto simp: is_hex_def)
  have "case decode16_loop z of (rc, bs) \<Rightarrow> \<not> rc \<and> encode16 bs = canonical16 z (int (length z))"
    using 1 hex not_sign_hex by (simp add: is_hex_def)
  then show ?case
    using hex not_sign_hex [OF hex(1)] not_sign_hex [OF hex(2)] split_pair [OF v]
      is_hex_nonzero [OF hex(1)] is_hex_nonzero [OF hex(2)]
    by (auto simp: is_hex_def encode16_def canonical_char)
qed (simp_all add: encode16_def)

lemma decode16_error: "even (length z) \<Longrightarrow> \<not> list_all is_hex z \<Longrightarrow> fst (decode16_loop z)"
proof (induction z rule: decode16_loop.induct)
  case (1 x y z)
  then show ?case
    by (auto simp: is_hex_def split: prod.splits)
qed simp_all

lemma validate16_hex: "0 \<notin> set z \<Longrightarrow> validate16 z (length z) = list_all is_hex z"
proof (induction z)
  case (Cons c z)
  have "zDecode ! unat c > 63 \<longleftrightarrow> \<not> is_hex c"
    using zDecode_value [of c] by (auto simp: is_hex_def word_less_nat_alt)
  then show ?case using Cons by (auto simp: byte_at_def)
qed simp

section \<open>Base 64\<close>

lemma byte_eqI:
  fixes a b :: byte
  assumes "bit a 0 = bit b 0" "bit a 1 = bit b 1" "bit a 2 = bit b 2" "bit a 3 = bit b 3"
    "bit a 4 = bit b 4" "bit a 5 = bit b 5" "bit a 6 = bit b 6" "bit a 7 = bit b 7"
  shows "a = b"
proof (rule bit_word_eqI)
  fix n :: nat assume "n < LENGTH(8)"
  then have "n = 0 \<or> n = 1 \<or> n = 2 \<or> n = 3 \<or> n = 4 \<or> n = 5 \<or> n = 6 \<or> n = 7" by auto
  then show "bit a n = bit b n" using assms by (elim disjE) (simp_all only:)
qed

lemma six_bits: "take_bit 6 v = v \<Longrightarrow> unat (v :: byte) < 64"
proof -
  assume "take_bit 6 v = v"
  then have "unat v = take_bit 6 (unat v)" by (metis unsigned_take_bit_eq)
  then show ?thesis using take_bit_nat_less_exp [of 6 "unat v"] by simp
qed

lemma sextets:
  fixes x y w :: byte
  shows "unat (drop_bit 2 x AND 0x3f) < 64" "unat ((push_bit 4 x AND 0x30) OR (drop_bit 4 y AND 0x0f)) < 64"
    "unat ((push_bit 2 y AND 0x3c) OR (drop_bit 6 w AND 0x03)) < 64" "unat (w AND 0x3f) < 64"
    "unat (push_bit 4 x AND 0x30) < 64" "unat (push_bit 2 y AND 0x3c) < 64"
  by (rule six_bits, rule byte_eqI; simp add: bit_simps)+

text \<open>The encoding without its padding.\<close>

fun unpadded :: "byte list \<Rightarrow> byte list" where
  "unpadded (x # y # w # z) =
     base_char (drop_bit 2 x AND 0x3f) # base_char ((push_bit 4 x AND 0x30) OR (drop_bit 4 y AND 0x0f)) #
     base_char ((push_bit 2 y AND 0x3c) OR (drop_bit 6 w AND 0x03)) # base_char (w AND 0x3f) # unpadded z"
| "unpadded [x, y] =
     [base_char (drop_bit 2 x AND 0x3f), base_char ((push_bit 4 x AND 0x30) OR (drop_bit 4 y AND 0x0f)),
      base_char (push_bit 2 y AND 0x3c)]"
| "unpadded [x] = [base_char (drop_bit 2 x AND 0x3f), base_char (push_bit 4 x AND 0x30)]"
| "unpadded [] = []"

lemma encode64_unpadded: "\<exists>k. encode64_loop bs = unpadded bs @ replicate k 0x3d"
proof (induction bs rule: unpadded.induct)
  case (2 x y)
  then show ?case by (simp, intro exI [of _ 1]) simp
next
  case (3 x)
  then show ?case by (simp, intro exI [of _ 2]) (simp add: numeral_2_eq_2)
qed auto

lemma unpadded_chars: "c \<in> set (unpadded bs) \<Longrightarrow> c \<noteq> 0x3d \<and> c \<noteq> 0"
  by (induction bs rule: unpadded.induct) (auto simp: trans_zBase sextets)

lemma decode64_unpadded: "decode64_loop (unpadded bs) = bs"
  by (induction bs rule: unpadded.induct) (simp_all add: trans_zBase sextets Let_def,
      ((intro conjI)?, (rule byte_eqI; simp add: bit_simps)+)+)

lemma strip_pad_append: "(\<And>c. c \<in> set xs \<Longrightarrow> c \<noteq> 0x3d) \<Longrightarrow> strip_pad (xs @ replicate k 0x3d) = xs"
proof -
  assume ne: "\<And>c. c \<in> set xs \<Longrightarrow> c \<noteq> 0x3d"
  have "dropWhile (\<lambda>c. c = 0x3d) (replicate k 0x3d @ rev xs) = dropWhile (\<lambda>c. c = 0x3d) (rev xs)"
    by (rule dropWhile_append2) simp
  also have "\<dots> = rev xs"
    using ne by (metis (full_types) dropWhile_eq_self_iff hd_in_set set_rev)
  finally show ?thesis by (simp add: strip_pad_def)
qed

lemma strlen_whole: "0 \<notin> set z \<Longrightarrow> strlen z = length z"
  by (induction z) (auto simp: strlen_def)

lemma strlen_nul: "0 \<notin> set z \<Longrightarrow> strlen (z @ 0 # r) = length z"
  by (induction z) (auto simp: strlen_def)

lemma decode64_encode64_loop: "decode64 (encode64_loop bs) = bs"
proof -
  obtain k where k: "encode64_loop bs = unpadded bs @ replicate k 0x3d"
    using encode64_unpadded by blast
  have "0 \<notin> set (encode64_loop bs)" using unpadded_chars [of 0 bs] by (auto simp: k)
  then have "take (strlen (encode64_loop bs)) (encode64_loop bs) = encode64_loop bs"
    by (simp add: strlen_whole)
  then show ?thesis
    using strip_pad_append [of "unpadded bs" k] unpadded_chars [of _ bs]
    by (simp add: decode64_def k decode64_unpadded)
qed

interpretation base64: codec "\<lambda>_. True" encode64_loop decode64
  by unfold_locales (rule decode64_encode64_loop)

lemma length_encode64_loop: "length (encode64_loop bs) = 4 * ((length bs + 2) div 3)"
proof (induction bs rule: encode64_loop.induct)
  case (1 x y w z)
  have "(length (x # y # w # z) + 2) div 3 = Suc ((length z + 2) div 3)" by simp
  then show ?case using 1 by simp
qed simp_all

lemma length_encode64: "length (encode64_loop bs) + 1 \<le> encode64_alloc (length bs)"
  unfolding encode64_alloc_def length_encode64_loop by presburger

lemma length_decode64_loop: "length (decode64_loop z) = length z * 3 div 4"
proof (induction z rule: decode64_loop.induct)
  case (1 p q r s z)
  have "length (p # q # r # s # z) * 3 div 4 = 3 + length z * 3 div 4" by simp
  then show ?case using 1 by (simp add: Let_def)
qed (simp_all add: Let_def)

lemma length_decode64: "length (decode64_loop z) + 1 \<le> decode64_alloc (length z)"
  unfolding decode64_alloc_def length_decode64_loop by simp

section \<open>Decoding in place\<close>

lemma drop_ConsD: "drop i z = x # r \<Longrightarrow> i < length z \<and> z ! i = x \<and> byte_at z i = x \<and> drop (Suc i) z = r"
  by (metis byte_at_def drop_Suc drop_eq_Nil hd_drop_conv_nth linorder_not_le list.distinct(1) list.sel(1) list.sel(3) tl_drop)

lemma drop_update_later: "j < i \<Longrightarrow> drop i (z[j := c]) = drop i z"
  by simp

text \<open>A buffer whose first \<open>n\<close> bytes are \<open>t\<close>, followed by a NUL.\<close>

definition holds :: "byte list \<Rightarrow> byte list \<Rightarrow> bool" where
  "holds z t \<longleftrightarrow> length t < length z \<and> take (length t) z = t \<and> z ! length t = 0"

subsection \<open>fossilize\<close>

lemma word_range5: "(0x09 :: byte) \<le> c \<and> c \<le> 0x0d \<longleftrightarrow> c = 0x09 \<or> c = 0x0a \<or> c = 0x0b \<or> c = 0x0c \<or> c = 0x0d"
proof
  assume "0x09 \<le> c \<and> c \<le> 0x0d"
  then have "unat c \<in> {9, 10, 11, 12, 13}" by (auto simp: word_le_nat_alt)
  then have "of_nat (unat c) \<in> (of_nat :: nat \<Rightarrow> byte) ` {9, 10, 11, 12, 13}" by (rule imageI)
  then show "c = 0x09 \<or> c = 0x0a \<or> c = 0x0b \<or> c = 0x0c \<or> c = 0x0d" by auto
qed auto

lemma fossil_char_cases:
  obtains (escaped) e where "fossil_char c = [0x5c, e]" "e \<noteq> 0" "unescape e = c"
  | (plain) "fossil_char c = [c]" "c \<noteq> 0" "c \<noteq> 0x5c"
proof (cases "fossil_special c")
  case True
  then have "\<exists>e. fossil_char c = [0x5c, e] \<and> e \<noteq> 0 \<and> unescape e = c"
    unfolding fossil_special_def by (elim disjE) (simp_all add: fossil_char_def unescape_def isspace_def)
  then show ?thesis using escaped by blast
next
  case False
  then have "fossil_char c = [c]" "c \<noteq> 0" "c \<noteq> 0x5c"
    by (auto simp: fossil_special_def fossil_char_def isspace_def word_range5)
  then show ?thesis by (rule plain)
qed

lemma defossilize_loop_inverse:
  assumes "drop i z = concat (map fossil_char s) @ 0 # r" "j \<le> i"
  shows "\<exists>z'. defossilize_loop z i j = (z', j + length s) \<and> length z' = length z \<and>
           take (j + length s) z' = take j z @ s \<and> z' ! (j + length s) = 0"
  using assms
proof (induction s arbitrary: z i j)
  case Nil
  then have d: "i < length z" "byte_at z i = 0"
    using drop_ConsD [of i z 0 r] by auto
  then have "byte_at z j = z ! j" using Nil.prems(2) by (simp add: byte_at_def)
  then show ?case
    using d Nil.prems(2) by (subst defossilize_loop.simps) auto
next
  case (Cons c s)
  show ?case
  proof (cases c rule: fossil_char_cases)
    case (escaped e)
    have "drop i z = 0x5c # e # concat (map fossil_char s) @ 0 # r"
      using Cons.prems(1) escaped(1) by simp
    then have d: "i < length z" "z ! i = 0x5c" "byte_at z i = 0x5c" "drop (Suc i) z = e # concat (map fossil_char s) @ 0 # r"
      by (auto dest: drop_ConsD)
    then have d2: "Suc i < length z" "z ! Suc i = e" "byte_at z (Suc i) = e" "drop (Suc (Suc i)) z = concat (map fossil_char s) @ 0 # r"
      by (auto dest: drop_ConsD)
    let ?z = "z[j := c]"
    have step: "defossilize_loop z i j = defossilize_loop ?z (Suc (Suc i)) (Suc j)"
      using d d2 escaped(2,3) by (subst defossilize_loop.simps) simp
    have "drop (Suc (Suc i)) ?z = concat (map fossil_char s) @ 0 # r"
      using d2(4) Cons.prems(2) by simp
    from Cons.IH [OF this, of "Suc j"] show ?thesis
      using step d(1) Cons.prems(2) by (auto simp: take_list_update_snoc)
  next
    case plain
    have "drop i z = c # concat (map fossil_char s) @ 0 # r"
      using Cons.prems(1) plain(1) by simp
    then have d: "i < length z" "z ! i = c" "byte_at z i = c" "drop (Suc i) z = concat (map fossil_char s) @ 0 # r"
      by (auto dest: drop_ConsD)
    let ?z = "z[j := c]"
    have step: "defossilize_loop z i j = defossilize_loop ?z (Suc i) (Suc j)"
      using d plain(2,3) by (subst defossilize_loop.simps) simp
    have "drop (Suc i) ?z = concat (map fossil_char s) @ 0 # r"
      using d(4) Cons.prems(2) by simp
    from Cons.IH [OF this, of "Suc j"] show ?thesis
      using step d(1) Cons.prems(2) by (auto simp: take_list_update_snoc)
  qed
qed

lemma length_fossilize: "length (concat (map fossil_char s)) = fossil_count s"
proof (induction s)
  case (Cons c s)
  have "length (fossil_char c) = (if fossil_special c then 2 else 1)"
    by (auto simp: fossil_special_def fossil_char_def isspace_def word_range5)
  then show ?case using Cons by (auto simp: fossil_count_def)
qed (simp add: fossil_count_def)

lemma defossilize_fossilize:
  "holds (defossilize (concat (map fossil_char s) @ [0])) s"
  using defossilize_loop_inverse [of 0 "concat (map fossil_char s) @ [0]" s "[]" 0] length_fossilize [of s]
  by (auto simp: defossilize_def holds_def fossil_count_def)

subsection \<open>HTTP encoding\<close>

lemma safe_not_special:
  assumes "IsSafeChar other c" "other = 0x61 \<or> other = 0x2f"
  shows "c \<noteq> 0" "c \<noteq> 0x25" "c \<noteq> 0x2b"
  using assms by (auto simp: IsSafeChar_def isalnum_def)

lemma http_hex:
  assumes "h = hex_upper ! unat (drop_bit 4 c AND 0xf)" "l = hex_upper ! unat (c AND 0xf)"
  shows "push_bit 4 (AsciiToHex h) OR AsciiToHex l = c" "h \<noteq> 0" "l \<noteq> 0"
  unfolding assms high_nibble_mask unfolding and_0xf
  using hex_upper_digit [OF high_nibble_less [of c]] hex_upper_digit [OF low_nibble_less [of c]] or_nibbles [of c]
  by simp_all

lemma dehttpize_loop_inverse:
  assumes "drop i z = concat (map (http_char other) s) @ 0 # r" "j \<le> i" "other = 0x61 \<or> other = 0x2f" "0 \<notin> set s"
  shows "\<exists>z'. dehttpize_loop z i j = (z', j + length s) \<and> length z' = length z \<and>
           take (j + length s) z' = take j z @ s \<and> z' ! (j + length s) = 0"
  using assms
proof (induction s arbitrary: z i j)
  case Nil
  then have "i < length z" "byte_at z i = 0" by (auto dest: drop_ConsD)
  then show ?case using Nil.prems(2) by (subst dehttpize_loop.simps) auto
next
  case (Cons c s)
  let ?rest = "concat (map (http_char other) s) @ 0 # r"
  let ?z = "z[j := c]"
  obtain k where k: "dehttpize_loop z i j = dehttpize_loop ?z k (Suc j)" "i < k" "drop k z = ?rest" "i < length z"
  proof (cases "IsSafeChar other c \<or> c = 0x20")
    case True
    define e where "e = (if IsSafeChar other c then c else 0x2b)"
    have "drop i z = e # ?rest"
      using Cons.prems(1) True by (auto simp: http_char_def [of other c] e_def)
    then have d: "i < length z" "z ! i = e" "byte_at z i = e" "drop (Suc i) z = ?rest" by (auto dest: drop_ConsD)
    moreover have "dehttpize_loop z i j = dehttpize_loop ?z (Suc i) (Suc j)"
      using d True safe_not_special [OF _ Cons.prems(3), of c]
      by (subst dehttpize_loop.simps) (auto simp: e_def split: if_splits)
    ultimately show ?thesis using that by blast
  next
    case False
    define h where "h = hex_upper ! unat (drop_bit 4 c AND 0xf)"
    define l where "l = hex_upper ! unat (c AND 0xf)"
    note hl = http_hex [OF h_def l_def]
    have "drop i z = 0x25 # h # l # ?rest"
      using Cons.prems(1) False by (simp add: http_char_def [of other c] h_def l_def)
    then have d: "i < length z" "z ! i = 0x25" "byte_at z i = 0x25" "drop (Suc i) z = h # l # ?rest" by (auto dest: drop_ConsD)
    then have d1: "z ! Suc i = h" "byte_at z (Suc i) = h" "drop (Suc (Suc i)) z = l # ?rest" by (auto dest: drop_ConsD)
    then have d2: "z ! Suc (Suc i) = l" "byte_at z (Suc (Suc i)) = l" "drop (i + 3) z = ?rest"
      by (auto dest: drop_ConsD simp: numeral_3_eq_3)
    have "dehttpize_loop z i j = dehttpize_loop ?z (i + 3) (Suc j)"
      using d d1 d2 hl by (subst dehttpize_loop.simps) simp
    then show ?thesis using that d(1) d2(3) by auto
  qed
  have "drop k ?z = ?rest" using k Cons.prems(2) by simp
  moreover have "Suc j \<le> k" "0 \<notin> set s" using k(2) Cons.prems(2,4) by auto
  ultimately have "\<exists>z'. dehttpize_loop ?z k (Suc j) = (z', Suc j + length s) \<and> length z' = length ?z \<and>
      take (Suc j + length s) z' = take (Suc j) ?z @ s \<and> z' ! (Suc j + length s) = 0"
    by (intro Cons.IH Cons.prems(3)) auto
  then show ?case
    using k(1,4) Cons.prems(2) by (auto simp: take_list_update_snoc)
qed

text \<open>The bytes an encoder reads: up to a NUL, at most \<open>n\<close>.\<close>

definition text_arg :: "byte list \<Rightarrow> int \<Rightarrow> byte list" where
  "text_arg z n = takeWhile (\<lambda>c. c \<noteq> 0) (take (arg_len z n) z)"

lemma http_loop_text: "http_loop other z n = concat (map (http_char other) (takeWhile (\<lambda>c. c \<noteq> 0) (take n z)))"
  by (induction other z n rule: http_loop.induct) (auto simp: take_Cons')

lemma http_count_text: "http_count other z n = length (http_loop other z n)"
  by (induction other z n rule: http_loop.induct) (auto simp: http_char_def)

lemma htmlize_loop_text: "htmlize_loop z n = concat (map html_char (takeWhile (\<lambda>c. c \<noteq> 0) (take n z)))"
  by (induction z n rule: htmlize_loop.induct) (auto simp: take_Cons')

lemma html_count_text: "html_count z n = length (htmlize_loop z n)"
  by (induction z n rule: htmlize_loop.induct) (auto simp: html_char_def html_size_def chars_of_def)

lemma text_arg_no_nul: "0 \<notin> set (text_arg z n)"
  by (auto simp: text_arg_def dest: set_takeWhileD)

lemma length_http_ge: "length s \<le> length (concat (map (http_char other) s))"
  by (induction s) (auto simp: http_char_def)

lemma EncodeHttp_decodes:
  "case dehttpize (EncodeHttp z n slash @ [0]) of (z', k) \<Rightarrow> k = length (text_arg z n) \<and> holds z' (text_arg z n)"
proof -
  define other :: byte where "other = (if slash then 0x61 else 0x2f)"
  have e: "EncodeHttp z n slash = concat (map (http_char other) (text_arg z n))"
    by (simp add: EncodeHttp_def Let_def other_def http_loop_text text_arg_def)
  have "other = 0x61 \<or> other = 0x2f" by (simp add: other_def)
  then show ?thesis
    using dehttpize_loop_inverse [of 0 "EncodeHttp z n slash @ [0]" other "text_arg z n" "[]" 0]
      length_http_ge [of "text_arg z n" other]
    by (auto simp: dehttpize_def holds_def e text_arg_no_nul)
qed

subsection \<open>HTML\<close>

text \<open>Reading HTML text back.\<close>

fun unhtml :: "byte list \<Rightarrow> byte list" where
  "unhtml (c # z) =
     (if c \<noteq> 0x26 then c # unhtml z
      else if take 3 z = chars_of ''lt;'' then 0x3c # unhtml (drop 3 z)
      else if take 3 z = chars_of ''gt;'' then 0x3e # unhtml (drop 3 z)
      else if take 4 z = chars_of ''amp;'' then 0x26 # unhtml (drop 4 z)
      else if take 5 z = chars_of ''quot;'' then 0x22 # unhtml (drop 5 z)
      else c # unhtml z)"
| "unhtml [] = []"

lemma unhtml_html: "unhtml (concat (map html_char s)) = s"
  by (induction s) (auto simp: html_char_def chars_of_def)

lemma html_char_safe: "c' \<in> set (html_char c) \<Longrightarrow> c' \<noteq> 0x3c \<and> c' \<noteq> 0x3e \<and> c' \<noteq> 0x22"
  by (auto simp: html_char_def chars_of_def split: if_splits)

section \<open>Properties\<close>

text \<open>C19: base 16.  \<open>decode16\<close> undoes \<open>encode16\<close>; it succeeds exactly on the strings of even length that
  \<open>validate16\<close> accepts, and then encoding the result gives the canonical form of the string.\<close>

theorem base16_correct:
  assumes "0 \<notin> set z"
  shows "decode16 (encode16 bs) = (False, bs) \<and>
    (case decode16 z of (err, out) \<Rightarrow> (\<not> err) = (even (length z) \<and> validate16 z (length z)) \<and>
      (if err then True else encode16 out = canonical16 z (int (length z))))"
proof -
  have "decode16 (encode16 bs) = (False, bs)"
    by (simp add: decode16_def decode16_encode16 length_encode16)
  moreover have "case decode16 z of (err, out) \<Rightarrow> (\<not> err) = (even (length z) \<and> validate16 z (length z)) \<and>
      (if err then True else encode16 out = canonical16 z (int (length z)))"
  proof (cases "even (length z) \<and> list_all is_hex z")
    case True
    then show ?thesis
      using decode16_canonical [of z] validate16_hex [OF assms] by (auto simp: decode16_def split: prod.splits)
  next
    case False
    then show ?thesis
      using decode16_error [of z] validate16_hex [OF assms] by (auto simp: decode16_def split: prod.splits)
  qed
  ultimately show ?thesis by blast
qed

lemma base16_correct_witness:
  "decode16 (encode16 [0x7f, 0]) = (False, [0x7f, 0]) \<and>
   encode16 (snd (decode16 (chars_of ''OlAf''))) = canonical16 (chars_of ''OlAf'') 4"
proof -
  have "0 \<notin> set (chars_of ''OlAf'')" "\<not> fst (decode16 (chars_of ''OlAf''))" "length (chars_of ''OlAf'') = 4"
    by code_simp+
  then show ?thesis
    using base16_correct [of "chars_of ''OlAf''" "[0x7f, 0]"] by (auto split: prod.splits)
qed






subsection \<open>Two defects\<close>

text \<open>A \<open>%\<close> without two characters behind it is replaced by what a previous step left in the buffer.\<close>

lemma dehttpize_stale: "take 2 (fst (dehttpize (chars_of ''%41%'' @ [0]))) = chars_of ''A4''"
  by code_simp

text \<open>A character that is not base 64 is not skipped, it counts as the digit 0.\<close>

lemma decode64_not_skipping: "decode64 (chars_of ''QU I='') \<noteq> decode64 (chars_of ''QUI='')"
  by code_simp

end
