(* ===== verification/C_Float.thy ===== *)
theory C_Float
  imports Complex_Main "HOL-Library.Log_Nat"
begin

text \<open>
  The floating-point numbers of C, as the rational numbers they stand for: a result is rounded to the
  53 or 24 bits of a \<open>double\<close> or \<open>float\<close>, halves to even.  A \<open>float\<close> near zero has steps of \<open>2 ^ - 149\<close>.
  Numbers too large for the format (infinities) are outside of the model.
\<close>

definition half_even :: "rat \<Rightarrow> int" where
  "half_even r = (let n = \<lfloor>r\<rfloor>; d = r - of_int n in
     if d < 1 / 2 then n else if d > 1 / 2 then n + 1 else if even n then n else n + 1)"

definition two_to :: "int \<Rightarrow> rat" where
  "two_to k = (if k \<ge> 0 then 2 ^ nat k else 1 / 2 ^ nat (- k))"

definition exponent :: "rat \<Rightarrow> int" where
  "exponent x = (let (n, d) = quotient_of x; e = bitlen \<bar>n\<bar> - bitlen d in if \<bar>x\<bar> < two_to e then e - 1 else e)"

definition round_double :: "rat \<Rightarrow> rat" where
  "round_double x =
     (if x = 0 then 0 else let u = two_to (exponent x - 52) in of_int (half_even (x / u)) * u)"

definition round_float :: "rat \<Rightarrow> rat" where
  "round_float x =
     (if x = 0 then 0 else let u = two_to (max (exponent x - 23) (- 149)) in of_int (half_even (x / u)) * u)"

definition float_add :: "rat \<Rightarrow> rat \<Rightarrow> rat" where
  "float_add a b = round_float (a + b)"

section \<open>Rounding is monotone\<close>

lemma two_to_powi: "two_to k = 2 powi k"
  by (auto simp: two_to_def power_int_def power_one_over inverse_eq_divide)

lemma two_to_pos [simp]: "0 < two_to k"
  by (simp add: two_to_powi)

lemma two_to_add: "two_to (j + k) = two_to j * two_to k"
  by (simp add: two_to_powi power_int_add)

lemma two_to_less: "j < k \<Longrightarrow> two_to j < two_to k"
  by (simp add: two_to_powi power_int_strict_increasing)

lemma two_to_le: "j \<le> k \<Longrightarrow> two_to j \<le> two_to k"
  by (simp add: two_to_powi power_int_increasing)

lemma two_to_integer: "0 \<le> k \<Longrightarrow> two_to k = of_int (2 ^ nat k)"
  by (simp add: two_to_def)

lemma half_even_of_int [simp]: "half_even (of_int n) = n"
  by (simp add: half_even_def)

lemma half_even_mono:
  assumes "r \<le> s"
  shows "half_even r \<le> half_even s"
proof (cases "\<lfloor>r\<rfloor> = \<lfloor>s\<rfloor>")
  case True
  then show ?thesis using assms by (auto simp: half_even_def Let_def)
next
  case False
  then have "\<lfloor>r\<rfloor> + 1 \<le> \<lfloor>s\<rfloor>" using floor_mono [OF assms] by simp
  moreover have "half_even r \<le> \<lfloor>r\<rfloor> + 1" "\<lfloor>s\<rfloor> \<le> half_even s" by (simp_all add: half_even_def Let_def)
  ultimately show ?thesis by simp
qed

lemma half_even_minus: "half_even (- r) = - half_even r"
proof (cases "r = of_int \<lfloor>r\<rfloor>")
  case True
  then show ?thesis by (metis half_even_of_int of_int_minus)
next
  case False
  then have "\<lfloor>- r\<rfloor> = - \<lfloor>r\<rfloor> - 1" using ceiling_altdef [of r] by (simp add: ceiling_def)
  then show ?thesis by (auto simp: half_even_def Let_def)
qed

lemma exponent_minus: "exponent (- x) = exponent x"
  by (simp add: exponent_def rat_uminus_code split: prod.split)

lemma exponent_bounds:
  assumes "0 < x"
  shows "two_to (exponent x) \<le> x" "x < two_to (exponent x + 1)"
proof -
  obtain n d where q: "quotient_of x = (n, d)" by (cases "quotient_of x")
  have d: "0 < d" and x: "x = of_int n / of_int d" using q by (simp_all add: quotient_of_denom_pos quotient_of_div)
  then have n: "0 < n" using assms by (simp add: zero_less_divide_iff)
  let ?e = "bitlen n - bitlen d"
  have bits: "two_to (bitlen k - 1) \<le> of_int k \<and> of_int k < two_to (bitlen k)" if "0 < k" for k
  proof -
    have "0 < bitlen k" using that bitlen_nonneg [of k] bitlen_eq_zero_iff [of k] by linarith
    then show ?thesis using bitlen_bounds [OF that]
      by (simp add: two_to_def flip: of_int_power_le_of_int_cancel_iff of_int_less_iff)
  qed
  have "two_to (?e - 1) < x"
  proof -
    have "two_to (?e - 1) * of_int d < two_to (?e - 1) * two_to (bitlen d)" using bits [OF d] by simp
    also have "\<dots> = two_to (bitlen n - 1)" by (simp add: algebra_simps flip: two_to_add)
    finally show ?thesis using bits [OF n] d by (simp add: x pos_less_divide_eq)
  qed
  moreover have "x < two_to (?e + 1)"
  proof -
    have "of_int n < two_to (bitlen n)" using bits [OF n] by simp
    also have "\<dots> = two_to (?e + 1) * two_to (bitlen d - 1)" by (simp flip: two_to_add)
    also have "\<dots> \<le> two_to (?e + 1) * of_int d" using bits [OF d] by simp
    finally show ?thesis using d by (simp add: x pos_divide_less_eq)
  qed
  moreover have "exponent x = (if x < two_to ?e then ?e - 1 else ?e)" using n assms by (simp add: exponent_def q)
  ultimately show "two_to (exponent x) \<le> x" "x < two_to (exponent x + 1)" by simp_all
qed

lemma exponent_mono:
  assumes "0 < x" "x \<le> y"
  shows "exponent x \<le> exponent y"
proof (rule ccontr)
  assume "\<not> ?thesis"
  then have "two_to (exponent y + 1) \<le> two_to (exponent x)" by (simp add: two_to_le)
  then show False using exponent_bounds [of x] exponent_bounds [of y] assms by simp
qed

text \<open>A step divides every power of two that is not smaller; such a power is not passed by rounding.\<close>

lemma multiple_of_step:
  assumes "j \<le> k"
  shows "two_to k / two_to j = of_int (2 ^ nat (k - j))"
proof -
  have "two_to k = two_to (k - j) * two_to j" by (simp flip: two_to_add)
  then show ?thesis using assms by (simp add: two_to_integer less_imp_neq [OF two_to_pos, symmetric])
qed

lemma round_below:
  assumes "j \<le> k" "x \<le> two_to k"
  shows "of_int (half_even (x / two_to j)) * two_to j \<le> two_to k"
proof -
  have "half_even (x / two_to j) \<le> 2 ^ nat (k - j)"
    using half_even_mono [OF divide_right_mono [OF assms(2), of "two_to j"]]
    by (simp add: multiple_of_step [OF assms(1)] less_imp_le del: of_int_power)
  then have "of_int (half_even (x / two_to j)) \<le> two_to k / two_to j"
    by (simp add: multiple_of_step [OF assms(1)] del: of_int_power of_int_numeral)
  then show ?thesis by (simp add: pos_le_divide_eq)
qed

lemma round_above:
  assumes "j \<le> k" "two_to k \<le> x"
  shows "two_to k \<le> of_int (half_even (x / two_to j)) * two_to j"
proof -
  have "2 ^ nat (k - j) \<le> half_even (x / two_to j)"
    using half_even_mono [OF divide_right_mono [OF assms(2), of "two_to j"]]
    by (simp add: multiple_of_step [OF assms(1)] less_imp_le del: of_int_power)
  then have "two_to k / two_to j \<le> of_int (half_even (x / two_to j))"
    by (simp add: multiple_of_step [OF assms(1)] del: of_int_power of_int_numeral)
  then show ?thesis by (simp add: pos_divide_le_eq)
qed

lemma round_float_minus: "round_float (- x) = - round_float x"
  by (simp add: round_float_def exponent_minus half_even_minus Let_def)

lemma round_float_nonneg:
  assumes "0 \<le> x"
  shows "0 \<le> round_float x"
proof -
  have "half_even 0 \<le> half_even (x / two_to k)" for k using assms two_to_pos [of k] by (intro half_even_mono) (simp add: zero_le_divide_iff less_imp_le)
  then show ?thesis using half_even_of_int [of 0] by (simp add: round_float_def Let_def mult_nonneg_nonneg less_imp_le)
qed

lemma round_float_mono_pos:
  assumes "0 < x" "x \<le> y"
  shows "round_float x \<le> round_float y"
proof -
  let ?j = "max (exponent x - 23) (- 149)" and ?k = "max (exponent y - 23) (- 149)"
  have r: "round_float x = of_int (half_even (x / two_to ?j)) * two_to ?j" "round_float y = of_int (half_even (y / two_to ?k)) * two_to ?k"
    using assms by (simp_all add: round_float_def Let_def)
  show ?thesis
  proof (cases "?j = ?k")
    case True
    have "x / two_to ?k \<le> y / two_to ?k" using assms(2) by (simp add: divide_right_mono less_imp_le)
    then show ?thesis unfolding r True using half_even_mono [of "x / two_to ?k" "y / two_to ?k"] by simp
  next
    case False
    then have e: "exponent x < exponent y" "?k \<le> exponent y" "?j \<le> exponent y" using exponent_mono [OF assms] by auto
    have "x \<le> two_to (exponent y)"
      using exponent_bounds(2) [OF assms(1)] two_to_le [of "exponent x + 1" "exponent y"] e(1) by simp
    then have "round_float x \<le> two_to (exponent y)" unfolding r(1) by (rule round_below [OF e(3)])
    also have "\<dots> \<le> round_float y" unfolding r(2) using assms by (intro round_above e exponent_bounds) simp
    finally show ?thesis .
  qed
qed

lemma round_float_mono:
  assumes "x \<le> y"
  shows "round_float x \<le> round_float y"
proof -
  consider "0 < x" | "x \<le> 0" "0 \<le> y" | "y < 0" by linarith
  then show ?thesis
  proof cases
    case 2
    then have "0 \<le> round_float y" "0 \<le> - round_float x"
      using round_float_nonneg [of y] round_float_nonneg [of "- x"] by (simp_all add: round_float_minus)
    then show ?thesis by simp
  next
    case 3
    then show ?thesis using round_float_mono_pos [of "- y" "- x"] assms by (simp add: round_float_minus)
  qed (use assms round_float_mono_pos in blast)
qed

lemma float_add_mono: "a \<le> b \<Longrightarrow> float_add c a \<le> float_add c b"
  by (simp add: float_add_def round_float_mono)

end
