(* ===== verification/Fossil_Diff.thy ===== *)
theory Fossil_Diff
  imports C_Float Fossil_Encode
begin

text \<open>
  The line differ of \<^verbatim>\<open>ssfossil/fossil/src/diff.c\<close>: files as arrays of hashed lines, the search for a
  common run of lines (by hashing, or exhaustively), and the divide and conquer that turns two
  files into an array of copy/delete/insert triples.

  A file is the list of its bytes; the NUL that \<open>blob_str\<close> guarantees behind them is what \<open>byte_at\<close>
  yields there.  A pointer into a file is the list of the bytes from there on.  Every read of a
  line array is checked: \<open>None\<close> is a read outside of it or a failed assertion.  One read of
  \<open>optimalLCS\<close> can reach the element behind the array; what it finds there is the parameter
  \<open>stray\<close> (\<open>None\<close> if the program faults).  Whether a reallocation of \<open>n\<close> integers succeeds is the
  parameter \<open>mem\<close>.  Line numbers are natural numbers: they are below the sizes of the files, which
  the C \<open>int\<close>s hold.
\<close>

section \<open>Lines\<close>

definition LENGTH_MASK_SZ :: nat where
  "LENGTH_MASK_SZ = 13"

definition LENGTH_MASK :: nat where
  "LENGTH_MASK = 2 ^ LENGTH_MASK_SZ - 1"

record dline =
  zLine :: "byte list"
  hLine :: u32
  iNext :: nat
  iHash :: nat

definition dline0 :: dline where
  "dline0 = \<lparr>zLine = [], hLine = 0, iNext = 0, iHash = 0\<rparr>"

text \<open>The counting loop: \<open>j\<close> counts the characters of a line, with the line end before it for every line
  but the first.\<close>

fun count_lines :: "byte list \<Rightarrow> nat \<Rightarrow> nat \<Rightarrow> nat option" where
  "count_lines [] j nLine = (if j > LENGTH_MASK then None else Some nLine)"
| "count_lines (c # s) j nLine =
     (if c = 0 then None
      else if c = 0x0a \<and> byte_at s 0 \<noteq> 0
      then if j > LENGTH_MASK then None else count_lines s 1 (nLine + 1)
      else count_lines s (j + 1) nLine)"

fun trim_line :: "byte list \<Rightarrow> nat \<Rightarrow> nat" where
  "trim_line z 0 = 0"
| "trim_line z (Suc k) = (if isspace (byte_at z k) then trim_line z k else Suc k)"

definition line_len :: "bool \<Rightarrow> byte list \<Rightarrow> nat" where
  "line_len ignoreWS z =
     (let j = length (takeWhile (\<lambda>c. c \<noteq> 0 \<and> c \<noteq> 0x0a) z) in if ignoreWS then trim_line z j else j)"

text \<open>\<open>char\<close> is signed: a byte is sign-extended into the hash.\<close>

definition line_hash :: "byte list \<Rightarrow> u32" where
  "line_hash s = foldl (\<lambda>h c. h XOR push_bit 2 h XOR scast c) 0 s"

definition dline_hash :: "byte list \<Rightarrow> nat \<Rightarrow> u32" where
  "dline_hash z k = push_bit LENGTH_MASK_SZ (line_hash (take k z)) OR of_nat k"

definition fill_line :: "bool \<Rightarrow> nat \<Rightarrow> byte list \<Rightarrow> dline list \<Rightarrow> dline list" where
  "fill_line ignoreWS i z a =
     (let a = a[i := (a ! i)\<lparr>zLine := z, hLine := dline_hash z (line_len ignoreWS z)\<rparr>];
          h2 = unat (hLine (a ! i)) mod length a;
          a = a[i := (a ! i)\<lparr>iNext := iHash (a ! h2)\<rparr>]
      in a[h2 := (a ! h2)\<lparr>iHash := i + 1\<rparr>])"

fun fill_lines :: "bool \<Rightarrow> nat \<Rightarrow> nat \<Rightarrow> byte list \<Rightarrow> dline list \<Rightarrow> dline list" where
  "fill_lines ignoreWS 0 i z a = a"
| "fill_lines ignoreWS (Suc n) i z a =
     fill_lines ignoreWS n (i + 1) (drop (length (takeWhile (\<lambda>c. c \<noteq> 0 \<and> c \<noteq> 0x0a) z) + 1) z)
       (fill_line ignoreWS i z a)"

definition break_into_lines :: "byte list \<Rightarrow> bool \<Rightarrow> dline list option" where
  "break_into_lines z ignoreWS =
     (case count_lines z 0 1 of None \<Rightarrow> None
      | Some nLine \<Rightarrow> Some (fill_lines ignoreWS nLine 0 z (replicate nLine dline0)))"

definition dline_text :: "dline \<Rightarrow> byte list" where
  "dline_text d = take (unat (hLine d AND of_nat LENGTH_MASK)) (zLine d)"

definition same_dline :: "dline \<Rightarrow> dline \<Rightarrow> bool" where
  "same_dline a b \<longleftrightarrow> hLine a = hLine b \<and>
     take (unat (hLine a AND of_nat LENGTH_MASK)) (zLine a) = take (unat (hLine a AND of_nat LENGTH_MASK)) (zLine b)"

section \<open>The array of triples\<close>

record dcontext =
  aEdit :: "int list option"
  nEditAlloc :: nat
  aFrom :: "dline list"
  aTo :: "dline list"

definition edit_list :: "dcontext \<Rightarrow> int list" where
  "edit_list p = (case aEdit p of None \<Rightarrow> [] | Some a \<Rightarrow> a)"

definition nEdit :: "dcontext \<Rightarrow> nat" where
  "nEdit p = length (edit_list p)"

definition expandEdit :: "(nat \<Rightarrow> bool) \<Rightarrow> nat \<Rightarrow> dcontext \<Rightarrow> dcontext" where
  "expandEdit mem n p =
     (if mem n then p\<lparr>aEdit := Some (take n (edit_list p)), nEditAlloc := n\<rparr>
      else p\<lparr>aEdit := None, nEditAlloc := 0\<rparr>)"

definition add_edit :: "nat \<Rightarrow> int \<Rightarrow> dcontext \<Rightarrow> dcontext" where
  "add_edit i v p = p\<lparr>aEdit := Some ((edit_list p)[i := edit_list p ! i + v])\<rparr>"

definition push_edit :: "int \<Rightarrow> dcontext \<Rightarrow> dcontext" where
  "push_edit v p = p\<lparr>aEdit := Some (edit_list p @ [v])\<rparr>"

definition appendTriple :: "(nat \<Rightarrow> bool) \<Rightarrow> int \<Rightarrow> int \<Rightarrow> int \<Rightarrow> dcontext \<Rightarrow> dcontext" where
  "appendTriple mem nCopy nDel nIns p =
     (let n = nEdit p; a = edit_list p in
      if n \<ge> 3 \<and> a ! (n - 1) = 0 \<and> a ! (n - 2) = 0
      then add_edit (n - 1) nIns (add_edit (n - 2) nDel (add_edit (n - 3) nCopy p))
      else if n \<ge> 3 \<and> a ! (n - 1) = 0 \<and> nCopy = 0
      then add_edit (n - 1) nIns (add_edit (n - 2) nDel p)
      else if n \<ge> 3 \<and> nCopy = 0 \<and> nDel = 0
      then add_edit (n - 1) nIns p
      else let p = (if n + 3 > nEditAlloc p then expandEdit mem (n * 2 + 15) p else p) in
           if aEdit p = None then p else push_edit nIns (push_edit nDel (push_edit nCopy p)))"

section \<open>Common runs of lines\<close>

definition same_at :: "dcontext \<Rightarrow> nat \<Rightarrow> nat \<Rightarrow> bool option" where
  "same_at p i j = (if i < length (aFrom p) \<and> j < length (aTo p) then Some (same_dline (aFrom p ! i) (aTo p ! j)) else None)"

function run_forward :: "dcontext \<Rightarrow> nat \<Rightarrow> nat \<Rightarrow> nat \<Rightarrow> nat \<Rightarrow> (nat \<times> nat) option" where
  "run_forward p iE1 iE2 iEX iEY =
     (if iEX < iE1 \<and> iEY < iE2
      then case same_at p iEX iEY of None \<Rightarrow> None
        | Some b \<Rightarrow> if b then run_forward p iE1 iE2 (iEX + 1) (iEY + 1) else Some (iEX, iEY)
      else Some (iEX, iEY))"
  by pat_completeness auto

termination
  by (relation "measure (\<lambda>(p, iE1, iE2, iEX, iEY). iE1 - iEX)") auto

fun run_back :: "dcontext \<Rightarrow> nat \<Rightarrow> nat \<Rightarrow> nat \<Rightarrow> nat \<Rightarrow> (nat \<times> nat) option" where
  "run_back p iS1 iS2 0 iSY = Some (0, iSY)"
| "run_back p iS1 iS2 (Suc x) iSY =
     (if Suc x > iS1 \<and> iSY > iS2
      then case same_at p x (iSY - 1) of None \<Rightarrow> None
        | Some b \<Rightarrow> if b then run_back p iS1 iS2 x (iSY - 1) else Some (Suc x, iSY)
      else Some (Suc x, iSY))"

subsection \<open>The exhaustive search\<close>

text \<open>The comparison of the lines \<open>mxLength\<close> further on; \<open>i + mxLength\<close> can be the number of lines.\<close>

definition same_stray :: "(nat \<Rightarrow> nat \<Rightarrow> bool option) \<Rightarrow> dcontext \<Rightarrow> nat \<Rightarrow> nat \<Rightarrow> bool option" where
  "same_stray stray p i j = (if i = length (aFrom p) \<and> j < length (aTo p) then stray i j else same_at p i j)"

type_synonym best_run = "nat \<times> nat \<times> nat"

definition olcs_try :: "(nat \<Rightarrow> nat \<Rightarrow> bool option) \<Rightarrow> dcontext \<Rightarrow> nat \<Rightarrow> nat \<Rightarrow> nat \<Rightarrow> nat \<Rightarrow> best_run \<Rightarrow> best_run option" where
  "olcs_try stray p iE1 iE2 i j best =
     (case best of (mxLength, iSXb, iSYb) \<Rightarrow>
      case same_at p i j of None \<Rightarrow> None
      | Some False \<Rightarrow> Some best
      | Some True \<Rightarrow>
        (case (if mxLength \<noteq> 0 then same_stray stray p (i + mxLength) (j + mxLength) else Some True) of
           None \<Rightarrow> None
         | Some False \<Rightarrow> Some best
         | Some True \<Rightarrow>
           (case run_forward p iE1 iE2 (i + 1) (j + 1) of None \<Rightarrow> None
            | Some (x, y) \<Rightarrow> Some (if x - i > mxLength then (x - i, i, j) else best))))"

function olcs_cols :: "(nat \<Rightarrow> nat \<Rightarrow> bool option) \<Rightarrow> dcontext \<Rightarrow> nat \<Rightarrow> nat \<Rightarrow> nat \<Rightarrow> nat \<Rightarrow> best_run \<Rightarrow> best_run option" where
  "olcs_cols stray p iE1 iE2 i j best =
     (if j < iE2 - fst best
      then case olcs_try stray p iE1 iE2 i j best of None \<Rightarrow> None
        | Some best' \<Rightarrow> olcs_cols stray p iE1 iE2 i (j + 1) best'
      else Some best)"
  by pat_completeness auto

termination
  by (relation "measure (\<lambda>(stray, p, iE1, iE2, i, j, best). iE2 - j)") auto

function olcs_rows :: "(nat \<Rightarrow> nat \<Rightarrow> bool option) \<Rightarrow> dcontext \<Rightarrow> nat \<Rightarrow> nat \<Rightarrow> nat \<Rightarrow> nat \<Rightarrow> best_run \<Rightarrow> best_run option" where
  "olcs_rows stray p iE1 iS2 iE2 i best =
     (if i < iE1 - fst best
      then case olcs_cols stray p iE1 iE2 i iS2 best of None \<Rightarrow> None
        | Some best' \<Rightarrow> olcs_rows stray p iE1 iS2 iE2 (i + 1) best'
      else Some best)"
  by pat_completeness auto

termination
  by (relation "measure (\<lambda>(stray, p, iE1, iS2, iE2, i, best). iE1 - i)") auto

definition optimalLCS :: "(nat \<Rightarrow> nat \<Rightarrow> bool option) \<Rightarrow> dcontext \<Rightarrow> nat \<Rightarrow> nat \<Rightarrow> nat \<Rightarrow> nat \<Rightarrow> (nat \<times> nat \<times> nat \<times> nat) option" where
  "optimalLCS stray p iS1 iE1 iS2 iE2 =
     map_option (\<lambda>(mxLength, iSXb, iSYb). (iSXb, iSXb + mxLength, iSYb, iSYb + mxLength))
       (olcs_rows stray p iE1 iS2 iE2 iS1 (0, iS1, iS2))"

subsection \<open>The search by hashing\<close>

definition c0_05 :: rat where
  "c0_05 = round_double (1 / 20)"

definition lcs_score :: "nat \<Rightarrow> nat \<Rightarrow> nat \<Rightarrow> nat \<Rightarrow> nat \<Rightarrow> nat \<Rightarrow> rat" where
  "lcs_score iS1 iS2 mid iSX iEX iSY =
     (let skew = \<bar>(int iSX - int iS1) - (int iSY - int iS2)\<bar>;
          dist = \<bar>int ((iSX + iEX) div 2) - int mid\<bar>
      in round_double (round_double (of_nat (iEX - iSX) - round_double (c0_05 * of_int skew))
           - round_double (c0_05 * of_int dist)))"

record lcs_state =
  bestScore :: rat
  iSXb :: nat
  iSYb :: nat
  iEXb :: nat
  iEYb :: nat
  iSXp :: nat
  iSYp :: nat
  iEXp :: nat
  iEYp :: nat

definition lcs_init :: "nat \<Rightarrow> nat \<Rightarrow> lcs_state" where
  "lcs_init iS1 iS2 = \<lparr>bestScore = round_double (- (10 ^ 30)), iSXb = iS1, iSYb = iS2, iEXb = iS1, iEYb = iS2,
     iSXp = iS1, iSYp = iS2, iEXp = iS1, iEYp = iS2\<rparr>"

text \<open>The walk along a hash chain, which gives up after some steps; \<open>j\<close> is one more than a line number,
  0 at the end of the chain.\<close>

function chain_walk :: "dcontext \<Rightarrow> nat \<Rightarrow> nat \<Rightarrow> nat \<Rightarrow> nat \<Rightarrow> nat \<Rightarrow> nat option" where
  "chain_walk p i iS2 iE2 limit j =
     (if j = 0 then Some 0
      else case (if j - 1 < iS2 \<or> j \<ge> iE2 then Some False else same_at p i (j - 1)) of None \<Rightarrow> None
        | Some b \<Rightarrow>
          if b then Some j
          else if limit > 10 then Some 0
          else if j - 1 < length (aTo p) then chain_walk p i iS2 iE2 (limit + 1) (iNext (aTo p ! (j - 1)))
          else None)"
  by pat_completeness auto

termination
  by (relation "measure (\<lambda>(p, i, iS2, iE2, limit, j). 11 - limit)") auto

definition lcs_found :: "dcontext \<Rightarrow> nat \<Rightarrow> nat \<Rightarrow> nat \<Rightarrow> nat \<Rightarrow> nat \<Rightarrow> nat \<Rightarrow> lcs_state \<Rightarrow> lcs_state option" where
  "lcs_found p iS1 iE1 iS2 iE2 i j st =
     (case run_back p iS1 iS2 i (j - 1) of None \<Rightarrow> None
      | Some (iSX, iSY) \<Rightarrow>
        (case run_forward p iE1 iE2 (i + 1) j of None \<Rightarrow> None
         | Some (iEX, iEY) \<Rightarrow>
           let score = lcs_score iS1 iS2 ((iE1 + iS1) div 2) iSX iEX iSY in
           Some (if score > bestScore st
                 then st\<lparr>bestScore := score, iSXb := iSX, iSYb := iSY, iEXb := iEX, iEYb := iEY\<rparr>
                 else st\<lparr>iSXp := iSX, iSYp := iSY, iEXp := iEX, iEYp := iEY\<rparr>)))"

definition lcs_step :: "dcontext \<Rightarrow> nat \<Rightarrow> nat \<Rightarrow> nat \<Rightarrow> nat \<Rightarrow> nat \<Rightarrow> lcs_state \<Rightarrow> lcs_state option" where
  "lcs_step p iS1 iE1 iS2 iE2 i st =
     (if \<not> (i < length (aFrom p) \<and> aTo p \<noteq> []) then None
      else case chain_walk p i iS2 iE2 0 (iHash (aTo p ! (unat (hLine (aFrom p ! i)) mod length (aTo p)))) of
        None \<Rightarrow> None
      | Some j \<Rightarrow>
        if j = 0 then Some st
        else if \<not> (i \<ge> iSXb st \<and> i \<ge> iSXp st) then None
        else if i < iEXb st \<and> j \<ge> iSYb st \<and> j < iEYb st then Some st
        else if i < iEXp st \<and> j \<ge> iSYp st \<and> j < iEYp st then Some st
        else lcs_found p iS1 iE1 iS2 iE2 i j st)"

fun lcs_loop :: "dcontext \<Rightarrow> nat \<Rightarrow> nat \<Rightarrow> nat \<Rightarrow> nat \<Rightarrow> nat list \<Rightarrow> lcs_state \<Rightarrow> lcs_state option" where
  "lcs_loop p iS1 iE1 iS2 iE2 [] st = Some st"
| "lcs_loop p iS1 iE1 iS2 iE2 (i # is) st =
     (case lcs_step p iS1 iE1 iS2 iE2 i st of None \<Rightarrow> None | Some st' \<Rightarrow> lcs_loop p iS1 iE1 iS2 iE2 is st')"

definition longestCommonSequence ::
  "(nat \<Rightarrow> nat \<Rightarrow> bool option) \<Rightarrow> dcontext \<Rightarrow> nat \<Rightarrow> nat \<Rightarrow> nat \<Rightarrow> nat \<Rightarrow> (nat \<times> nat \<times> nat \<times> nat) option" where
  "longestCommonSequence stray p iS1 iE1 iS2 iE2 =
     (case lcs_loop p iS1 iE1 iS2 iE2 [iS1..<iE1] (lcs_init iS1 iS2) of None \<Rightarrow> None
      | Some st \<Rightarrow>
        if iSXb st = iEXb st \<and> (iE1 - iS1) * (iE2 - iS2) < 400
        then optimalLCS stray p iS1 iE1 iS2 iE2
        else Some (iSXb st, iEXb st, iSYb st, iEYb st))"

end
