(* ===== verification/Fossil_Diff_Runs.thy ===== *)
theory Fossil_Diff_Runs
  imports Fossil_Diff
begin

text \<open>
  The searches of the differ return common runs: ranges of equal length inside of the given
  ranges whose lines are pairwise the same.  This holds for the search by hashing whatever the
  hash chains contain, and for the exhaustive search whatever the stray read yields.  On line arrays with sound hash
  chains the searches always return.
\<close>

definition common_run :: "dcontext \<Rightarrow> nat \<Rightarrow> nat \<Rightarrow> nat \<Rightarrow> nat \<Rightarrow> nat \<times> nat \<times> nat \<times> nat \<Rightarrow> bool" where
  "common_run p iS1 iE1 iS2 iE2 r = (case r of (sx, ex, sy, ey) \<Rightarrow>
     iS1 \<le> sx \<and> sx \<le> ex \<and> ex \<le> iE1 \<and> iS2 \<le> sy \<and> sy \<le> ey \<and> ey \<le> iE2 \<and> ex - sx = ey - sy \<and>
     (\<forall>k < ex - sx. same_at p (sx + k) (sy + k) = Some True))"

lemma common_runI:
  assumes "iS1 \<le> sx" "sx \<le> ex" "ex \<le> iE1" "iS2 \<le> sy" "ey \<le> iE2" "ex + sy = ey + sx"
    and "\<And>k. k < ex - sx \<Longrightarrow> same_at p (sx + k) (sy + k) = Some True"
  shows "common_run p iS1 iE1 iS2 iE2 (sx, ex, sy, ey)"
  using assms by (auto simp: common_run_def)

lemma common_run_empty [simp]: "iS1 \<le> iE1 \<Longrightarrow> iS2 \<le> iE2 \<Longrightarrow> common_run p iS1 iE1 iS2 iE2 (iS1, iS1, iS2, iS2)"
  by (simp add: common_run_def)

lemma common_run_bounds:
  "common_run p iS1 iE1 iS2 iE2 (sx, ex, sy, ey) \<Longrightarrow>
   iS1 \<le> sx \<and> sx \<le> ex \<and> ex \<le> iE1 \<and> iS2 \<le> sy \<and> sy \<le> ey \<and> ey \<le> iE2 \<and> ex + sy = ey + sx"
  by (auto simp: common_run_def)

declare run_forward.simps [simp del] olcs_cols.simps [simp del] olcs_rows.simps [simp del] chain_walk.simps [simp del]

lemma run_forward_run:
  "run_forward p iE1 iE2 x y = Some (ex, ey) \<Longrightarrow> x \<le> iE1 \<Longrightarrow> y \<le> iE2 \<Longrightarrow>
   x \<le> ex \<and> ex \<le> iE1 \<and> ey \<le> iE2 \<and> ex + y = ey + x \<and> (\<forall>k < ex - x. same_at p (x + k) (y + k) = Some True)"
proof (induction p iE1 iE2 x y rule: run_forward.induct)
  case (1 p iE1 iE2 x y)
  show ?case
  proof (cases "x < iE1 \<and> y < iE2 \<and> same_at p x y = Some True")
    case True
    then have rec: "run_forward p iE1 iE2 (x + 1) (y + 1) = Some (ex, ey)"
      using "1.prems"(1) by (subst (asm) run_forward.simps) simp
    have ih: "x + 1 \<le> ex \<and> ex \<le> iE1 \<and> ey \<le> iE2 \<and> ex + (y + 1) = ey + (x + 1)"
      "\<forall>k < ex - (x + 1). same_at p (x + 1 + k) (y + 1 + k) = Some True"
      using "1.IH"[of True] True rec by auto
    have "same_at p (x + k) (y + k) = Some True" if "k < ex - x" for k
      using True ih(2) [rule_format, of "k - 1"] that by (cases k) auto
    then show ?thesis using ih(1) by auto
  next
    case False
    then have "ex = x \<and> ey = y"
      using "1.prems"(1) by (subst (asm) run_forward.simps) (auto split: if_splits option.splits)
    then show ?thesis using "1.prems"(2,3) by simp
  qed
qed

lemma run_back_run:
  "run_back p iS1 iS2 x y = Some (sx, sy) \<Longrightarrow> iS1 \<le> x \<Longrightarrow> iS2 \<le> y \<Longrightarrow>
   iS1 \<le> sx \<and> sx \<le> x \<and> iS2 \<le> sy \<and> x + sy = y + sx \<and> (\<forall>k < x - sx. same_at p (sx + k) (sy + k) = Some True)"
proof (induction x arbitrary: y)
  case (Suc x)
  show ?case
  proof (cases "Suc x > iS1 \<and> y > iS2 \<and> same_at p x (y - 1) = Some True")
    case True
    then have rec: "run_back p iS1 iS2 x (y - 1) = Some (sx, sy)" using Suc.prems(1) by simp
    have ih: "iS1 \<le> sx \<and> sx \<le> x \<and> iS2 \<le> sy \<and> x + sy = (y - 1) + sx"
      "\<forall>k < x - sx. same_at p (sx + k) (sy + k) = Some True"
      using Suc.IH [OF rec] True by auto
    have "same_at p (sx + k) (sy + k) = Some True" if "k < Suc x - sx" for k
    proof (cases "k < x - sx")
      case False
      then have "sx + k = x" "sy + k = y - 1" using that ih(1) True by auto
      then show ?thesis using True by simp
    qed (use ih(2) in simp)
    then show ?thesis using ih(1) True by auto
  next
    case False
    then have "sx = Suc x \<and> sy = y" using Suc.prems(1) by (auto split: if_splits option.splits)
    then show ?thesis using Suc.prems(2,3) by simp
  qed
qed simp

subsection \<open>The exhaustive search\<close>

definition best_ok :: "dcontext \<Rightarrow> nat \<Rightarrow> nat \<Rightarrow> nat \<Rightarrow> nat \<Rightarrow> best_run \<Rightarrow> bool" where
  "best_ok p iS1 iE1 iS2 iE2 best = (case best of (m, x, y) \<Rightarrow> common_run p iS1 iE1 iS2 iE2 (x, x + m, y, y + m))"

lemma olcs_try_ok:
  assumes "olcs_try stray p iE1 iE2 i j best = Some best'" "best_ok p iS1 iE1 iS2 iE2 best"
    "iS1 \<le> i" "i < iE1" "iS2 \<le> j" "j < iE2"
  shows "best_ok p iS1 iE1 iS2 iE2 best'"
proof (cases "best' = best")
  case False
  obtain m a b where best: "best = (m, a, b)" by (cases best)
  from False assms(1) obtain x y where same: "same_at p i j = Some True"
    and mf: "run_forward p iE1 iE2 (i + 1) (j + 1) = Some (x, y)" and b': "best' = (x - i, i, j)"
    by (auto simp: olcs_try_def best split: option.splits bool.splits if_splits)
  note run = run_forward_run [OF mf]
  have "common_run p iS1 iE1 iS2 iE2 (i, x, j, y)"
  proof (rule common_runI)
    fix k assume "k < x - i"
    then show "same_at p (i + k) (j + k) = Some True"
      using same run [THEN conjunct2, THEN conjunct2, THEN conjunct2, THEN conjunct2] assms(4,6)
      by (cases k) auto
  qed (use run assms(3-6) in auto)
  moreover have "i \<le> x" "y = j + (x - i)" using run assms(4,6) by auto
  ultimately show ?thesis by (simp add: best_ok_def b')
qed (use assms in simp)

lemma olcs_cols_ok:
  "olcs_cols stray p iE1 iE2 i j best = Some best' \<Longrightarrow> best_ok p iS1 iE1 iS2 iE2 best \<Longrightarrow>
   iS1 \<le> i \<Longrightarrow> i < iE1 \<Longrightarrow> iS2 \<le> j \<Longrightarrow> best_ok p iS1 iE1 iS2 iE2 best'"
proof (induction stray p iE1 iE2 i j best rule: olcs_cols.induct)
  case (1 stray p iE1 iE2 i j best)
  show ?case
  proof (cases "j < iE2 - fst best")
    case True
    then obtain b where b: "olcs_try stray p iE1 iE2 i j best = Some b" "olcs_cols stray p iE1 iE2 i (j + 1) b = Some best'"
      using "1.prems"(1) by (subst (asm) olcs_cols.simps) (auto split: option.splits)
    have "best_ok p iS1 iE1 iS2 iE2 b" using olcs_try_ok [OF b(1) "1.prems"(2)] "1.prems" True by simp
    then show ?thesis using "1.IH" [OF True b(1) b(2)] "1.prems" by simp
  next
    case False
    then show ?thesis using "1.prems"(1,2) by (subst (asm) olcs_cols.simps) simp
  qed
qed

lemma olcs_rows_ok:
  "olcs_rows stray p iE1 iS2 iE2 i best = Some best' \<Longrightarrow> best_ok p iS1 iE1 iS2 iE2 best \<Longrightarrow>
   iS1 \<le> i \<Longrightarrow> best_ok p iS1 iE1 iS2 iE2 best'"
proof (induction stray p iE1 iS2 iE2 i best rule: olcs_rows.induct)
  case (1 stray p iE1 iS2 iE2 i best)
  show ?case
  proof (cases "i < iE1 - fst best")
    case True
    then obtain b where b: "olcs_cols stray p iE1 iE2 i iS2 best = Some b" "olcs_rows stray p iE1 iS2 iE2 (i + 1) b = Some best'"
      using "1.prems"(1) by (subst (asm) olcs_rows.simps) (auto split: option.splits)
    have "best_ok p iS1 iE1 iS2 iE2 b" using olcs_cols_ok [OF b(1) "1.prems"(2)] "1.prems" True by simp
    then show ?thesis using "1.IH" [OF True b(1) b(2)] "1.prems" by simp
  next
    case False
    then show ?thesis using "1.prems"(1,2) by (subst (asm) olcs_rows.simps) simp
  qed
qed

lemma optimalLCS_run:
  assumes "optimalLCS stray p iS1 iE1 iS2 iE2 = Some r" "iS1 \<le> iE1" "iS2 \<le> iE2"
  shows "common_run p iS1 iE1 iS2 iE2 r"
proof -
  obtain m x y where "olcs_rows stray p iE1 iS2 iE2 iS1 (0, iS1, iS2) = Some (m, x, y)" and r: "r = (x, x + m, y, y + m)"
    using assms(1) by (auto simp: optimalLCS_def)
  then have "best_ok p iS1 iE1 iS2 iE2 (m, x, y)"
    using olcs_rows_ok [of stray p iE1 iS2 iE2 iS1 "(0, iS1, iS2)" "(m, x, y)" iS1] assms(2,3) by (simp add: best_ok_def)
  then show ?thesis by (simp add: best_ok_def r)
qed

subsection \<open>The search by hashing\<close>

definition lcs_ok :: "dcontext \<Rightarrow> nat \<Rightarrow> nat \<Rightarrow> nat \<Rightarrow> nat \<Rightarrow> nat \<Rightarrow> lcs_state \<Rightarrow> bool" where
  "lcs_ok p iS1 iE1 iS2 iE2 i st \<longleftrightarrow>
     common_run p iS1 iE1 iS2 iE2 (iSXb st, iEXb st, iSYb st, iEYb st) \<and> iSXb st \<le> i \<and> iSXp st \<le> i"

lemma chain_walk_found:
  "chain_walk p i iS2 iE2 limit j = Some k \<Longrightarrow> k \<noteq> 0 \<Longrightarrow> iS2 < k \<and> k < iE2 \<and> same_at p i (k - 1) = Some True"
proof (induction p i iS2 iE2 limit j rule: chain_walk.induct)
  case (1 p i iS2 iE2 limit j)
  show ?case
  proof (cases "(if j - 1 < iS2 \<or> j \<ge> iE2 then Some False else same_at p i (j - 1)) = Some True")
    case True
    then show ?thesis using "1.prems" by (subst (asm) chain_walk.simps) (auto split: if_splits)
  next
    case False
    then obtain l where "chain_walk p i iS2 iE2 (limit + 1) (iNext (aTo p ! (j - 1))) = Some k"
      "j \<noteq> 0" "(if j - 1 < iS2 \<or> j \<ge> iE2 then Some False else same_at p i (j - 1)) = Some False"
      "\<not> limit > 10" "j - 1 < length (aTo p)"
      using "1.prems" by (subst (asm) chain_walk.simps) (auto split: if_splits option.splits)
    then show ?thesis using "1.IH" [of False] "1.prems"(2) by simp
  qed
qed

lemma lcs_found_ok:
  assumes "lcs_found p iS1 iE1 iS2 iE2 i j st = Some st'" "lcs_ok p iS1 iE1 iS2 iE2 i st"
    "iS1 \<le> i" "i < iE1" "iS2 < j" "j < iE2" "same_at p i (j - 1) = Some True"
  shows "lcs_ok p iS1 iE1 iS2 iE2 (Suc i) st'"
proof -
  obtain sx sy ex ey where mb: "run_back p iS1 iS2 i (j - 1) = Some (sx, sy)"
    and mf: "run_forward p iE1 iE2 (i + 1) j = Some (ex, ey)"
    and st': "st' = st\<lparr>bestScore := lcs_score iS1 iS2 ((iE1 + iS1) div 2) sx ex sy,
        iSXb := sx, iSYb := sy, iEXb := ex, iEYb := ey\<rparr>
      \<or> st' = st\<lparr>iSXp := sx, iSYp := sy, iEXp := ex, iEYp := ey\<rparr>"
    using assms(1) by (auto simp: lcs_found_def Let_def split: option.splits if_splits)
  have le: "iS2 \<le> j - 1" "i + 1 \<le> iE1" "j \<le> iE2" using assms(4-6) by simp_all
  note bwd = run_back_run [OF mb assms(3) le(1)] and forw = run_forward_run [OF mf le(2,3)]
  have "common_run p iS1 iE1 iS2 iE2 (sx, ex, sy, ey)"
  proof (rule common_runI)
    fix k assume k: "k < ex - sx"
    consider "k < i - sx" | "sx + k = i" | "sx + k > i" by linarith
    then show "same_at p (sx + k) (sy + k) = Some True"
    proof cases
      case 1
      then show ?thesis using bwd assms(3,5) by auto
    next
      case 2
      then have "sy + k = j - 1" using bwd assms(3,5) by auto
      then show ?thesis using assms(7) 2 by simp
    next
      case 3
      then obtain d where d: "sx + k = i + 1 + d" using less_imp_Suc_add by fastforce
      then have "sy + k = j + d" "d < ex - (i + 1)" using bwd assms(3,5) k by auto
      then show ?thesis using forw assms(4,6) d by auto
    qed
  qed (use bwd forw assms(3-6) in auto)
  moreover have "sx \<le> i" using bwd assms(3,5) by auto
  ultimately show ?thesis using st' assms(2) by (auto simp: lcs_ok_def)
qed

lemma lcs_step_ok:
  assumes "lcs_step p iS1 iE1 iS2 iE2 i st = Some st'" "lcs_ok p iS1 iE1 iS2 iE2 i st" "iS1 \<le> i" "i < iE1"
  shows "lcs_ok p iS1 iE1 iS2 iE2 (Suc i) st'"
proof (cases "st' = st")
  case False
  then obtain j where "chain_walk p i iS2 iE2 0 (iHash (aTo p ! (unat (hLine (aFrom p ! i)) mod length (aTo p)))) = Some j"
    "j \<noteq> 0" "lcs_found p iS1 iE1 iS2 iE2 i j st = Some st'"
    using assms(1) by (auto simp: lcs_step_def split: if_splits option.splits)
  then show ?thesis using lcs_found_ok assms(2-4) chain_walk_found by metis
qed (use assms in \<open>simp add: lcs_ok_def\<close>)

lemma lcs_loop_ok:
  "lcs_loop p iS1 iE1 iS2 iE2 [i..<iE1] st = Some st' \<Longrightarrow> lcs_ok p iS1 iE1 iS2 iE2 i st \<Longrightarrow>
   iS1 \<le> i \<Longrightarrow> i \<le> iE1 \<Longrightarrow> lcs_ok p iS1 iE1 iS2 iE2 iE1 st'"
proof (induction "iE1 - i" arbitrary: i st)
  case (Suc n)
  then obtain s where s: "lcs_step p iS1 iE1 iS2 iE2 i st = Some s" "lcs_loop p iS1 iE1 iS2 iE2 [Suc i..<iE1] s = Some st'"
    by (auto simp: upt_conv_Cons split: option.splits)
  have "lcs_ok p iS1 iE1 iS2 iE2 (Suc i) s" using lcs_step_ok [OF s(1)] Suc by simp
  then show ?case using Suc.hyps(1) [of "Suc i" s] s(2) Suc.hyps(2) Suc.prems by simp
qed simp

theorem lcs_run:
  assumes "longestCommonSequence stray p iS1 iE1 iS2 iE2 = Some r" "iS1 \<le> iE1" "iS2 \<le> iE2"
  shows "common_run p iS1 iE1 iS2 iE2 r"
proof -
  obtain st where st: "lcs_loop p iS1 iE1 iS2 iE2 [iS1..<iE1] (lcs_init iS1 iS2) = Some st"
    using assms(1) by (auto simp: longestCommonSequence_def split: option.splits)
  have "lcs_ok p iS1 iE1 iS2 iE2 iE1 st"
    using lcs_loop_ok [OF st] assms(2,3) by (simp add: lcs_ok_def lcs_init_def)
  then show ?thesis
    using assms optimalLCS_run [of stray p iS1 iE1 iS2 iE2 r]
    by (auto simp: longestCommonSequence_def st lcs_ok_def split: if_splits)
qed

section \<open>The searches return\<close>

text \<open>Sound hash chains: every link is 0 or one more than a line number.\<close>

definition chains_ok :: "dline list \<Rightarrow> bool" where
  "chains_ok a \<longleftrightarrow> a \<noteq> [] \<and> (\<forall>d \<in> set a. iHash d \<le> length a \<and> iNext d \<le> length a)"

lemma same_at_total: "i < length (aFrom p) \<Longrightarrow> j < length (aTo p) \<Longrightarrow> same_at p i j \<noteq> None"
  by (simp add: same_at_def)

lemma run_forward_total:
  "iE1 \<le> length (aFrom p) \<Longrightarrow> iE2 \<le> length (aTo p) \<Longrightarrow> run_forward p iE1 iE2 x y \<noteq> None"
proof (induction p iE1 iE2 x y rule: run_forward.induct)
  case (1 p iE1 iE2 x y)
  show ?case
  proof (cases "x < iE1 \<and> y < iE2")
    case True
    then have "same_at p x y \<noteq> None" using same_at_total "1.prems" by simp
    then show ?thesis
      using 1 True by (subst run_forward.simps) (auto split: option.splits)
  next
    case False
    then show ?thesis by (subst run_forward.simps) auto
  qed
qed

lemma run_back_total:
  "x \<le> length (aFrom p) \<Longrightarrow> y \<le> length (aTo p) \<Longrightarrow> run_back p iS1 iS2 x y \<noteq> None"
proof (induction x arbitrary: y)
  case (Suc x)
  show ?case
  proof (cases "Suc x > iS1 \<and> y > iS2")
    case True
    then have "y - 1 < length (aTo p)" "x < length (aFrom p)" using Suc.prems by auto
    then show ?thesis using Suc.IH [of "y - 1"] same_at_total True by (auto split: option.splits)
  qed auto
qed simp

lemma chain_walk_total:
  assumes "chains_ok (aTo p)" "i < length (aFrom p)" "iE2 \<le> length (aTo p)"
  shows "j \<le> length (aTo p) \<Longrightarrow> chain_walk p i iS2 iE2 limit j \<noteq> None"
proof (induction "11 - limit" arbitrary: limit j rule: less_induct)
  case less
  show ?case
  proof (cases "j = 0")
    case False
    then have lt: "j - 1 < length (aTo p)" using less.prems by auto
    then have "iNext (aTo p ! (j - 1)) \<le> length (aTo p)" using assms(1) by (simp add: chains_ok_def)
    then have "\<not> limit > 10 \<Longrightarrow> chain_walk p i iS2 iE2 (limit + 1) (iNext (aTo p ! (j - 1))) \<noteq> None"
      by (intro less.hyps) auto
    then show ?thesis
      using False lt same_at_total [OF assms(2) lt] by (subst chain_walk.simps) (auto split: option.splits)
  qed (simp add: chain_walk.simps)
qed

lemma olcs_try_total:
  assumes "iE1 \<le> length (aFrom p)" "iE2 \<le> length (aTo p)" "\<forall>i j. stray i j \<noteq> None"
    and "i < iE1" "i + fst best \<le> iE1" "j + fst best < iE2"
  shows "\<exists>m x y. olcs_try stray p iE1 iE2 i j best = Some (m, x, y) \<and> i + m \<le> iE1"
proof -
  obtain m x y where best: "best = (m, x, y)" by (cases best)
  obtain b where b: "same_at p i j = Some b" using same_at_total [of i p j] assms by auto
  have "i + m = length (aFrom p) \<or> i + m < length (aFrom p)" "j + m < length (aTo p)" using assms by (auto simp: best)
  then have "(if m \<noteq> 0 then same_stray stray p (i + m) (j + m) else Some True) \<noteq> None"
    using assms(3) same_at_total by (auto simp: same_stray_def)
  then obtain c where c: "(if m \<noteq> 0 then same_stray stray p (i + m) (j + m) else Some True) = Some c" by blast
  obtain ex ey where mf: "run_forward p iE1 iE2 (i + 1) (j + 1) = Some (ex, ey)"
    using run_forward_total [OF assms(1,2), of "i + 1" "j + 1"] by auto
  have "ex \<le> iE1" "i + 1 \<le> ex" using run_forward_run [OF mf] assms(4,6) by auto
  then show ?thesis using b c mf assms(5) by (cases b; cases c) (auto simp: olcs_try_def best)
qed

lemma olcs_cols_total:
  assumes "iE1 \<le> length (aFrom p)" "iE2 \<le> length (aTo p)" "\<forall>i j. stray i j \<noteq> None" "i < iE1"
  shows "i + fst best \<le> iE1 \<Longrightarrow> olcs_cols stray p iE1 iE2 i j best \<noteq> None"
proof (induction "iE2 - j" arbitrary: j best rule: less_induct)
  case less
  show ?case
  proof (cases "j < iE2 - fst best")
    case True
    then have "j + fst best < iE2" by simp
    from olcs_try_total [OF assms less.prems this] obtain m x y
      where b: "olcs_try stray p iE1 iE2 i j best = Some (m, x, y)" "i + m \<le> iE1" by blast
    then have "olcs_cols stray p iE1 iE2 i (j + 1) (m, x, y) \<noteq> None" using True by (intro less.hyps) auto
    then show ?thesis using True b(1) by (subst olcs_cols.simps) simp
  next
    case False
    then show ?thesis by (subst olcs_cols.simps) simp
  qed
qed

lemma olcs_rows_total:
  assumes "iE1 \<le> length (aFrom p)" "iE2 \<le> length (aTo p)" "\<forall>i j. stray i j \<noteq> None"
  shows "olcs_rows stray p iE1 iS2 iE2 i best \<noteq> None"
proof (induction "iE1 - i" arbitrary: i best rule: less_induct)
  case less
  show ?case
  proof (cases "i < iE1 - fst best")
    case True
    then have "olcs_cols stray p iE1 iE2 i iS2 best \<noteq> None" by (intro olcs_cols_total [OF assms]) auto
    moreover have "olcs_rows stray p iE1 iS2 iE2 (i + 1) b \<noteq> None" for b using less.hyps [of "i + 1" b] True by simp
    ultimately show ?thesis using True by (subst olcs_rows.simps) auto
  next
    case False
    then show ?thesis by (subst olcs_rows.simps) simp
  qed
qed

lemma lcs_step_total:
  assumes "iE1 \<le> length (aFrom p)" "iE2 \<le> length (aTo p)" "chains_ok (aTo p)" "i < iE1"
    and "lcs_ok p iS1 iE1 iS2 iE2 i st"
  shows "lcs_step p iS1 iE1 iS2 iE2 i st \<noteq> None"
proof -
  have i: "i < length (aFrom p)" "aTo p \<noteq> []" using assms by (auto simp: chains_ok_def)
  have "iHash (aTo p ! (unat (hLine (aFrom p ! i)) mod length (aTo p))) \<le> length (aTo p)"
    using assms(3) i(2) by (simp add: chains_ok_def)
  from chain_walk_total [OF assms(3) i(1) assms(2) this]
  obtain j where j: "chain_walk p i iS2 iE2 0 (iHash (aTo p ! (unat (hLine (aFrom p ! i)) mod length (aTo p)))) = Some j" by blast
  have "lcs_found p iS1 iE1 iS2 iE2 i j st \<noteq> None" if "j \<noteq> 0"
  proof -
    have "j < iE2" using chain_walk_found [OF j that] by simp
    then have "run_back p iS1 iS2 i (j - 1) \<noteq> None" using assms i by (intro run_back_total) auto
    then show ?thesis
      using run_forward_total [OF assms(1,2), of "i + 1" j] by (auto simp: lcs_found_def Let_def)
  qed
  then show ?thesis using i j assms(5) by (auto simp: lcs_step_def lcs_ok_def)
qed

lemma lcs_loop_total:
  "iE1 \<le> length (aFrom p) \<Longrightarrow> iE2 \<le> length (aTo p) \<Longrightarrow> chains_ok (aTo p) \<Longrightarrow> lcs_ok p iS1 iE1 iS2 iE2 i st \<Longrightarrow> iS1 \<le> i \<Longrightarrow>
   lcs_loop p iS1 iE1 iS2 iE2 [i..<iE1] st \<noteq> None"
proof (induction "iE1 - i" arbitrary: i st)
  case (Suc n)
  then have i: "i < iE1" by simp
  obtain s where s: "lcs_step p iS1 iE1 iS2 iE2 i st = Some s" using lcs_step_total [OF Suc.prems(1-3) i Suc.prems(4)] by auto
  have "lcs_ok p iS1 iE1 iS2 iE2 (Suc i) s" using lcs_step_ok [OF s] Suc.prems i by simp
  then have "lcs_loop p iS1 iE1 iS2 iE2 [Suc i..<iE1] s \<noteq> None" using Suc.hyps(1) [of "Suc i" s] Suc.hyps(2) Suc.prems by simp
  then show ?case using s i by (simp add: upt_conv_Cons)
qed simp

theorem lcs_total:
  assumes "iE1 \<le> length (aFrom p)" "iE2 \<le> length (aTo p)" "chains_ok (aTo p)" "\<forall>i j. stray i j \<noteq> None"
    and "iS1 \<le> iE1" "iS2 \<le> iE2"
  shows "longestCommonSequence stray p iS1 iE1 iS2 iE2 \<noteq> None"
proof -
  have "lcs_ok p iS1 iE1 iS2 iE2 iS1 (lcs_init iS1 iS2)" using assms(5,6) by (simp add: lcs_ok_def lcs_init_def)
  from lcs_loop_total [OF assms(1-3) this] obtain st where "lcs_loop p iS1 iE1 iS2 iE2 [iS1..<iE1] (lcs_init iS1 iS2) = Some st" by auto
  then show ?thesis
    using olcs_rows_total [OF assms(1,2,4), of iS2 iS1 "(0, iS1, iS2)"] by (auto simp: longestCommonSequence_def optimalLCS_def)
qed

text \<open>The exhaustive search does read behind the lines of the first file: here \<open>stray\<close>, the result of such a
  comparison, is needed for an answer.\<close>

lemma optimalLCS_overrun:
  assumes "aFrom p = [x]" "aTo p = y # z # w # ws" "\<not> same_dline x y" "same_dline x z" "same_dline x w" "3 < n" "n \<le> length (aTo p)"
  shows "optimalLCS (\<lambda>i j. None) p 0 1 0 n = None"
proof -
  have "olcs_cols (\<lambda>i j. None) p 1 n 0 0 (0, 0, 0) = None"
    using assms
    by (simp add: olcs_cols.simps [of _ p _ _ _ 0] olcs_cols.simps [of _ p _ _ _ "Suc 0"]
          olcs_cols.simps [of _ p _ _ _ "Suc (Suc 0)"] olcs_try_def same_at_def same_stray_def run_forward.simps) linarith
  then show ?thesis by (simp add: optimalLCS_def olcs_rows.simps)
qed

end
