(* ===== verification/Fossil_Diff_Step.thy ===== *)
theory Fossil_Diff_Step
  imports Fossil_Diff_Runs
begin

text \<open>
  The recursion of \<^verbatim>\<open>ssfossil/fossil/src/diff.c\<close> over common runs (\<open>diff_step\<close>, \<open>diff_all\<close>) and \<open>text_diff\<close>.
  That the recursion ends rests on the bounds of the common run it recurses around
  (\<open>lcs_run\<close>).

  \<open>None\<close> is a read outside of an array or a failed assertion.  The value \<open>Some None\<close> of \<open>text_diff\<close> is the
  null pointer it returns for a binary file, for a line that is too long, and when memory runs
  out.
\<close>

lemma lcs_decreases:
  assumes "longestCommonSequence stray p iS1 iE1 iS2 iE2 = Some (iSX, iEX, iSY, iEY)" "\<not> iE1 \<le> iS1" "\<not> iE2 \<le> iS2" "iSX < iEX"
  shows "(iSX - iS1) + (iSY - iS2) < (iE1 - iS1) + (iE2 - iS2)" "(iE1 - iEX) + (iE2 - iEY) < (iE1 - iS1) + (iE2 - iS2)"
  using common_run_bounds [OF lcs_run [OF assms(1)]] assms(2-4) by auto

function diff_step :: "(nat \<Rightarrow> nat \<Rightarrow> bool option) \<Rightarrow> (nat \<Rightarrow> bool) \<Rightarrow> nat \<Rightarrow> nat \<Rightarrow> nat \<Rightarrow> nat \<Rightarrow> dcontext \<Rightarrow> dcontext option" where
  "diff_step stray mem iS1 iE1 iS2 iE2 p =
     (if iE1 \<le> iS1 then Some (if iE2 > iS2 then appendTriple mem 0 0 (int (iE2 - iS2)) p else p)
      else if iE2 \<le> iS2 then Some (appendTriple mem 0 (int (iE1 - iS1)) 0 p)
      else case longestCommonSequence stray p iS1 iE1 iS2 iE2 of None \<Rightarrow> None
        | Some (iSX, iEX, iSY, iEY) \<Rightarrow>
          if iEX > iSX
          then case diff_step stray mem iS1 iSX iS2 iSY p of None \<Rightarrow> None
            | Some p' \<Rightarrow> diff_step stray mem iEX iE1 iEY iE2 (appendTriple mem (int (iEX - iSX)) 0 0 p')
          else Some (appendTriple mem 0 (int (iE1 - iS1)) (int (iE2 - iS2)) p))"
  by pat_completeness auto

termination
  by (relation "measure (\<lambda>(stray, mem, iS1, iE1, iS2, iE2, p). (iE1 - iS1) + (iE2 - iS2))")
    (auto dest: lcs_decreases)

declare diff_step.simps [simp del]

definition diff_all :: "(nat \<Rightarrow> nat \<Rightarrow> bool option) \<Rightarrow> (nat \<Rightarrow> bool) \<Rightarrow> dcontext \<Rightarrow> dcontext option" where
  "diff_all stray mem p =
     (case run_back p 0 0 (length (aFrom p)) (length (aTo p)) of None \<Rightarrow> None
      | Some (iE1, iE2) \<Rightarrow>
        (case run_forward p (min iE1 iE2) (min iE1 iE2) 0 0 of None \<Rightarrow> None
         | Some (iS, _) \<Rightarrow>
           let p = (if iS > 0 then appendTriple mem (int iS) 0 0 p else p) in
           (case diff_step stray mem iS iE1 iS iE2 p of None \<Rightarrow> None
            | Some p \<Rightarrow>
              let p = (if iE1 < length (aFrom p) then appendTriple mem (int (length (aFrom p) - iE1)) 0 0 p else p);
                  p = expandEdit mem (nEdit p + 3) p
              in Some (if aEdit p = None then p else push_edit 0 (push_edit 0 (push_edit 0 p))))))"

definition text_diff :: "(nat \<Rightarrow> nat \<Rightarrow> bool option) \<Rightarrow> (nat \<Rightarrow> bool) \<Rightarrow> byte list \<Rightarrow> byte list \<Rightarrow> bool \<Rightarrow> int list option option" where
  "text_diff stray mem a b ignoreEolWs =
     (case (break_into_lines a ignoreEolWs, break_into_lines b ignoreEolWs) of
        (Some f, Some t) \<Rightarrow> map_option aEdit (diff_all stray mem \<lparr>aEdit = None, nEditAlloc = 0, aFrom = f, aTo = t\<rparr>)
      | _ \<Rightarrow> Some None)"

end
