(* ===== verification/Fossil_Blob.thy ===== *)
theory Fossil_Blob
  imports Fossil_Encode
begin

text \<open>
  The byte buffers of \<^verbatim>\<open>ssfossil/fossil/src/blob.c\<close>.  A blob holds a pointer to bytes, how many of them it
  may write (\<open>nAlloc\<close>), how many are in use and a reading position; \<open>xRealloc\<close> tells memory of its
  own from memory that belongs to others.

  A pointer is the list of the bytes that can be accessed from there on (the null pointer is the
  empty list); an access outside of it is a \<open>Fault\<close>, an exit of the program for lack of memory a
  \<open>Panic\<close>.  The fields are \<open>unsigned int\<close>s: sums are taken modulo \<open>2 ^ 32\<close> where the code adds to
  them.  Two blobs can share memory; the model of an extracted blob holds the bytes as they are
  at that moment.  The parameter \<open>H\<close> is the memory allocator: whether \<open>n\<close> bytes can be had, and what is
  in fresh memory.
\<close>

datatype realloc_kind = ReallocMalloc | ReallocStatic

record blob =
  nUsed :: nat
  nAlloc :: nat
  iCursor :: nat
  aData :: "byte list"
  xRealloc :: realloc_kind

record allocator =
  avail :: "nat \<Rightarrow> bool"
  junk :: "nat \<Rightarrow> byte"

datatype blob_error = Panic | Fault

type_synonym 'a blob_result = "blob_error + 'a"

definition to_u32 :: "int \<Rightarrow> nat" where
  "to_u32 x = nat (x mod 2 ^ 32)"

definition to_i32 :: "nat \<Rightarrow> int" where
  "to_i32 x = (if x < 2 ^ 31 then int x else int x - 2 ^ 32)"

definition blob_isspace :: "byte \<Rightarrow> bool" where
  "blob_isspace c \<longleftrightarrow> c = 0x20 \<or> sint c \<le> 0x0d \<and> sint c \<ge> 0x09"

section \<open>Memory\<close>

definition empty_blob :: blob where
  "empty_blob = \<lparr>nUsed = 0, nAlloc = 0, iCursor = 0, aData = [], xRealloc = ReallocMalloc\<rparr>"

definition blobReallocMalloc :: "allocator \<Rightarrow> nat \<Rightarrow> blob \<Rightarrow> blob blob_result" where
  "blobReallocMalloc H newSize b =
     (if newSize = 0 then Inr (b\<lparr>aData := [], nAlloc := 0, nUsed := 0, iCursor := 0\<rparr>)
      else if newSize > nAlloc b \<or> newSize < to_u32 (int (nAlloc b) - 4000)
      then if \<not> avail H newSize then Inl Panic
           else let b = b\<lparr>aData := take newSize (aData b) @ map (junk H) [length (aData b)..<newSize], nAlloc := newSize\<rparr>
                in Inr (if nUsed b > nAlloc b then b\<lparr>nUsed := nAlloc b\<rparr> else b)
      else Inr b)"

definition blobReallocStatic :: "allocator \<Rightarrow> nat \<Rightarrow> blob \<Rightarrow> blob blob_result" where
  "blobReallocStatic H newSize b =
     (if newSize = 0 then Inr empty_blob
      else if \<not> avail H newSize then Inl Panic
      else let b = (if nUsed b > newSize then b\<lparr>nUsed := newSize\<rparr> else b) in
           if nUsed b > length (aData b) then Inl Fault
           else Inr (b\<lparr>aData := take (nUsed b) (aData b) @ map (junk H) [nUsed b..<newSize],
                  xRealloc := ReallocMalloc, nAlloc := newSize\<rparr>))"

definition blob_realloc :: "allocator \<Rightarrow> nat \<Rightarrow> blob \<Rightarrow> blob blob_result" where
  "blob_realloc H n b = (case xRealloc b of ReallocMalloc \<Rightarrow> blobReallocMalloc H n b | ReallocStatic \<Rightarrow> blobReallocStatic H n b)"

definition blob_reset :: "allocator \<Rightarrow> blob \<Rightarrow> blob blob_result" where
  "blob_reset H b = blob_realloc H 0 b"

text \<open>\<open>z\<close> is the memory the pointer gives access to, \<open>None\<close> the null pointer.\<close>

definition blob_init :: "byte list option \<Rightarrow> int \<Rightarrow> blob" where
  "blob_init zData n =
     (case zData of None \<Rightarrow> empty_blob
      | Some z \<Rightarrow> let n = (if n \<le> 0 then strlen z else nat n) in
          \<lparr>nUsed = n, nAlloc = n, iCursor = 0, aData = z, xRealloc = ReallocStatic\<rparr>)"

definition blob_set :: "byte list option \<Rightarrow> blob" where
  "blob_set zStr = blob_init zStr (-1)"

definition blob_zero :: blob where
  "blob_zero = \<lparr>nUsed = 0, nAlloc = 1, iCursor = 0, aData = [0], xRealloc = ReallocStatic\<rparr>"

text \<open>The copy of the new bytes with a NUL behind them.\<close>

definition blob_put :: "byte list \<Rightarrow> blob \<Rightarrow> blob blob_result" where
  "blob_put d b =
     (let n = nUsed b + length d in
      if n < length (aData b)
      then Inr (b\<lparr>aData := take (nUsed b) (aData b) @ d @ 0 # drop (n + 1) (aData b), nUsed := n mod 2 ^ 32\<rparr>)
      else Inl Fault)"

definition blob_append :: "allocator \<Rightarrow> byte list \<Rightarrow> int \<Rightarrow> blob \<Rightarrow> blob blob_result" where
  "blob_append H z nData b =
     (let n = (if nData < 0 then strlen z else nat nData) in
      if n = 0 then Inr b
      else if n > length z then Inl Fault
      else if (nUsed b + n) mod 2 ^ 32 \<ge> nAlloc b
      then case blob_realloc H ((nUsed b + n + nAlloc b + 100) mod 2 ^ 32) b of Inl e \<Rightarrow> Inl e
        | Inr b \<Rightarrow> if (nUsed b + n) mod 2 ^ 32 \<ge> nAlloc b then Inl Panic else blob_put (take n z) b
      else blob_put (take n z) b)"

definition blob_copy :: "allocator \<Rightarrow> blob \<Rightarrow> blob blob_result" where
  "blob_copy H pFrom = blob_append H (aData pFrom) (to_i32 (nUsed pFrom)) blob_zero"

definition blob_resize :: "allocator \<Rightarrow> nat \<Rightarrow> blob \<Rightarrow> blob blob_result" where
  "blob_resize H newSize b =
     (case blob_realloc H ((newSize + 1) mod 2 ^ 32) b of Inl e \<Rightarrow> Inl e
      | Inr b \<Rightarrow> if newSize < length (aData b) then Inr (b\<lparr>nUsed := newSize, aData := (aData b)[newSize := 0]\<rparr>) else Inl Fault)"

definition blob_materialize :: "allocator \<Rightarrow> blob \<Rightarrow> blob blob_result" where
  "blob_materialize H b = blob_resize H (nUsed b) b"

definition blob_str :: "allocator \<Rightarrow> blob \<Rightarrow> blob blob_result" where
  "blob_str H b =
     (case (if nUsed b = 0 then map_sum id (\<lambda>b. b\<lparr>nUsed := 0\<rparr>) (blob_append H [0] 1 b) else Inr b) of Inl e \<Rightarrow> Inl e
      | Inr b \<Rightarrow>
        if nUsed b \<ge> length (aData b) then Inl Fault
        else if aData b ! nUsed b \<noteq> 0 then blob_materialize H b else Inr b)"

definition blob_dehttpize :: "allocator \<Rightarrow> blob \<Rightarrow> blob blob_result" where
  "blob_dehttpize H b =
     map_sum id (\<lambda>b. let (z, n) = dehttpize (aData b) in b\<lparr>aData := z, nUsed := n\<rparr>) (blob_materialize H b)"

section \<open>Comparison\<close>

fun memcmp :: "byte list \<Rightarrow> byte list \<Rightarrow> nat \<Rightarrow> int" where
  "memcmp a b 0 = 0"
| "memcmp a b (Suc n) = (if byte_at a 0 = byte_at b 0 then memcmp (drop 1 a) (drop 1 b) n
     else if byte_at a 0 < byte_at b 0 then -1 else 1)"

definition blob_compare :: "blob \<Rightarrow> blob \<Rightarrow> int" where
  "blob_compare pA pB =
     (let rc = memcmp (aData pA) (aData pB) (min (nUsed pA) (nUsed pB)) in
      if rc = 0 then to_i32 (nUsed pA) - to_i32 (nUsed pB) else rc)"

definition blob_eq_str :: "blob \<Rightarrow> byte list \<Rightarrow> int \<Rightarrow> bool" where
  "blob_eq_str b z n =
     (let n = (if n \<le> 0 then strlen z else nat n)
      in blob_compare b \<lparr>nUsed = n, nAlloc = 0, iCursor = 0, aData = z, xRealloc = ReallocStatic\<rparr> = 0)"

definition blob_eq :: "blob \<Rightarrow> byte list \<Rightarrow> bool" where
  "blob_eq b S \<longleftrightarrow> nUsed b = length S \<and> memcmp (aData b) S (length S) = 0"

section \<open>Reading\<close>

text \<open>\<open>blob_extract\<close> yields the number of bytes, the blob read from and the extracted blob.\<close>

definition blob_extract :: "blob \<Rightarrow> int \<Rightarrow> int \<times> blob \<times> blob" where
  "blob_extract pFrom N =
     (let over = to_u32 (int (iCursor pFrom) + N) > nUsed pFrom;
          N = (if over then to_i32 (to_u32 (int (nUsed pFrom) - int (iCursor pFrom))) else N)
      in if over \<and> N \<le> 0 then (0, pFrom, blob_zero)
         else (N, pFrom\<lparr>iCursor := to_u32 (int (iCursor pFrom) + N)\<rparr>,
           \<lparr>nUsed = to_u32 N, nAlloc = to_u32 N, iCursor = 0, aData = drop (iCursor pFrom) (aData pFrom), xRealloc = ReallocStatic\<rparr>))"

definition blob_rewind :: "blob \<Rightarrow> blob" where
  "blob_rewind b = b\<lparr>iCursor := 0\<rparr>"

datatype whence = BLOB_SEEK_SET | BLOB_SEEK_CUR | BLOB_SEEK_END

text \<open>The position is unsigned: the test whether it is negative never holds.\<close>

definition blob_seek :: "blob \<Rightarrow> int \<Rightarrow> whence \<Rightarrow> int \<times> blob" where
  "blob_seek b offset wh =
     (let c = (case wh of BLOB_SEEK_SET \<Rightarrow> to_u32 offset
                | BLOB_SEEK_CUR \<Rightarrow> to_u32 (int (iCursor b) + offset)
                | BLOB_SEEK_END \<Rightarrow> to_u32 (int (nUsed b) + offset - 1));
          c = (if c > nUsed b then nUsed b else c)
      in (to_i32 c, b\<lparr>iCursor := c\<rparr>))"

definition blob_tell :: "blob \<Rightarrow> int" where
  "blob_tell b = to_i32 (iCursor b)"

text \<open>The bytes in use, and those from the reading position on.\<close>

definition content :: "blob \<Rightarrow> byte list" where
  "content b = take (nUsed b) (aData b)"

definition unread :: "blob \<Rightarrow> byte list" where
  "unread b = drop (iCursor b) (content b)"

definition blob_line :: "blob \<Rightarrow> nat \<times> blob \<times> blob" where
  "blob_line pFrom =
     (let k = length (takeWhile (\<lambda>c. c \<noteq> 0x0a) (unread pFrom));
          i = iCursor pFrom + k;
          i = (if i < nUsed pFrom then i + 1 else i);
          (_, pFrom, pTo) = blob_extract pFrom (int i - int (iCursor pFrom))
      in (nUsed pTo, pFrom, pTo))"

definition blob_trim :: "blob \<Rightarrow> nat \<times> blob" where
  "blob_trim b = (let n = length (dropWhile blob_isspace (rev (content b))) in (n, b\<lparr>nUsed := n\<rparr>))"

definition blob_token :: "blob \<Rightarrow> nat \<times> blob \<times> blob" where
  "blob_token pFrom =
     (let pFrom = pFrom\<lparr>iCursor := iCursor pFrom + length (takeWhile blob_isspace (unread pFrom))\<rparr>;
          k = length (takeWhile (\<lambda>c. \<not> blob_isspace c) (unread pFrom));
          i = iCursor pFrom + k;
          (_, pFrom, pTo) = blob_extract pFrom (int k);
          i = i + length (takeWhile blob_isspace (drop i (content pFrom)))
      in (nUsed pTo, pFrom\<lparr>iCursor := i\<rparr>, pTo))"

definition blob_tail :: "blob \<Rightarrow> nat \<times> blob \<times> blob" where
  "blob_tail pFrom =
     (let (_, pFrom', pTo) = blob_extract pFrom (int (nUsed pFrom) - int (iCursor pFrom))
      in (nUsed pTo, pFrom'\<lparr>iCursor := iCursor pFrom\<rparr>, pTo))"

text \<open>The bytes up to and with the \<open>N\<close>-th line end.\<close>

fun copy_len :: "byte list \<Rightarrow> int \<Rightarrow> int \<Rightarrow> nat" where
  "copy_len [] cnt N = 0"
| "copy_len (c # s) cnt N =
     (if c = 0x0a then if cnt + 1 = N then 1 else Suc (copy_len s (cnt + 1) N) else Suc (copy_len s cnt N))"

definition blob_copy_lines :: "allocator \<Rightarrow> blob option \<Rightarrow> blob \<Rightarrow> int \<Rightarrow> (blob option \<times> blob) blob_result" where
  "blob_copy_lines H pTo pFrom N =
     (if N = 0 then Inr (pTo, pFrom)
      else let k = copy_len (unread pFrom) 0 N; pFrom' = pFrom\<lparr>iCursor := iCursor pFrom + k\<rparr> in
           case pTo of None \<Rightarrow> Inr (None, pFrom')
           | Some t \<Rightarrow> map_sum id (\<lambda>t. (Some t, pFrom')) (blob_append H (drop (iCursor pFrom) (aData pFrom)) (int k) t))"

fun blob_tokenize :: "nat \<Rightarrow> blob \<Rightarrow> blob list \<times> blob" where
  "blob_tokenize 0 pIn = ([], pIn)"
| "blob_tokenize (Suc nToken) pIn =
     (case blob_token pIn of (n, pIn', tok) \<Rightarrow>
      if n = 0 then ([], pIn')
      else case blob_tokenize nToken pIn' of (toks, p) \<Rightarrow> (tok # toks, p))"

section \<open>Tests and rewriting\<close>

definition UUID_SIZE :: nat where
  "UUID_SIZE = 40"

definition blob_is_uuid_n :: "blob \<Rightarrow> nat \<Rightarrow> bool" where
  "blob_is_uuid_n b n \<longleftrightarrow> nUsed b = n \<and> validate16 (aData b) n"

definition blob_is_uuid :: "blob \<Rightarrow> bool" where
  "blob_is_uuid b = blob_is_uuid_n b UUID_SIZE"

definition isdigit :: "byte \<Rightarrow> bool" where
  "isdigit c \<longleftrightarrow> 0x30 \<le> c \<and> c \<le> 0x39"

text \<open>The value is accumulated in an \<open>int\<close>, which wraps.\<close>

definition blob_is_int :: "blob \<Rightarrow> int option" where
  "blob_is_int b =
     (let ds = takeWhile isdigit (content b) in
      if length ds = nUsed b then Some (foldl (\<lambda>v c. to_i32 (to_u32 (v * 10 + int (unat c) - 0x30))) 0 ds) else None)"

definition blob_remove_cr :: "allocator \<Rightarrow> blob \<Rightarrow> blob blob_result" where
  "blob_remove_cr H b =
     (case blob_materialize H b of Inl e \<Rightarrow> Inl e
      | Inr b \<Rightarrow> let s = filter (\<lambda>c. c \<noteq> 0x0d) (takeWhile (\<lambda>c. c \<noteq> 0) (aData b)); j = length s in
          Inr (b\<lparr>aData := s @ 0 # drop (j + 1) (aData b), nUsed := j\<rparr>))"

definition shell_special :: "byte list \<Rightarrow> bool" where
  "shell_special z \<longleftrightarrow> (\<exists>i \<in> set [0..<length z]. isspace (z ! i) \<or> z ! i = 0x22 \<or> z ! i = 0x5c \<and> byte_at z (i + 1) \<noteq> 0)"

definition shell_escape :: "allocator \<Rightarrow> byte list \<Rightarrow> blob \<Rightarrow> blob blob_result" where
  "shell_escape H zIn b =
     (let z = takeWhile (\<lambda>c. c \<noteq> 0) zIn in
      if shell_special z
      then map_sum id (\<lambda>b'. b'\<lparr>aData := take (nUsed b + 1) (aData b') @
               map (\<lambda>c. if c = 0x22 then 0x5f else c) (take (length z) (drop (nUsed b + 1) (aData b'))) @
               drop (nUsed b + 1 + length z) (aData b')\<rparr>)
             (blob_append H (0x22 # z @ [0x22]) (int (length z) + 2) b)
      else blob_append H z (int (length z)) b)"

section \<open>Compression\<close>

text \<open>zlib is a parameter: \<open>compress\<close>, and \<open>uncompress\<close> with the size of the destination.  A blob of
  compressed data starts with the length of the original, four bytes, the highest first.\<close>

record zlib =
  zcompress :: "byte list \<Rightarrow> byte list"
  zuncompress :: "nat \<Rightarrow> byte list \<Rightarrow> byte list option"

definition size_bytes :: "nat \<Rightarrow> byte list" where
  "size_bytes n = [of_nat (n div 2 ^ 24), of_nat (n div 2 ^ 16), of_nat (n div 2 ^ 8), of_nat n]"

definition blob_compress :: "allocator \<Rightarrow> zlib \<Rightarrow> blob \<Rightarrow> blob blob_result" where
  "blob_compress H Z pIn =
     (let nIn = nUsed pIn; nOut = (13 + nIn + (nIn + 999) mod 2 ^ 32 div 1000) mod 2 ^ 32 in
      case blob_resize H ((nOut + 4) mod 2 ^ 32) blob_zero of Inl e \<Rightarrow> Inl e
      | Inr temp \<Rightarrow>
        let out = zcompress Z (content pIn) in
        if 4 + length out > length (aData temp) then Inl Fault
        else blob_resize H (length out + 4) (temp\<lparr>aData := size_bytes nIn @ out @ drop (4 + length out) (aData temp)\<rparr>))"

text \<open>\<open>Inr None\<close>: nothing is stored, for a blob that is too short (the code returns 0) or bad data (it
  returns 1).  The source length passed to zlib is that of the blob with its header, so the
  bytes behind the blob are offered too.\<close>

definition blob_uncompress :: "allocator \<Rightarrow> zlib \<Rightarrow> blob \<Rightarrow> (int \<times> blob option) blob_result" where
  "blob_uncompress H Z pIn =
     (if nUsed pIn \<le> 4 then Inr (0, None)
      else if length (aData pIn) < 4 then Inl Fault
      else let d = aData pIn;
               nOut = (unat (d ! 0) * 2 ^ 24 + unat (d ! 1) * 2 ^ 16 + unat (d ! 2) * 2 ^ 8 + unat (d ! 3)) mod 2 ^ 32 in
           case blob_resize H ((nOut + 1) mod 2 ^ 32) blob_zero of Inl e \<Rightarrow> Inl e
           | Inr temp \<Rightarrow>
             (case zuncompress Z nOut (take (nUsed pIn) (drop 4 d)) of None \<Rightarrow> Inr (1, None)
              | Some out \<Rightarrow>
                if length out > length (aData temp) then Inl Fault
                else map_sum id (\<lambda>t. (0, Some t))
                       (blob_resize H (length out) (temp\<lparr>aData := out @ drop (length out) (aData temp)\<rparr>))))"

end
