(* ===== verification/Fossil_Merge.thy ===== *)
theory Fossil_Merge
  imports Fossil_Diff_Step Fossil_Blob
begin

text \<open>
  The three-way merge of \<^verbatim>\<open>ssfossil/fossil/src/merge3.c\<close>, with the hook through which coopy merges tables
  when the text has a conflict (\<open>csv_merge\<close> of \<^verbatim>\<open>ssfossil/src/csv_hooks.cpp\<close>: a function of
  the three files and the output so far, which yields a code and the new output; the reader of
  tables, their comparison and their writer are parameters of it).

  The merge reads its files through \<open>blob_copy_lines\<close> only and writes by appending, so a file is the list
  of the bytes that are still to be read and the output the list of its bytes; that the blobs
  behave like this is shown with the blobs (\<open>copy_lines_ok\<close>, \<open>blob_append_cases\<close>).  Exits of the program for lack of memory are
  left out.  The arrays of triples are only read from the current index on: \<open>aC1\<close> is the array from
  \<open>i1\<close> on and \<open>left1\<close> is \<open>limit1 - i1\<close>.  \<open>None\<close> is a read outside of an array or a failed assertion.
\<close>

definition copy_lines :: "int \<Rightarrow> byte list \<Rightarrow> byte list \<times> byte list" where
  "copy_lines N z = (let k = (if N = 0 then 0 else copy_len z 0 N) in (take k z, drop k z))"

text \<open>The comparison goes on behind the ends of the files when both end at the same place.\<close>

fun same_lines_loop :: "byte list \<Rightarrow> byte list \<Rightarrow> int \<Rightarrow> bool option" where
  "same_lines_loop [] [] N = None"
| "same_lines_loop [] (d # z2) N = Some False"
| "same_lines_loop (c # z1) [] N = Some False"
| "same_lines_loop (c # z1) (d # z2) N =
     (if c \<noteq> d then Some False
      else if c = 0x0a then if N - 1 = 0 then Some True else same_lines_loop z1 z2 (N - 1)
      else same_lines_loop z1 z2 N)"

definition sameLines :: "byte list \<Rightarrow> byte list \<Rightarrow> int \<Rightarrow> bool option" where
  "sameLines z1 z2 N = (if N = 0 then Some True else same_lines_loop z1 z2 N)"

definition sameEdit :: "int \<times> int \<times> int \<Rightarrow> int \<times> int \<times> int \<Rightarrow> byte list \<Rightarrow> byte list \<Rightarrow> bool option" where
  "sameEdit t1 t2 z1 z2 =
     (if fst t1 \<noteq> fst t2 then Some False
      else if fst (snd t1) \<noteq> fst (snd t2) then Some False
      else if snd (snd t1) \<noteq> snd (snd t2) then Some False
      else sameLines z1 z2 (snd (snd t1)))"

fun ends_at_CPY :: "int list \<Rightarrow> int \<Rightarrow> bool option" where
  "ends_at_CPY (c # d # n # aC) sz =
     (if sz > 0 \<and> (c > 0 \<or> d > 0 \<or> n > 0)
      then if c \<ge> sz then Some True else if d > sz - c then Some False else ends_at_CPY aC (sz - c - d)
      else Some True)"
| "ends_at_CPY aC sz = (if sz > 0 then None else Some True)"

fun output_one_side :: "byte list \<Rightarrow> byte list \<Rightarrow> int list \<Rightarrow> nat \<Rightarrow> int \<Rightarrow> (byte list \<times> byte list \<times> int list \<times> nat) option" where
  "output_one_side pOut pSrc (c # d # n # aC) rem sz =
     (if sz \<le> 0 \<or> c = 0 \<and> d = 0 \<and> n = 0 then Some (pOut, pSrc, c # d # n # aC, rem)
      else if c \<ge> sz
      then case copy_lines sz pSrc of (x, pSrc) \<Rightarrow> Some (pOut @ x, pSrc, (c - sz) # d # n # aC, rem)
      else case copy_lines c pSrc of (x, pSrc) \<Rightarrow> case copy_lines n pSrc of (y, pSrc) \<Rightarrow>
        output_one_side (pOut @ x @ y) pSrc aC (rem - 3) (sz - (c + d)))"
| "output_one_side pOut pSrc aC rem sz = (if sz \<le> 0 then Some (pOut, pSrc, aC, rem) else None)"

text \<open>The size of a conflict.\<close>

partial_function (option) conflict_size :: "int list \<Rightarrow> int list \<Rightarrow> int \<Rightarrow> int option" where
  "conflict_size aC1 aC2 sz =
     (case ends_at_CPY aC1 sz of None \<Rightarrow> None
      | Some e1 \<Rightarrow>
        if \<not> e1 then conflict_size aC1 aC2 (sz + 1)
        else case ends_at_CPY aC2 sz of None \<Rightarrow> None
          | Some e2 \<Rightarrow> if \<not> e2 then conflict_size aC1 aC2 (sz + 1) else Some sz)"

definition zBegin :: "byte list" where
  "zBegin = chars_of ''>>>>>>> BEGIN MERGE CONFLICT'' @ [0x0a]"

definition zMid :: "byte list" where
  "zMid = chars_of ''============================'' @ [0x0a]"

definition zEnd :: "byte list" where
  "zEnd = chars_of ''<<<<<<< END MERGE CONFLICT'' @ [0x0a]"

record merge_state =
  aC1 :: "int list"
  left1 :: nat
  aC2 :: "int list"
  left2 :: nat
  pPivot :: "byte list"
  pV1 :: "byte list"
  pV2 :: "byte list"
  pOut :: "byte list"
  nConflict :: int

type_synonym merge_hook = "byte list \<Rightarrow> byte list \<Rightarrow> byte list \<Rightarrow> byte list \<Rightarrow> int \<times> byte list"

definition csv_merge ::
  "(byte list \<Rightarrow> 'book option) \<Rightarrow> ('book \<Rightarrow> 'book \<Rightarrow> 'book \<Rightarrow> int \<times> 'book) \<Rightarrow> ('book \<Rightarrow> byte list) \<Rightarrow> merge_hook" where
  "csv_merge readCsvsData compare writeCsvsData pivot v1 v2 out =
     (case (readCsvsData pivot, readCsvsData v1, readCsvsData v2) of
        (Some csvs0, Some csvs1, Some csvs2) \<Rightarrow>
          (case compare csvs0 csvs1 csvs2 of (r, csvs1) \<Rightarrow>
             if r = 0 then (1, takeWhile (\<lambda>c. c \<noteq> 0) (writeCsvsData csvs1)) else (0, out))
      | _ \<Rightarrow> (0, out))"

text \<open>One pass through the loop, without the advance over a used-up triple: \<open>Inl\<close> is a return from the
  function.\<close>

definition merge_conflict :: "(byte list \<Rightarrow> int \<times> byte list) \<Rightarrow> merge_state \<Rightarrow> ((int \<times> byte list) + merge_state) option" where
  "merge_conflict hook s =
     (case conflict_size (aC1 s) (aC2 s) 1 of None \<Rightarrow> None
      | Some sz \<Rightarrow>
        (case hook (pOut s) of (sub, out) \<Rightarrow>
         if sub = 1 \<or> sub = -1 then Some (Inl (if sub = 1 then 0 else -1, out))
         else case output_one_side (out @ zBegin) (pV1 s) (aC1 s) (left1 s) sz of None \<Rightarrow> None
           | Some (out, v1, a1, l1) \<Rightarrow>
             (case output_one_side (out @ zMid) (pV2 s) (aC2 s) (left2 s) sz of None \<Rightarrow> None
              | Some (out, v2, a2, l2) \<Rightarrow>
                Some (Inr (s\<lparr>nConflict := nConflict s + 1, pOut := out @ zEnd, pV1 := v1, aC1 := a1, left1 := l1,
                  pV2 := v2, aC2 := a2, left2 := l2, pPivot := snd (copy_lines sz (pPivot s))\<rparr>)))))"

definition merge_edit :: "(byte list \<Rightarrow> int \<times> byte list) \<Rightarrow> merge_state \<Rightarrow> ((int \<times> byte list) + merge_state) option" where
  "merge_edit hook s =
     (case (aC1 s, aC2 s) of (c1 # d1 # n1 # a1, c2 # d2 # n2 # a2) \<Rightarrow>
        if c1 > 0 \<and> c2 > 0
        then let nCpy = min c1 c2; (x, p) = copy_lines nCpy (pPivot s) in
             Some (Inr (s\<lparr>pOut := pOut s @ x, pPivot := p, pV1 := snd (copy_lines nCpy (pV1 s)), pV2 := snd (copy_lines nCpy (pV2 s)),
               aC1 := (c1 - nCpy) # d1 # n1 # a1, aC2 := (c2 - nCpy) # d2 # n2 # a2\<rparr>))
        else if c1 \<ge> d2 \<and> c1 > 0 \<and> d2 + n2 > 0
        then let (y, v2) = copy_lines n2 (pV2 s) in
             Some (Inr (s\<lparr>pPivot := snd (copy_lines d2 (pPivot s)), pV1 := snd (copy_lines d2 (pV1 s)), pOut := pOut s @ y, pV2 := v2,
               aC1 := (c1 - d2) # d1 # n1 # a1, aC2 := a2, left2 := left2 s - 3\<rparr>))
        else if c2 \<ge> d1 \<and> c2 > 0 \<and> d1 + n1 > 0
        then let (y, v1) = copy_lines n1 (pV1 s) in
             Some (Inr (s\<lparr>pPivot := snd (copy_lines d1 (pPivot s)), pV2 := snd (copy_lines d1 (pV2 s)), pOut := pOut s @ y, pV1 := v1,
               aC2 := (c2 - d1) # d2 # n2 # a2, aC1 := a1, left1 := left1 s - 3\<rparr>))
        else (case sameEdit (c1, d1, n1) (c2, d2, n2) (pV1 s) (pV2 s) of None \<Rightarrow> None
          | Some True \<Rightarrow>
            if c1 \<noteq> 0 then None
            else let (y, v1) = copy_lines n1 (pV1 s) in
                 Some (Inr (s\<lparr>pPivot := snd (copy_lines d1 (pPivot s)), pOut := pOut s @ y, pV1 := v1, pV2 := snd (copy_lines n1 (pV2 s)),
                   aC1 := a1, left1 := left1 s - 3, aC2 := a2, left2 := left2 s - 3\<rparr>))
          | Some False \<Rightarrow> merge_conflict hook s)
      | _ \<Rightarrow> None)"

definition skip1 :: "int list \<Rightarrow> nat \<Rightarrow> int list \<times> nat" where
  "skip1 aC rem = (case aC of c # d # n # a \<Rightarrow> if rem > 0 \<and> c = 0 \<and> d = 0 \<and> n = 0 then (a, rem - 3) else (aC, rem) | _ \<Rightarrow> (aC, rem))"

definition merge_advance :: "merge_state \<Rightarrow> merge_state" where
  "merge_advance s = (case (skip1 (aC1 s) (left1 s), skip1 (aC2 s) (left2 s)) of ((a1, l1), (a2, l2)) \<Rightarrow>
     s\<lparr>aC1 := a1, left1 := l1, aC2 := a2, left2 := l2\<rparr>)"

definition merge_rest :: "merge_state \<Rightarrow> (int \<times> byte list) option" where
  "merge_rest s =
     (case (aC1 s, aC2 s) of (c1 # d1 # n1 # a1, c2 # d2 # n2 # a2) \<Rightarrow>
        Some (nConflict s,
          if left1 s > 0 \<and> n1 > 0 then pOut s @ fst (copy_lines n1 (pV1 s))
          else if left2 s > 0 \<and> n2 > 0 then pOut s @ fst (copy_lines n2 (pV2 s)) else pOut s)
      | _ \<Rightarrow> None)"

partial_function (option) merge_loop :: "(byte list \<Rightarrow> int \<times> byte list) \<Rightarrow> merge_state \<Rightarrow> (int \<times> byte list) option" where
  "merge_loop hook s =
     (if left1 s > 0 \<and> left2 s > 0
      then case merge_edit hook s of None \<Rightarrow> None
        | Some r \<Rightarrow> (case r of Inl code \<Rightarrow> Some code | Inr s' \<Rightarrow> merge_loop hook (merge_advance s'))
      else merge_rest s)"

fun zero_triple :: "int list \<Rightarrow> nat option" where
  "zero_triple (c # d # n # aC) = (if c = 0 \<and> d = 0 \<and> n = 0 then Some 0 else map_option (\<lambda>i. i + 3) (zero_triple aC))"
| "zero_triple aC = None"

definition blob_merge :: "(nat \<Rightarrow> nat \<Rightarrow> bool option) \<Rightarrow> (nat \<Rightarrow> bool) \<Rightarrow> merge_hook \<Rightarrow> byte list \<Rightarrow> byte list \<Rightarrow> byte list \<Rightarrow> (int \<times> byte list) option" where
  "blob_merge stray mem hook P V1 V2 =
     (case (text_diff stray mem P V1 True, text_diff stray mem P V2 True) of
        (Some (Some a1), Some (Some a2)) \<Rightarrow>
          (case (zero_triple a1, zero_triple a2) of
             (Some limit1, Some limit2) \<Rightarrow>
               merge_loop (hook P V1 V2) \<lparr>aC1 = a1, left1 = limit1, aC2 = a2, left2 = limit2,
                 pPivot = P, pV1 = V1, pV2 = V2, pOut = [], nConflict = 0\<rparr>
           | _ \<Rightarrow> None)
      | (Some _, Some _) \<Rightarrow> Some (-1, [])
      | _ \<Rightarrow> None)"

end
