(* ===== verification/Fossil_Diff_Correct.thy ===== *)
theory Fossil_Diff_Correct
  imports Fossil_Diff_Step
begin

text \<open>
  Correctness of the line differ: the array of lines holds exactly the lines of the file, two
  lines are the same when their texts are, and the triples of \<open>text_diff\<close> are an edit script from one
  file to the other.
\<close>

section \<open>The lines of a file\<close>

text \<open>Lines end at a line feed; a line feed at the end of the file does not open another line.\<close>

function split_lines :: "byte list \<Rightarrow> byte list list" where
  "split_lines z = (let l = takeWhile (\<lambda>c. c \<noteq> 0x0a) z; r = drop (length l + 1) z in
     l # (if r = [] then [] else split_lines r))"
  by pat_completeness auto

termination
  by (relation "measure length") auto

definition rstrip :: "byte list \<Rightarrow> byte list" where
  "rstrip l = rev (dropWhile isspace (rev l))"

definition file_lines :: "bool \<Rightarrow> byte list \<Rightarrow> byte list list" where
  "file_lines ws z = map (if ws then rstrip else id) (split_lines z)"

definition text_file :: "byte list \<Rightarrow> bool" where
  "text_file z \<longleftrightarrow> 0 \<notin> set z \<and> (\<forall>l \<in> set (split_lines z). length l + 2 \<le> LENGTH_MASK)"

declare split_lines.simps [simp del]

lemma split_lines_Nil [simp]: "split_lines [] = [[]]"
  by (subst split_lines.simps) simp

lemma first_line:
  "(0x0a :: byte) \<notin> set l \<Longrightarrow> takeWhile (\<lambda>c. c \<noteq> 0x0a) l = l"
  "(0x0a :: byte) \<notin> set l \<Longrightarrow> takeWhile (\<lambda>c. c \<noteq> 0x0a) (l @ 0x0a # r) = l"
  by (induction l) auto

lemma split_lines_last:
  assumes "0x0a \<notin> set l"
  shows "split_lines l = [l]" "split_lines (l @ [0x0a]) = [l]"
  by (subst split_lines.simps, simp add: Let_def first_line [OF assms])+

lemma split_lines_cons: "0x0a \<notin> set l \<Longrightarrow> r \<noteq> [] \<Longrightarrow> split_lines (l @ 0x0a # r) = l # split_lines r"
  by (subst split_lines.simps) (simp add: Let_def first_line)

lemma split_lines_cases [case_names last nl cons]:
  obtains "split_lines z = [z]" "0x0a \<notin> set z"
  | l where "z = l @ [0x0a]" "0x0a \<notin> set l" "split_lines z = [l]"
  | l r where "z = l @ 0x0a # r" "0x0a \<notin> set l" "r \<noteq> []" "split_lines z = l # split_lines r"
proof (cases "0x0a \<in> set z")
  case True
  then obtain l r where z: "z = l @ 0x0a # r" "0x0a \<notin> set l" by (metis split_list_first)
  then show ?thesis using that(2,3) split_lines_last split_lines_cons by (cases "r = []") auto
qed (use that(1) split_lines_last in blast)

lemma split_lines_induct [case_names last nl cons]:
  assumes "\<And>z. 0x0a \<notin> set z \<Longrightarrow> split_lines z = [z] \<Longrightarrow> P z"
    and "\<And>l. 0x0a \<notin> set l \<Longrightarrow> split_lines (l @ [0x0a]) = [l] \<Longrightarrow> P (l @ [0x0a])"
    and "\<And>l r. 0x0a \<notin> set l \<Longrightarrow> r \<noteq> [] \<Longrightarrow> split_lines (l @ 0x0a # r) = l # split_lines r \<Longrightarrow> P r \<Longrightarrow> P (l @ 0x0a # r)"
  shows "P z"
proof (induction "length z" arbitrary: z rule: less_induct)
  case less
  show ?case
  proof (cases z rule: split_lines_cases)
    case (cons l r)
    then show ?thesis using assms(3) [of l r] less [of r] by simp
  qed (use assms(1,2) in auto)
qed

subsection \<open>Counting\<close>

lemma count_lines_nul: "0 \<in> set z \<Longrightarrow> count_lines z j n = None"
  by (induction z j n rule: count_lines.induct) auto

lemma count_lines_plain:
  "0 \<notin> set l \<Longrightarrow> 0x0a \<notin> set l \<Longrightarrow> count_lines (l @ r) j n = count_lines r (j + length l) n"
  by (induction l arbitrary: j) auto

lemma byte_at_0: "0 \<notin> set r \<Longrightarrow> byte_at r 0 \<noteq> 0 \<longleftrightarrow> r \<noteq> []"
  by (cases r) (auto simp: byte_at_def)

lemma count_lines_Some:
  "0 \<notin> set z \<Longrightarrow> count_lines z j n = Some m \<Longrightarrow>
   m + 1 = n + length (split_lines z) \<and> (\<forall>l \<in> set (split_lines z). length l \<le> LENGTH_MASK)"
proof (induction z arbitrary: j n rule: split_lines_induct)
  case (last z)
  then show ?case using count_lines_plain [of z "[]"] by (auto split: if_splits)
next
  case (nl l)
  then show ?case by (auto simp: count_lines_plain byte_at_def split: if_splits)
next
  case (cons l r)
  have "byte_at r 0 \<noteq> 0" using cons.hyps cons.prems(1) byte_at_0 by auto
  then have "count_lines r 1 (n + 1) = Some m" "j + length l \<le> LENGTH_MASK"
    using cons.prems cons.hyps by (auto simp: count_lines_plain split: if_splits)
  then show ?case using cons.IH cons.prems(1) cons.hyps by fastforce
qed

lemma count_lines_total:
  "0 \<notin> set z \<Longrightarrow> \<forall>l \<in> set (split_lines z). length l + 2 \<le> LENGTH_MASK \<Longrightarrow> j \<le> 1 \<Longrightarrow> count_lines z j n \<noteq> None"
proof (induction z arbitrary: j n rule: split_lines_induct)
  case (last z)
  then show ?case using count_lines_plain [of z "[]"] by auto
next
  case (nl l)
  then show ?case by (auto simp: count_lines_plain byte_at_def)
next
  case (cons l r)
  have "byte_at r 0 \<noteq> 0" using cons.hyps cons.prems(1) byte_at_0 by auto
  then show ?case using cons by (auto simp: count_lines_plain)
qed

subsection \<open>Filling the array\<close>

lemma trim_line_rstrip: "k \<le> length z \<Longrightarrow> take (trim_line z k) z = rstrip (take k z)"
  by (induction k) (auto simp: rstrip_def byte_at_def take_Suc_conv_app_nth)

lemma trim_line_le: "trim_line z k \<le> k"
  by (induction k) auto

lemma line_end: "0 \<notin> set z \<Longrightarrow> takeWhile (\<lambda>c. c \<noteq> 0 \<and> c \<noteq> 0x0a) z = takeWhile (\<lambda>c. c \<noteq> 0x0a) z"
  by (rule takeWhile_cong) auto

lemma line_len_text:
  assumes "0 \<notin> set z"
  shows "take (line_len ws z) z = (if ws then rstrip else id) (takeWhile (\<lambda>c. c \<noteq> 0x0a) z)"
    and "line_len ws z \<le> length (takeWhile (\<lambda>c. c \<noteq> 0x0a) z)"
proof -
  let ?l = "takeWhile (\<lambda>c. c \<noteq> 0x0a) z"
  have *: "take (length ?l) z = ?l" "length ?l \<le> length z" by (simp_all add: takeWhile_eq_take [symmetric] length_takeWhile_le)
  then show "take (line_len ws z) z = (if ws then rstrip else id) ?l" "line_len ws z \<le> length ?l"
    using trim_line_rstrip [of "length ?l" z] trim_line_le [of z "length ?l"]
    by (simp_all add: line_len_def line_end [OF assms] Let_def)
qed

lemma unat_low_bits:
  assumes "k \<le> LENGTH_MASK"
  shows "unat ((push_bit LENGTH_MASK_SZ (x :: u32) OR of_nat k) AND of_nat LENGTH_MASK) = k"
proof -
  have mask: "(of_nat LENGTH_MASK :: u32) = mask 13"
    by (simp add: LENGTH_MASK_def LENGTH_MASK_SZ_def mask_eq_exp_minus_1)
  have "take_bit 13 (push_bit 13 x OR of_nat k :: u32) = take_bit 13 (of_nat k)"
    by (simp add: take_bit_or take_bit_push_bit)
  also have "unat \<dots> = take_bit 13 k"
    by (simp add: unsigned_take_bit_eq unsigned_of_nat take_bit_take_bit)
  also have "\<dots> = k" using assms by (simp add: take_bit_nat_eq_self LENGTH_MASK_def LENGTH_MASK_SZ_def)
  finally show ?thesis by (simp add: mask LENGTH_MASK_SZ_def take_bit_eq_mask)
qed

definition line_key :: "dline \<Rightarrow> byte list \<times> u32" where
  "line_key d = (zLine d, hLine d)"

fun line_ptrs :: "nat \<Rightarrow> byte list \<Rightarrow> byte list list" where
  "line_ptrs 0 z = []"
| "line_ptrs (Suc n) z = z # line_ptrs n (drop (length (takeWhile (\<lambda>c. c \<noteq> 0 \<and> c \<noteq> 0x0a) z) + 1) z)"

lemma length_fill_line [simp]: "length (fill_line ws i z a) = length a"
  by (simp add: fill_line_def Let_def)

lemma keys_update: "line_key y = line_key (a ! k) \<Longrightarrow> map line_key (a[k := y]) = map line_key a"
  by (cases "k < length a") (simp_all add: map_update list_update_same_conv list_update_beyond)

lemma keys_fill_line:
  assumes "i < length a"
  shows "map line_key (fill_line ws i z a) = (map line_key a)[i := (z, dline_hash z (line_len ws z))]"
  unfolding fill_line_def Let_def using assms
  by (simp add: keys_update line_key_def del: list_update_overwrite) (simp add: map_update line_key_def)

lemma keys_fill_lines:
  "i + n \<le> length a \<Longrightarrow> length (fill_lines ws n i z a) = length a \<and>
   map line_key (fill_lines ws n i z a) =
     take i (map line_key a) @ map (\<lambda>z. (z, dline_hash z (line_len ws z))) (line_ptrs n z) @ drop (i + n) (map line_key a)"
proof (induction n arbitrary: i z a)
  case (Suc n)
  let ?z = "drop (length (takeWhile (\<lambda>c. c \<noteq> 0 \<and> c \<noteq> 0x0a) z) + 1) z" and ?a = "fill_line ws i z a"
  have "Suc i + n \<le> length ?a" using Suc.prems by simp
  from Suc.IH [OF this, of ?z] show ?case
    using Suc.prems by (simp add: keys_fill_line take_Suc_conv_app_nth)
qed simp

definition links_le :: "nat \<Rightarrow> dline list \<Rightarrow> bool" where
  "links_le n a \<longleftrightarrow> (\<forall>d \<in> set a. iHash d \<le> n \<and> iNext d \<le> n)"

lemma links_le_nth: "links_le n a \<Longrightarrow> k < length a \<Longrightarrow> iHash (a ! k) \<le> n \<and> iNext (a ! k) \<le> n"
  by (simp add: links_le_def)

lemma links_le_update: "links_le n a \<Longrightarrow> iHash y \<le> n \<Longrightarrow> iNext y \<le> n \<Longrightarrow> links_le n (a[k := y])"
  by (auto simp: links_le_def dest!: set_update_subset_insert [THEN subsetD])

lemma links_fill_line:
  assumes "i < length a" "links_le i a"
  shows "links_le (i + 1) (fill_line ws i z a)"
proof -
  have le: "links_le (i + 1) a" using assms(2) by (auto simp: links_le_def)
  define a1 where "a1 = a[i := (a ! i)\<lparr>zLine := z, hLine := dline_hash z (line_len ws z)\<rparr>]"
  define h2 where "h2 = unat (hLine (a1 ! i)) mod length a1"
  define a2 where "a2 = a1[i := (a1 ! i)\<lparr>iNext := iHash (a1 ! h2)\<rparr>]"
  have len: "length a1 = length a" "length a2 = length a" by (simp_all add: a1_def a2_def)
  have h2: "h2 < length a" using assms(1) by (auto simp: h2_def len intro!: mod_less_divisor)
  have l1: "links_le (i + 1) a1" using links_le_nth [OF le assms(1)] le by (simp add: a1_def links_le_update)
  have l2: "links_le (i + 1) a2"
    using links_le_nth [OF l1, of i] links_le_nth [OF l1, of h2] l1 assms(1) h2 by (simp add: a2_def len links_le_update)
  have "links_le (i + 1) (a2[h2 := (a2 ! h2)\<lparr>iHash := i + 1\<rparr>])"
    using links_le_nth [OF l2, of h2] l2 h2 by (simp add: len links_le_update)
  then show ?thesis by (simp add: fill_line_def Let_def a1_def h2_def a2_def)
qed

lemma links_fill_lines:
  "i + n \<le> length a \<Longrightarrow> links_le i a \<Longrightarrow> links_le (i + n) (fill_lines ws n i z a)"
proof (induction n arbitrary: i z a)
  case (Suc n)
  then have "links_le (i + 1) (fill_line ws i z a)" by (intro links_fill_line) auto
  then show ?case using Suc.IH [of "i + 1" "fill_line ws i z a"] Suc.prems by simp
qed simp

subsection \<open>The array of lines\<close>

definition dline_ok :: "dline \<Rightarrow> bool" where
  "dline_ok d \<longleftrightarrow> hLine d = dline_hash (dline_text d) (length (dline_text d))"

lemma same_dline_iff: "dline_ok a \<Longrightarrow> dline_ok b \<Longrightarrow> same_dline a b \<longleftrightarrow> dline_text a = dline_text b"
  unfolding same_dline_def dline_ok_def dline_text_def by metis

lemma key_ok:
  assumes "line_key d = (z, dline_hash z k)" "k \<le> length z" "k \<le> LENGTH_MASK"
  shows "dline_text d = take k z \<and> dline_ok d"
proof -
  have "dline_text d = take k z" using assms(1) unat_low_bits [OF assms(3)] by (simp add: line_key_def dline_text_def dline_hash_def)
  then show ?thesis using assms(1,2) by (simp add: dline_ok_def line_key_def dline_hash_def)
qed

lemma ptrs_text:
  "0 \<notin> set z \<Longrightarrow> map (\<lambda>z. take (line_len ws z) z) (line_ptrs (length (split_lines z)) z) = file_lines ws z"
proof (induction z rule: split_lines_induct)
  case (cons l r)
  have "0 \<notin> set r" "takeWhile (\<lambda>c. c \<noteq> 0 \<and> c \<noteq> 0x0a) (l @ 0x0a # r) = l"
    using cons.prems by (auto simp: line_end first_line [OF cons.hyps(1)])
  then show ?case
    using cons line_len_text(1) [OF cons.prems, of ws] by (simp add: file_lines_def first_line del: take_append)
qed (simp_all add: file_lines_def line_len_text(1) first_line del: take_append)

lemma ptrs_len:
  "0 \<notin> set z \<Longrightarrow> \<forall>l \<in> set (split_lines z). length l \<le> m \<Longrightarrow> y \<in> set (line_ptrs (length (split_lines z)) z) \<Longrightarrow>
   line_len ws y \<le> length y \<and> line_len ws y \<le> m"
proof (induction z rule: split_lines_induct)
  case (last z)
  then show ?case using line_len_text(2) [of z ws] by (auto simp: first_line)
next
  case (nl l)
  then show ?case using line_len_text(2) [of "l @ [0x0a]" ws] by (auto simp: first_line)
next
  case (cons l r)
  have *: "takeWhile (\<lambda>c. c \<noteq> 0 \<and> c \<noteq> 0x0a) (l @ 0x0a # r) = l"
    using cons.prems by (simp add: line_end first_line [OF cons.hyps(1)])
  consider "y = l @ 0x0a # r" | "y \<in> set (line_ptrs (length (split_lines r)) r)" using cons.prems(3) cons.hyps(3) by (auto simp: *)
  then show ?case
  proof cases
    case 1
    then show ?thesis using cons.prems(1,2) cons.hyps line_len_text(2) [of y ws] first_line(2) [OF cons.hyps(1), of r] by auto
  next
    case 2
    then show ?thesis using cons by simp
  qed
qed

theorem break_into_lines_correct:
  assumes "break_into_lines z ws = Some a"
  shows "map dline_text a = file_lines ws z" "\<forall>d \<in> set a. dline_ok d" "chains_ok a"
proof -
  obtain n where n: "count_lines z 0 1 = Some n" and a: "a = fill_lines ws n 0 z (replicate n dline0)"
    using assms by (auto simp: break_into_lines_def split: option.splits)
  have nul: "0 \<notin> set z" using n count_lines_nul by force
  then have len: "n = length (split_lines z)" "\<forall>l \<in> set (split_lines z). length l \<le> LENGTH_MASK"
    using count_lines_Some [OF nul n] by auto
  have keys: "map line_key a = map (\<lambda>z. (z, dline_hash z (line_len ws z))) (line_ptrs n z)" "length a = n"
    using keys_fill_lines [of 0 n "replicate n dline0" ws z] by (simp_all add: a)
  have ptr: "\<exists>y \<in> set (line_ptrs n z). line_key d = (y, dline_hash y (line_len ws y))" if "d \<in> set a" for d
    using that keys(1) by (metis (no_types, lifting) image_iff list.set_map)
  have ok: "line_len ws y \<le> length y \<and> line_len ws y \<le> LENGTH_MASK" if "y \<in> set (line_ptrs n z)" for y
    using ptrs_len [OF nul len(2)] that by (simp add: len(1))
  show "\<forall>d \<in> set a. dline_ok d" using ptr ok key_ok by blast
  have len': "length (line_ptrs n z) = n" using arg_cong [OF keys(1), of length] keys(2) by simp
  have "map dline_text a = map (\<lambda>z. take (line_len ws z) z) (line_ptrs n z)"
  proof (rule nth_equalityI)
    fix i assume "i < length (map dline_text a)"
    then have "line_key (a ! i) = (line_ptrs n z ! i, dline_hash (line_ptrs n z ! i) (line_len ws (line_ptrs n z ! i)))"
      "line_ptrs n z ! i \<in> set (line_ptrs n z)" "i < length a" "i < length (line_ptrs n z)"
      using arg_cong [OF keys(1), of "\<lambda>l. l ! i"] keys(2) len' by auto
    then show "map dline_text a ! i = map (\<lambda>z. take (line_len ws z) z) (line_ptrs n z) ! i" using key_ok ok by simp
  qed (simp add: keys(2) len')
  then show "map dline_text a = file_lines ws z" using ptrs_text [OF nul] len(1) by simp
  have "links_le 0 (replicate n dline0)" by (simp add: links_le_def dline0_def)
  then have "links_le (length a) a" using links_fill_lines [of 0 n "replicate n dline0" ws z] by (simp add: a keys(2) [unfolded a])
  moreover have "split_lines z \<noteq> []" by (subst split_lines.simps) (simp add: Let_def)
  ultimately show "chains_ok a" using keys(2) len(1) by (auto simp: chains_ok_def links_le_def)
qed

lemma break_into_lines_total: "text_file z \<Longrightarrow> break_into_lines z ws \<noteq> None"
  using count_lines_total [of z 0 1] by (auto simp: text_file_def break_into_lines_def split: option.splits)

section \<open>Edit scripts\<close>

text \<open>A list of triples (copy, delete, insert) that leads from one list of lines to another.\<close>

type_synonym triple = "int \<times> int \<times> int"

fun is_script :: "triple list \<Rightarrow> 'a list \<Rightarrow> 'a list \<Rightarrow> bool" where
  "is_script [] xs ys \<longleftrightarrow> xs = [] \<and> ys = []"
| "is_script ((c, d, n) # R) xs ys \<longleftrightarrow>
     0 \<le> c \<and> 0 \<le> d \<and> 0 \<le> n \<and> nat c + nat d \<le> length xs \<and> nat c + nat n \<le> length ys \<and>
     take (nat c) xs = take (nat c) ys \<and> is_script R (drop (nat c + nat d) xs) (drop (nat c + nat n) ys)"

definition flat :: "triple list \<Rightarrow> int list" where
  "flat E = concat (map (\<lambda>(c, d, n). [c, d, n]) E)"

lemma flat_simps [simp]: "flat [] = []" "flat (E @ F) = flat E @ flat F" "flat ((c, d, n) # E) = c # d # n # flat E"
  by (simp_all add: flat_def)

lemma is_script_Cons:
  "is_script ((c, d, n) # R) xs ys \<longleftrightarrow>
   (\<exists>cs ds ns xs' ys'. xs = cs @ ds @ xs' \<and> ys = cs @ ns @ ys' \<and> c = int (length cs) \<and> d = int (length ds) \<and> n = int (length ns) \<and>
     is_script R xs' ys')" (is "?l \<longleftrightarrow> ?r")
proof
  assume l: ?l
  let ?cs = "take (nat c) xs" and ?ds = "take (nat d) (drop (nat c) xs)" and ?ns = "take (nat n) (drop (nat c) ys)"
  have "xs = ?cs @ ?ds @ drop (nat c + nat d) xs" by (metis add.commute append_take_drop_id drop_drop)
  moreover have "ys = ?cs @ ?ns @ drop (nat c + nat n) ys" using l by (metis add.commute append_take_drop_id drop_drop is_script.simps(2))
  moreover have "c = int (length ?cs)" "d = int (length ?ds)" "n = int (length ?ns)" using l by auto
  ultimately show ?r using l by (metis is_script.simps(2))
qed auto

lemma is_script_append:
  "is_script (R @ S) xs ys \<longleftrightarrow> (\<exists>x x' y y'. xs = x @ x' \<and> ys = y @ y' \<and> is_script R x y \<and> is_script S x' y')"
proof (induction R arbitrary: xs ys)
  case (Cons t R)
  obtain c d n where t: "t = (c, d, n)" by (cases t)
  show ?case
  proof
    assume "is_script ((t # R) @ S) xs ys"
    then obtain cs ds ns xs' ys' where *: "xs = cs @ ds @ xs'" "ys = cs @ ns @ ys'" "c = int (length cs)" "d = int (length ds)"
      "n = int (length ns)" "is_script (R @ S) xs' ys'" unfolding t append_Cons is_script_Cons by blast
    obtain x x' y y' where ih: "xs' = x @ x'" "ys' = y @ y'" "is_script R x y" "is_script S x' y'"
      using *(6) unfolding Cons.IH by blast
    show "\<exists>x x' y y'. xs = x @ x' \<and> ys = y @ y' \<and> is_script (t # R) x y \<and> is_script S x' y'"
      by (rule exI [of _ "cs @ ds @ x"], rule exI [of _ x'], rule exI [of _ "cs @ ns @ y"], rule exI [of _ y']) (use * ih in \<open>auto simp: t\<close>)
  next
    assume "\<exists>x x' y y'. xs = x @ x' \<and> ys = y @ y' \<and> is_script (t # R) x y \<and> is_script S x' y'"
    then obtain x x' y y' where *: "xs = x @ x'" "ys = y @ y'" "is_script (t # R) x y" "is_script S x' y'" by blast
    then obtain cs ds ns u v where "x = cs @ ds @ u" "y = cs @ ns @ v" "c = int (length cs)" "d = int (length ds)"
      "n = int (length ns)" "is_script R u v" unfolding t is_script_Cons by blast
    then show "is_script ((t # R) @ S) xs ys" using * Cons.IH by (auto simp: t)
  qed
qed simp

lemma is_script_single:
  "is_script [(c, d, n)] xs ys \<longleftrightarrow>
   (\<exists>cs ds ns. xs = cs @ ds \<and> ys = cs @ ns \<and> c = int (length cs) \<and> d = int (length ds) \<and> n = int (length ns))"
  using is_script_Cons [of c d n "[]" xs ys] by (auto simp del: is_script.simps(2))

section \<open>Appending a triple\<close>

text \<open>No triple is empty, and only the first may insert without touching the original.\<close>

definition tidy :: "triple list \<Rightarrow> bool" where
  "tidy E \<longleftrightarrow> (\<forall>t \<in> set E. t \<noteq> (0, 0, 0)) \<and> (\<forall>(c, d, n) \<in> set (tl E). c \<noteq> 0 \<or> d \<noteq> 0)"

lemma tidy_Nil [simp]: "tidy []"
  by (simp add: tidy_def)

lemma tidy_snoc: "tidy (E @ [(c, d, n)]) \<longleftrightarrow> tidy E \<and> (c, d, n) \<noteq> (0, 0, 0) \<and> (E \<noteq> [] \<longrightarrow> c \<noteq> 0 \<or> d \<noteq> 0)"
  by (cases E) (auto simp: tidy_def)

lemma tidy_ConsD: "tidy (t # E) \<Longrightarrow> tidy E \<and> t \<noteq> (0, 0, 0)"
  by (cases E) (auto simp: tidy_def)

text \<open>The triples so far lead from the first \<open>i\<close> lines of one file to the first \<open>j\<close> of the other.\<close>

definition edits_ok :: "dcontext \<Rightarrow> 'a list \<Rightarrow> 'a list \<Rightarrow> bool" where
  "edits_ok p xs ys \<longleftrightarrow> length (edit_list p) \<le> nEditAlloc p \<and> (aEdit p = None \<longrightarrow> nEditAlloc p = 0) \<and>
     (\<exists>E. edit_list p = flat E \<and> is_script E xs ys \<and> tidy E)"

lemma length_flat [simp]: "length (flat E) = 3 * length E"
  by (induction E) auto

lemma edit_list_simps [simp]:
  "edit_list (add_edit i v p) = (edit_list p)[i := edit_list p ! i + v]"
  "edit_list (push_edit v p) = edit_list p @ [v]"
  "\<exists>a. aEdit (add_edit i v p) = Some a" "\<exists>a. aEdit (push_edit v p) = Some a"
  "nEditAlloc (add_edit i v p) = nEditAlloc p" "nEditAlloc (push_edit v p) = nEditAlloc p"
  "aFrom (add_edit i v p) = aFrom p" "aFrom (push_edit v p) = aFrom p"
  "aTo (add_edit i v p) = aTo p" "aTo (push_edit v p) = aTo p"
  "aFrom (expandEdit mem n p) = aFrom p" "aTo (expandEdit mem n p) = aTo p"
  by (simp_all add: add_edit_def push_edit_def edit_list_def expandEdit_def)

lemma appendTriple_files [simp]:
  "aFrom (appendTriple mem c d n p) = aFrom p" "aTo (appendTriple mem c d n p) = aTo p"
  by (simp_all add: appendTriple_def Let_def)

lemma expandEdit_ok: "mem n \<Longrightarrow> length (edit_list p) \<le> n \<Longrightarrow> edit_list (expandEdit mem n p) = edit_list p \<and> nEditAlloc (expandEdit mem n p) = n \<and> aEdit (expandEdit mem n p) \<noteq> None"
  by (simp add: expandEdit_def edit_list_def)

lemma appendTriple_merge:
  assumes "edit_list p = flat (E @ [(c0, d0, n0)])" "n0 = 0 \<and> d0 = 0 \<or> n0 = 0 \<and> c = 0 \<or> c = 0 \<and> d = 0"
  shows "edit_list (appendTriple mem c d n p) = flat (E @ [(c0 + c, d0 + d, n0 + n)])"
    and "nEditAlloc (appendTriple mem c d n p) = nEditAlloc p" "aEdit (appendTriple mem c d n p) \<noteq> None"
  using assms by (auto simp: appendTriple_def Let_def nEdit_def nth_append list_update_append)

lemma appendTriple_new:
  assumes "edit_list p = flat E" "length (edit_list p) \<le> nEditAlloc p" "\<forall>n. mem n" "aEdit p = None \<longrightarrow> nEditAlloc p = 0"
    and "\<nexists>E0 c0 d0 n0. E = E0 @ [(c0, d0, n0)] \<and> (n0 = 0 \<and> d0 = 0 \<or> n0 = 0 \<and> c = 0 \<or> c = 0 \<and> d = 0)"
  shows "edit_list (appendTriple mem c d n p) = flat (E @ [(c, d, n)])"
    and "aEdit (appendTriple mem c d n p) \<noteq> None"
    and "length (edit_list (appendTriple mem c d n p)) \<le> nEditAlloc (appendTriple mem c d n p)"
proof -
  let ?k = "nEdit p" and ?a = "edit_list p"
  define q where "q = (if ?k + 3 > nEditAlloc p then expandEdit mem (?k * 2 + 15) p else p)"
  have q: "edit_list q = ?a" "?k + 3 \<le> nEditAlloc q" "aEdit q \<noteq> None"
    using expandEdit_ok [of mem "?k * 2 + 15" p] assms(2-4) by (auto simp: q_def nEdit_def edit_list_def split: option.splits)
  have no: "\<not> (?k \<ge> 3 \<and> (?a ! (?k - 1) = 0 \<and> ?a ! (?k - 2) = 0 \<or> ?a ! (?k - 1) = 0 \<and> c = 0 \<or> c = 0 \<and> d = 0))"
  proof (cases E rule: rev_cases)
    case (snoc E0 t)
    obtain c0 d0 n0 where t: "t = (c0, d0, n0)" by (cases t)
    show ?thesis using assms(5) assms(1) by (auto simp: snoc t nEdit_def nth_append)
  qed (use assms(1) in \<open>simp add: nEdit_def\<close>)
  then have "appendTriple mem c d n p = push_edit n (push_edit d (push_edit c q))"
    using q(3) unfolding appendTriple_def Let_def q_def [symmetric] by auto
  then show "edit_list (appendTriple mem c d n p) = flat (E @ [(c, d, n)])" "aEdit (appendTriple mem c d n p) \<noteq> None"
    "length (edit_list (appendTriple mem c d n p)) \<le> nEditAlloc (appendTriple mem c d n p)"
    using q(1,2) assms(1) by (simp_all add: nEdit_def)
qed

theorem appendTriple_ok:
  assumes "edits_ok p xs ys" "\<forall>n. mem n" "cs \<noteq> [] \<or> ds \<noteq> [] \<or> ns \<noteq> []"
  shows "edits_ok (appendTriple mem (int (length cs)) (int (length ds)) (int (length ns)) p) (xs @ cs @ ds) (ys @ cs @ ns)"
proof -
  let ?c = "int (length cs)" and ?d = "int (length ds)" and ?n = "int (length ns)"
  obtain E where E: "edit_list p = flat E" "is_script E xs ys" "tidy E" "length (edit_list p) \<le> nEditAlloc p"
    "aEdit p = None \<longrightarrow> nEditAlloc p = 0" using assms(1) by (auto simp: edits_ok_def)
  show ?thesis
  proof (cases "\<exists>E0 c0 d0 n0. E = E0 @ [(c0, d0, n0)] \<and> (n0 = 0 \<and> d0 = 0 \<or> n0 = 0 \<and> ?c = 0 \<or> ?c = 0 \<and> ?d = 0)")
    case True
    then obtain E0 c0 d0 n0 where e: "E = E0 @ [(c0, d0, n0)]" and c: "n0 = 0 \<and> d0 = 0 \<or> n0 = 0 \<and> ?c = 0 \<or> ?c = 0 \<and> ?d = 0" by blast
    note m = appendTriple_merge [OF E(1) [unfolded e] c, of mem ?n]
    obtain x x' y y' where s: "xs = x @ x'" "ys = y @ y'" "is_script E0 x y" "is_script [(c0, d0, n0)] x' y'"
      using E(2) by (auto simp: e is_script_append simp del: is_script.simps)
    then obtain cs0 ds0 ns0 where t: "x' = cs0 @ ds0" "y' = cs0 @ ns0" "c0 = int (length cs0)" "d0 = int (length ds0)" "n0 = int (length ns0)"
      by (auto simp: is_script_single simp del: is_script.simps)
    have one: "is_script [(c0 + ?c, d0 + ?d, n0 + ?n)] (x' @ cs @ ds) (y' @ cs @ ns)"
      unfolding is_script_single
      by (rule exI [of _ "cs0 @ cs"], rule exI [of _ "ds0 @ ds"], rule exI [of _ "ns0 @ ns"]) (use c t in auto)
    have "is_script (E0 @ [(c0 + ?c, d0 + ?d, n0 + ?n)]) (xs @ cs @ ds) (ys @ cs @ ns)"
      unfolding is_script_append
      by (rule exI [of _ x], rule exI [of _ "x' @ cs @ ds"], rule exI [of _ y], rule exI [of _ "y' @ cs @ ns"]) (use s one in simp)
    moreover have "tidy (E0 @ [(c0 + ?c, d0 + ?d, n0 + ?n)])"
      using t(3-5) E(3) assms(3) by (simp add: e tidy_snoc add_nonneg_eq_0_iff) blast
    ultimately show ?thesis using m E(3,4) unfolding edits_ok_def e E(1)
      by (intro conjI exI [of _ "E0 @ [(c0 + ?c, d0 + ?d, n0 + ?n)]"]) auto
  next
    case False
    note m = appendTriple_new [OF E(1,4) assms(2) E(5), where c = ?c and d = ?d and n = ?n, OF False]
    have "is_script [(?c, ?d, ?n)] (cs @ ds) (cs @ ns)" by (auto simp: is_script_single simp del: is_script.simps)
    then have "is_script (E @ [(?c, ?d, ?n)]) (xs @ cs @ ds) (ys @ cs @ ns)" using E(2) is_script_append by blast
    moreover have "tidy (E @ [(?c, ?d, ?n)])"
    proof (cases E rule: rev_cases)
      case (snoc E0 t)
      then have "\<not> (?c = 0 \<and> ?d = 0)" using False by (metis prod_cases3)
      then show ?thesis using E(3) assms(3) by (simp add: tidy_snoc)
    qed (use assms(3) in \<open>simp add: tidy_def\<close>)
    ultimately show ?thesis using m unfolding edits_ok_def
      by (intro conjI exI [of _ "E @ [(?c, ?d, ?n)]"]) auto
  qed
qed

section \<open>The whole difference\<close>

definition files_ok :: "dcontext \<Rightarrow> byte list list \<Rightarrow> byte list list \<Rightarrow> bool" where
  "files_ok p A B \<longleftrightarrow> map dline_text (aFrom p) = A \<and> map dline_text (aTo p) = B \<and>
     (\<forall>d \<in> set (aFrom p) \<union> set (aTo p). dline_ok d) \<and> chains_ok (aTo p)"

lemma files_ok_length: "files_ok p A B \<Longrightarrow> length (aFrom p) = length A \<and> length (aTo p) = length B"
  by (auto simp: files_ok_def)

lemma files_ok_append [simp]: "files_ok (appendTriple mem c d n p) A B \<longleftrightarrow> files_ok p A B"
  by (simp add: files_ok_def)

lemma same_at_text: "files_ok p A B \<Longrightarrow> same_at p i j = Some True \<Longrightarrow> i < length A \<and> j < length B \<and> A ! i = B ! j"
  by (auto simp: files_ok_def same_at_def same_dline_iff split: if_splits)

lemma run_text:
  assumes "files_ok p A B" "common_run p iS1 iE1 iS2 iE2 (sx, ex, sy, ey)" "iE1 \<le> length A" "iE2 \<le> length B"
  shows "take (ex - sx) (drop sx A) = take (ex - sx) (drop sy B)"
  using assms same_at_text [OF assms(1)] by (intro nth_equalityI) (auto simp: common_run_def)

lemma append_prefix:
  assumes "edits_ok p (take i A) (take j B)" "\<forall>n. mem n" "0 < c + d + n"
    and "i + c + d \<le> length A" "j + c + n \<le> length B" "take c (drop i A) = take c (drop j B)"
  shows "edits_ok (appendTriple mem (int c) (int d) (int n) p) (take (i + c + d) A) (take (j + c + n) B)"
proof -
  let ?cs = "take c (drop i A)" and ?ds = "take d (drop (i + c) A)" and ?ns = "take n (drop (j + c) B)"
  have len: "length ?cs = c" "length ?ds = d" "length ?ns = n" using assms(4,5) by auto
  have "?cs \<noteq> [] \<or> ?ds \<noteq> [] \<or> ?ns \<noteq> []" using len assms(3) by force
  from appendTriple_ok [OF assms(1,2) this] have "edits_ok (appendTriple mem (int c) (int d) (int n) p)
      (take i A @ ?cs @ ?ds) (take j B @ ?cs @ ?ns)" unfolding len .
  moreover have "take (i + c + d) A = take i A @ ?cs @ ?ds" by (simp add: take_add)
  moreover have "take (j + c + n) B = take j B @ ?cs @ ?ns" by (simp add: take_add assms(6))
  ultimately show ?thesis by metis
qed

lemma diff_step_ok:
  assumes "\<forall>i j. stray i j \<noteq> None" "\<forall>n. mem n"
  shows "files_ok p A B \<Longrightarrow> edits_ok p (take iS1 A) (take iS2 B) \<Longrightarrow> iS1 \<le> iE1 \<Longrightarrow> iE1 \<le> length A \<Longrightarrow> iS2 \<le> iE2 \<Longrightarrow> iE2 \<le> length B \<Longrightarrow>
    \<exists>p'. diff_step stray mem iS1 iE1 iS2 iE2 p = Some p' \<and> files_ok p' A B \<and> edits_ok p' (take iE1 A) (take iE2 B)"
proof (induction "(iE1 - iS1) + (iE2 - iS2)" arbitrary: iS1 iE1 iS2 iE2 p rule: less_induct)
  case less
  note step = append_prefix [OF less.prems(2) assms(2)]
  show ?case
  proof (cases "iE1 = iS1 \<or> iE2 = iS2")
    case True
    then show ?thesis
      using less.prems step [of 0 0 "iE2 - iS2"] step [of 0 "iE1 - iS1" 0] by (subst diff_step.simps) auto
  next
    case False
    then have lt: "\<not> iE1 \<le> iS1" "\<not> iE2 \<le> iS2" using less.prems by auto
    have "longestCommonSequence stray p iS1 iE1 iS2 iE2 \<noteq> None"
      using files_ok_length [OF less.prems(1)] less.prems assms(1) by (intro lcs_total) (auto simp: files_ok_def)
    then obtain sx ex sy ey where lcs: "longestCommonSequence stray p iS1 iE1 iS2 iE2 = Some (sx, ex, sy, ey)" by auto
    have run: "common_run p iS1 iE1 iS2 iE2 (sx, ex, sy, ey)" using lcs_run [OF lcs] less.prems by simp
    note b = common_run_bounds [OF run]
    show ?thesis
    proof (cases "sx < ex")
      case True
      note dec = lcs_decreases [OF lcs lt True]
      from less.hyps [OF dec(1) less.prems(1,2)] b less.prems
      obtain p1 where p1: "diff_step stray mem iS1 sx iS2 sy p = Some p1" "files_ok p1 A B" "edits_ok p1 (take sx A) (take sy B)" by auto
      let ?q = "appendTriple mem (int (ex - sx)) 0 0 p1"
      have "edits_ok ?q (take ex A) (take ey B)"
      proof -
        have "ey = sy + (ex - sx)" "ex = sx + (ex - sx)" using b by auto
        then show ?thesis
          using append_prefix [OF p1(3) assms(2), of "ex - sx" 0 0] run_text [OF less.prems(1) run] b True less.prems by simp
      qed
      then obtain p2 where "diff_step stray mem ex iE1 ey iE2 ?q = Some p2" "files_ok p2 A B" "edits_ok p2 (take iE1 A) (take iE2 B)"
        using less.hyps [OF dec(2), of ?q] p1(2) b less.prems by auto
      then show ?thesis using lt lcs True p1(1) by (subst diff_step.simps) simp
    next
      case False
      then show ?thesis
        using lt lcs less.prems step [of 0 "iE1 - iS1" "iE2 - iS2"] by (subst diff_step.simps) auto
    qed
  qed
qed

lemma diff_all_ok:
  assumes "\<forall>i j. stray i j \<noteq> None" "\<forall>n. mem n" "files_ok p A B" "aEdit p = None" "nEditAlloc p = 0"
  shows "\<exists>p' E. diff_all stray mem p = Some p' \<and> aEdit p' = Some (flat E @ [0, 0, 0]) \<and> is_script E A B \<and> tidy E"
proof -
  note len = files_ok_length [OF assms(3)]
  obtain e1 e2 where mb: "run_back p 0 0 (length (aFrom p)) (length (aTo p)) = Some (e1, e2)"
    using run_back_total [of "length (aFrom p)" p "length (aTo p)" 0 0] by auto
  note e = run_back_run [OF mb]
  have tail: "take (length A - e1) (drop e1 A) = take (length A - e1) (drop e2 B)"
    using e len same_at_text [OF assms(3)] by (intro nth_equalityI) auto
  obtain s s' where mf: "run_forward p (min e1 e2) (min e1 e2) 0 0 = Some (s, s')"
  proof -
    have "run_forward p (min e1 e2) (min e1 e2) 0 0 \<noteq> None" using e len by (intro run_forward_total) auto
    then show ?thesis using that by auto
  qed
  have s: "s \<le> e1" "s \<le> e2" "\<forall>k < s. same_at p k k = Some True" using run_forward_run [OF mf] by auto
  have head: "take s A = take s B"
    using s e len same_at_text [OF assms(3)] by (intro nth_equalityI) auto
  define p0 where "p0 = (if s > 0 then appendTriple mem (int s) 0 0 p else p)"
  have "edits_ok p (take 0 A) (take 0 B)" using assms(4,5) by (auto simp: edits_ok_def edit_list_def intro: exI [of _ "[]"])
  from append_prefix [OF this assms(2), of s 0 0] this
  have "edits_ok p0 (take s A) (take s B)" using s head len e by (auto simp: p0_def)
  moreover have "files_ok p0 A B" using assms(3) by (simp add: p0_def)
  ultimately obtain p1 where p1: "diff_step stray mem s e1 s e2 p0 = Some p1" "files_ok p1 A B" "edits_ok p1 (take e1 A) (take e2 B)"
    using diff_step_ok [OF assms(1,2), of p0 A B s s e1 e2] s e len by auto
  define q where "q = (if e1 < length (aFrom p1) then appendTriple mem (int (length (aFrom p1) - e1)) 0 0 p1 else p1)"
  have q: "edits_ok q A B"
    using append_prefix [OF p1(3) assms(2), of "length A - e1" 0 0] p1(3) e len tail files_ok_length [OF p1(2)] by (auto simp: q_def)
  define r where "r = expandEdit mem (nEdit q + 3) q"
  have r: "edit_list r = edit_list q" "aEdit r \<noteq> None"
    using expandEdit_ok [of mem "nEdit q + 3" q] assms(2) by (auto simp: nEdit_def r_def)
  have "diff_all stray mem p = Some (push_edit 0 (push_edit 0 (push_edit 0 r)))"
    using r(2) by (simp only: diff_all_def mb mf p1(1) Let_def option.case prod.case p0_def [symmetric] q_def [symmetric] r_def [symmetric] if_False)
  moreover have "aEdit (push_edit 0 (push_edit 0 (push_edit 0 r))) = Some (edit_list r @ [0, 0, 0])"
    by (subst push_edit_def) simp
  ultimately show ?thesis using q r(1) by (auto simp: edits_ok_def)
qed

lemma text_diff_script:
  assumes "\<forall>i j. stray i j \<noteq> None" "\<forall>n. mem n" "text_file a" "text_file b"
  shows "\<exists>E. text_diff stray mem a b ws = Some (Some (flat E @ [0, 0, 0])) \<and>
    is_script E (file_lines ws a) (file_lines ws b) \<and> tidy E"
proof -
  obtain f t where br: "break_into_lines a ws = Some f" "break_into_lines b ws = Some t"
    using break_into_lines_total assms(3,4) by blast
  let ?p = "\<lparr>aEdit = None, nEditAlloc = 0, aFrom = f, aTo = t\<rparr>"
  have "files_ok ?p (file_lines ws a) (file_lines ws b)"
    using break_into_lines_correct [OF br(1)] break_into_lines_correct [OF br(2)] by (auto simp: files_ok_def)
  from diff_all_ok [OF assms(1,2) this] show ?thesis by (auto simp: text_diff_def br)
qed

subsection \<open>Equal files\<close>

lemma same_at_iff:
  "files_ok p A B \<Longrightarrow> i < length A \<Longrightarrow> j < length B \<Longrightarrow> same_at p i j = Some (A ! i = B ! j)"
  by (auto simp: files_ok_def same_at_def same_dline_iff)

lemma run_back_all: "\<forall>k < n. same_at p k k = Some True \<Longrightarrow> run_back p 0 0 n n = Some (0, 0)"
  by (induction n) auto

lemma diff_all_equal:
  assumes "\<forall>n. mem n" "files_ok p A A" "A \<noteq> []" "aEdit p = None" "nEditAlloc p = 0"
  shows "\<exists>p'. diff_all stray mem p = Some p' \<and> aEdit p' = Some [int (length A), 0, 0, 0, 0, 0]"
proof -
  note len = files_ok_length [OF assms(2)]
  have "run_back p 0 0 (length (aFrom p)) (length (aTo p)) = Some (0, 0)"
    using run_back_all [of "length A" p] same_at_iff [OF assms(2)] len by simp
  moreover have "run_forward p 0 0 0 0 = Some (0, 0)" by (simp add: run_forward.simps)
  moreover have "diff_step stray mem 0 0 0 0 p = Some p" by (simp add: diff_step.simps)
  ultimately show ?thesis
    using assms(1,3-5) len by (simp add: diff_all_def appendTriple_def expandEdit_def push_edit_def nEdit_def edit_list_def)
qed

lemma text_diff_equal:
  assumes "\<forall>n. mem n" "text_file a" "text_file b" "file_lines ws a = file_lines ws b"
  shows "text_diff stray mem a b ws = Some (Some [int (length (file_lines ws a)), 0, 0, 0, 0, 0])"
proof -
  obtain f t where br: "break_into_lines a ws = Some f" "break_into_lines b ws = Some t"
    using break_into_lines_total assms(2,3) by blast
  let ?p = "\<lparr>aEdit = None, nEditAlloc = 0, aFrom = f, aTo = t\<rparr>"
  have "files_ok ?p (file_lines ws a) (file_lines ws a)"
    using break_into_lines_correct [OF br(1)] break_into_lines_correct [OF br(2)] assms(4) by (auto simp: files_ok_def)
  moreover have "file_lines ws a \<noteq> []" by (subst file_lines_def, subst split_lines.simps) (simp add: Let_def)
  ultimately show ?thesis using diff_all_equal [OF assms(1), of ?p "file_lines ws a" stray] by (auto simp: text_diff_def br)
qed

section \<open>Properties\<close>

text \<open>
  C29: on two text files \<open>text_diff\<close> always returns, and what it returns is an edit script that leads from
  the lines of the first file to the lines of the second (with the spaces at the end of lines
  removed, if they are to be ignored), closed by a triple of zeros and with no such triple
  before; only the first triple can be a mere insertion.  This holds whatever the read behind the array of lines yields; no other read leaves an
  array and no assertion fails.
\<close>

theorem text_diff_correct:
  assumes "\<forall>i j. stray i j \<noteq> None" "\<forall>n. mem n" "text_file a" "text_file b"
  shows "\<exists>E. text_diff stray mem a b ws = Some (Some (flat E @ [0, 0, 0])) \<and>
    is_script E (file_lines ws a) (file_lines ws b) \<and> tidy E"
  by (rule text_diff_script [OF assms])

definition demo_a :: "byte list" where "demo_a = chars_of ''a'' @ [0x0a] @ chars_of ''b '' @ [0x0a] @ chars_of ''c'' @ [0x0a]"

definition demo_b :: "byte list" where "demo_b = chars_of ''a'' @ [0x0a] @ chars_of ''b'' @ [0x0a] @ chars_of ''d'' @ [0x0a]"

lemma demo_lines:
  "split_lines demo_a = [[0x61], [0x62, 0x20], [0x63]]" "split_lines demo_b = [[0x61], [0x62], [0x64]]"
  by (simp_all add: demo_a_def demo_b_def chars_of_def split_lines.simps Let_def)

lemma demo_text_file [simp]: "text_file demo_a" "text_file demo_b"
  by (simp_all add: text_file_def demo_lines LENGTH_MASK_def LENGTH_MASK_SZ_def) (simp_all add: demo_a_def demo_b_def chars_of_def)

lemma text_diff_correct_witness:
  "\<exists>E. text_diff (\<lambda>i j. Some False) (\<lambda>n. True) demo_a demo_b True = Some (Some (flat E @ [0, 0, 0])) \<and>
    is_script E [[0x61], [0x62], [0x63 :: byte]] [[0x61], [0x62], [0x64]]"
  using text_diff_correct [OF _ _ demo_text_file, of "\<lambda>i j. Some False" "\<lambda>n. True" True]
  by (auto simp: file_lines_def demo_lines rstrip_def isspace_def)

text \<open>Binary files are reported.\<close>

lemma text_diff_binary: "0 \<in> set a \<or> 0 \<in> set b \<Longrightarrow> text_diff stray mem a b ws = Some None"
  by (auto simp: text_diff_def break_into_lines_def count_lines_nul split: option.splits)

end
