(* ===== verification/Fossil_Blob_Correct.thy ===== *)
theory Fossil_Blob_Correct
  imports Fossil_Blob
begin

text \<open>
  Correctness of the blobs: the invariant of a blob and that every operation keeps it, what
  appending does to the content, reading by lines and by tokens, and the round trip through
  compression.
\<close>

definition blob_ok :: "blob \<Rightarrow> bool" where
  "blob_ok b \<longleftrightarrow> nAlloc b < 2 ^ 32 \<and> iCursor b < 2 ^ 32 \<and>
     (case xRealloc b of
        ReallocMalloc \<Rightarrow> length (aData b) = nAlloc b \<and> (nUsed b < nAlloc b \<or> nUsed b = 0 \<and> nAlloc b = 0)
      | ReallocStatic \<Rightarrow> nUsed b \<le> nAlloc b \<and> nAlloc b \<le> length (aData b) \<and> (nUsed b < length (aData b) \<or> nUsed b = 0))"

lemma blob_okD:
  assumes "blob_ok b"
  shows "nUsed b \<le> nAlloc b" "nAlloc b \<le> length (aData b)" "nUsed b < length (aData b) \<or> nUsed b = 0" "nAlloc b < 2 ^ 32" "iCursor b < 2 ^ 32"
  using assms by (auto simp: blob_ok_def split: realloc_kind.splits)

lemma length_content: "blob_ok b \<Longrightarrow> length (content b) = nUsed b"
  using blob_okD [of b] by (auto simp: content_def)

section \<open>Reallocation\<close>

lemma realloc_grow:
  assumes "blob_ok b" "nUsed b < m" "m < 2 ^ 32"
  shows "case blob_realloc H m b of Inl e \<Rightarrow> e = Panic \<and> \<not> avail H m
    | Inr b' \<Rightarrow> nUsed b' = nUsed b \<and> content b' = content b \<and> iCursor b' = iCursor b \<and>
        xRealloc b' = ReallocMalloc \<and> length (aData b') = nAlloc b' \<and> m \<le> nAlloc b' \<and> nAlloc b' < 2 ^ 32"
  using assms blob_okD [OF assms(1)]
  by (auto simp: blob_realloc_def blobReallocMalloc_def blobReallocStatic_def Let_def content_def blob_ok_def min_def
      split: realloc_kind.splits)

lemma realloc_small:
  assumes "blob_ok b" "m \<le> nUsed b"
  shows "case blob_realloc H m b of Inl e \<Rightarrow> e = Panic
    | Inr b' \<Rightarrow> nUsed b' \<le> nUsed b \<and> (nAlloc b' \<le> nUsed b' \<or> b' = b)"
  using assms blob_okD [OF assms(1)]
  by (auto simp: blob_realloc_def blobReallocMalloc_def blobReallocStatic_def Let_def blob_ok_def empty_blob_def
      split: realloc_kind.splits)

section \<open>Appending\<close>

lemma blob_put_ok:
  assumes "blob_ok b \<or> xRealloc b = ReallocMalloc \<and> length (aData b) = nAlloc b \<and> iCursor b < 2 ^ 32"
    and "nUsed b + length d < nAlloc b" "nAlloc b < 2 ^ 32"
  shows "\<exists>b'. blob_put d b = Inr b' \<and> blob_ok b' \<and> content b' = content b @ d \<and> iCursor b' = iCursor b \<and> aData b' ! nUsed b' = 0"
proof -
  have len: "nAlloc b \<le> length (aData b)" "xRealloc b = ReallocMalloc \<longrightarrow> length (aData b) = nAlloc b" "iCursor b < 2 ^ 32"
    using assms(1) by (auto simp: blob_ok_def split: realloc_kind.splits)
  let ?n = "nUsed b + length d"
  let ?b' = "b\<lparr>aData := take (nUsed b) (aData b) @ d @ 0 # drop (?n + 1) (aData b), nUsed := ?n\<rparr>"
  have "blob_put d b = Inr ?b'" using assms(2,3) len by (simp add: blob_put_def Let_def)
  moreover have "blob_ok ?b'" using assms(2,3) len by (auto simp: blob_ok_def split: realloc_kind.splits)
  moreover have "content ?b' = content b @ d" "aData ?b' ! nUsed ?b' = 0" using assms(2) len by (auto simp: content_def nth_append)
  moreover have "iCursor ?b' = iCursor b" by simp
  ultimately show ?thesis by (intro exI [of _ ?b'] conjI)
qed

lemma blob_append_cases:
  assumes "blob_ok b" "n \<le> length z" "nUsed b + n < 2 ^ 32"
  shows "case blob_append H z (int n) b of
      Inl e \<Rightarrow> e = Panic \<and> (\<not> avail H (nUsed b + n + nAlloc b + 100) \<or> 2 ^ 32 \<le> nUsed b + n + nAlloc b + 100)
    | Inr b' \<Rightarrow> blob_ok b' \<and> content b' = content b @ take n z \<and> iCursor b' = iCursor b \<and> (n \<noteq> 0 \<longrightarrow> aData b' ! nUsed b' = 0)"
proof (cases "n = 0")
  case False
  have take: "length (take n z) = n" using assms(2) by simp
  let ?s = "nUsed b + n + nAlloc b + 100" and ?m = "(nUsed b + n + nAlloc b + 100) mod 2 ^ 32"
  show ?thesis
  proof (cases "nUsed b + n < nAlloc b")
    case True
    then obtain b' where "blob_put (take n z) b = Inr b'" "blob_ok b'" "content b' = content b @ take n z" "iCursor b' = iCursor b"
        "aData b' ! nUsed b' = 0"
      using blob_put_ok [of b "take n z"] assms(1) blob_okD(4) [OF assms(1)] take by auto
    then show ?thesis using True False assms(2,3) by (simp add: blob_append_def)
  next
    case grow: False
    show ?thesis
    proof (cases "nUsed b < ?m")
      case True
      show ?thesis
      proof (cases "blob_realloc H ?m b")
        case (Inl e)
        then have "e = Panic" "\<not> avail H ?m" using realloc_grow [OF assms(1) True, of H] by auto
        then have "\<not> avail H ?s \<or> 2 ^ 32 \<le> ?s" by (cases "?s < 2 ^ 32") auto
        then show ?thesis using Inl False grow assms(2,3) \<open>e = Panic\<close> by (simp add: blob_append_def)
      next
        case (Inr b1)
        then have b1: "nUsed b1 = nUsed b" "content b1 = content b" "iCursor b1 = iCursor b" "xRealloc b1 = ReallocMalloc"
          "length (aData b1) = nAlloc b1" "?m \<le> nAlloc b1" "nAlloc b1 < 2 ^ 32"
          using realloc_grow [OF assms(1) True, of H] by auto
        show ?thesis
        proof (cases "nUsed b + n < nAlloc b1")
          case fits: True
          then obtain b' where "blob_put (take n z) b1 = Inr b'" "blob_ok b'" "content b' = content b @ take n z" "iCursor b' = iCursor b"
              "aData b' ! nUsed b' = 0"
            using blob_put_ok [of b1 "take n z"] b1 take blob_okD(5) [OF assms(1)] by auto
          then show ?thesis using fits grow False Inr b1 assms(2,3) by (simp add: blob_append_def)
        next
          case full: False
          then have "2 ^ 32 \<le> ?s" using b1(6) by (cases "?s < 2 ^ 32") auto
          then show ?thesis using full grow False Inr b1 assms(2,3) by (simp add: blob_append_def)
        qed
      qed
    next
      case small: False
      then have "2 ^ 32 \<le> ?s" by (cases "?s < 2 ^ 32") auto
      moreover have "blob_append H z (int n) b = Inl Panic"
        using realloc_small [OF assms(1), of ?m H] small grow False assms(2,3) by (auto simp: blob_append_def split: sum.splits)
      ultimately show ?thesis by simp
    qed
  qed
qed (use assms in \<open>simp add: blob_append_def\<close>)

section \<open>Resizing and termination\<close>

lemma blob_resize_ok:
  assumes "blob_ok b" "n + 1 < 2 ^ 32"
  shows "case blob_resize H n b of Inl e \<Rightarrow> e = Panic \<and> \<not> avail H (n + 1)
    | Inr b' \<Rightarrow> blob_ok b' \<and> nUsed b' = n \<and> xRealloc b' = ReallocMalloc \<and> iCursor b' = iCursor b \<and> aData b' ! n = 0 \<and>
        take (min n (nUsed b)) (aData b') = take (min n (nUsed b)) (aData b)"
proof (cases "nUsed b < n + 1")
  case True
  note g = realloc_grow [OF assms(1) True assms(2), of H]
  show ?thesis
  proof (cases "blob_realloc H (n + 1) b")
    case (Inr b1)
    then have b1: "nUsed b1 = nUsed b" "content b1 = content b" "iCursor b1 = iCursor b" "xRealloc b1 = ReallocMalloc"
      "length (aData b1) = nAlloc b1" "n + 1 \<le> nAlloc b1" "nAlloc b1 < 2 ^ 32" using g by auto
    have m: "(n + 1) mod 2 ^ 32 = n + 1" using assms(2) by simp
    have "blob_resize H n b = Inr (b1\<lparr>nUsed := n, aData := (aData b1)[n := 0]\<rparr>)"
      unfolding blob_resize_def m Inr using b1 by simp
    moreover have "take (nUsed b) (aData b1) = take (nUsed b) (aData b)" using b1(1,2) by (simp add: content_def)
    moreover have "min n (nUsed b) = nUsed b" using True by simp
    ultimately show ?thesis using b1 True blob_okD(5) [OF assms(1)] by (simp add: blob_ok_def)
  qed (use g assms(2) in \<open>simp add: blob_resize_def\<close>)
next
  case False
  then show ?thesis
    using assms blob_okD [OF assms(1)]
    by (auto simp: blob_resize_def blob_realloc_def blobReallocMalloc_def blobReallocStatic_def Let_def blob_ok_def min_def
        split: realloc_kind.splits)
qed

lemma blob_materialize_ok:
  assumes "blob_ok b" "nUsed b + 1 < 2 ^ 32"
  shows "case blob_materialize H b of Inl e \<Rightarrow> e = Panic
    | Inr b' \<Rightarrow> blob_ok b' \<and> content b' = content b \<and> nUsed b' = nUsed b \<and> iCursor b' = iCursor b \<and> aData b' ! nUsed b' = 0"
  using blob_resize_ok [OF assms, of H] by (auto simp: blob_materialize_def content_def split: sum.splits)

lemma blob_ok_used: "blob_ok b \<Longrightarrow> n \<le> nUsed b \<Longrightarrow> blob_ok (b\<lparr>nUsed := n\<rparr>)"
  by (auto simp: blob_ok_def split: realloc_kind.splits)

lemma blob_str_ok:
  assumes "blob_ok b" "nUsed b + 1 < 2 ^ 32"
  shows "case blob_str H b of Inl e \<Rightarrow> e = Panic
    | Inr b' \<Rightarrow> blob_ok b' \<and> content b' = content b \<and> iCursor b' = iCursor b \<and> nUsed b' < length (aData b') \<and> aData b' ! nUsed b' = 0"
proof (cases "nUsed b = 0")
  case True
  note app = blob_append_cases [OF assms(1), of 1 "[0]" H]
  show ?thesis
  proof (cases "blob_append H [0] 1 b")
    case (Inr b')
    then have b': "blob_ok b'" "content b' = [0]" "iCursor b' = iCursor b" using app True by (auto simp: content_def)
    have "nUsed b' = 1" using length_content [OF b'(1)] b'(2) by simp
    then have "aData b' \<noteq> []" "aData b' ! 0 = 0" using b'(2) by (cases "aData b'"; simp add: content_def)+
    then show ?thesis using Inr True b' blob_ok_used [OF b'(1), of 0] by (simp add: blob_str_def content_def)
  qed (use app True in \<open>simp add: blob_str_def\<close>)
next
  case False
  then have "nUsed b < length (aData b)" using blob_okD(3) [OF assms(1)] by simp
  then show ?thesis
    using False assms(1) blob_materialize_ok [OF assms, of H] blob_okD(3) by (auto simp: blob_str_def split: sum.splits) force+
qed

section \<open>Reading\<close>

lemma to_u32_nat [simp]: "n < 2 ^ 32 \<Longrightarrow> to_u32 (int n) = n"
  by (simp add: to_u32_def)

lemma blob_ok_cursor: "blob_ok b \<Longrightarrow> c < 2 ^ 32 \<Longrightarrow> blob_ok (b\<lparr>iCursor := c\<rparr>)"
  by (simp add: blob_ok_def split: realloc_kind.splits)

lemma blob_zero_ok [simp]: "blob_ok blob_zero"
  by (simp add: blob_ok_def blob_zero_def)

lemma extract_exact:
  assumes "blob_ok b" "iCursor b + N \<le> nUsed b"
  shows "blob_extract b (int N) = (int N, b\<lparr>iCursor := iCursor b + N\<rparr>,
    \<lparr>nUsed = N, nAlloc = N, iCursor = 0, aData = drop (iCursor b) (aData b), xRealloc = ReallocStatic\<rparr>)"
proof -
  have "iCursor b + N < 2 ^ 32" "N < 2 ^ 32" using assms(2) blob_okD(1,4) [OF assms(1)] by linarith+
  then have "to_u32 (int (iCursor b) + int N) = iCursor b + N" "to_u32 (int N) = N" by (simp_all flip: of_nat_add)
  then show ?thesis using assms(2) by (simp add: blob_extract_def)
qed

lemma extract_beyond:
  assumes "nUsed b < iCursor b" "iCursor b < 2 ^ 31"
  shows "blob_extract b 0 = (0, b, blob_zero)"
proof -
  have "(int (nUsed b) - int (iCursor b)) mod 2 ^ 32 = int (nUsed b) - int (iCursor b) + 2 ^ 32"
    using assms by (subst mod_add_self2 [symmetric]) (rule mod_pos_pos_trivial; simp)
  then have "to_i32 (to_u32 (int (nUsed b) - int (iCursor b))) \<le> 0" using assms by (simp add: to_u32_def to_i32_def)
  moreover have "to_u32 (int (iCursor b)) > nUsed b" using assms by simp
  ultimately show ?thesis by (simp add: blob_extract_def)
qed

lemma extracted_ok:
  assumes "blob_ok b" "iCursor b + N \<le> nUsed b"
  shows "blob_ok \<lparr>nUsed = N, nAlloc = N, iCursor = 0, aData = drop (iCursor b) (aData b), xRealloc = ReallocStatic\<rparr>"
    and "content \<lparr>nUsed = N, nAlloc = N, iCursor = 0, aData = drop (iCursor b) (aData b), xRealloc = ReallocStatic\<rparr> = take N (unread b)"
proof -
  have "N < 2 ^ 32" using assms(2) blob_okD(1,4) [OF assms(1)] by linarith
  then show "blob_ok \<lparr>nUsed = N, nAlloc = N, iCursor = 0, aData = drop (iCursor b) (aData b), xRealloc = ReallocStatic\<rparr>"
    using assms blob_okD [OF assms(1)] by (auto simp: blob_ok_def)
  show "content \<lparr>nUsed = N, nAlloc = N, iCursor = 0, aData = drop (iCursor b) (aData b), xRealloc = ReallocStatic\<rparr> = take N (unread b)"
    using assms(2) by (simp add: content_def unread_def drop_take min_def)
qed

lemma length_unread: "blob_ok b \<Longrightarrow> length (unread b) = nUsed b - iCursor b"
  by (simp add: unread_def length_content)

lemma unread_cursor: "unread (b\<lparr>iCursor := iCursor b + k\<rparr>) = drop k (unread b)"
  by (simp add: unread_def content_def add.commute)

lemma content_cursor [simp]: "content (b\<lparr>iCursor := c\<rparr>) = content b"
  by (simp add: content_def)

lemma blob_line_step:
  assumes "blob_ok b" "nUsed b < 2 ^ 31" "iCursor b < 2 ^ 31"
  obtains b' t where "blob_line b = (length (content t), b', t)" "blob_ok b'" "blob_ok t" "content t @ unread b' = unread b"
    "content b' = content b" "unread b = [] \<longleftrightarrow> content t = []" "0x0a \<notin> set (butlast (content t))" "unread b' = [] \<or> last (content t) = 0x0a"
    "nUsed b' = nUsed b" "iCursor b' \<le> max (iCursor b) (nUsed b)"
proof (cases "iCursor b \<le> nUsed b")
  case True
  let ?u = "unread b" and ?l = "takeWhile (\<lambda>c. c \<noteq> 0x0a) (unread b)"
  define N where "N = (if length ?l < length ?u then length ?l + 1 else length ?l)"
  note len = length_unread [OF assms(1)]
  have le: "iCursor b + N \<le> nUsed b" using True len length_takeWhile_le [of "\<lambda>c. c \<noteq> 0x0a" ?u] by (auto simp: N_def)
  have "length ?l < length ?u \<longleftrightarrow> iCursor b + length ?l < nUsed b" using True len by auto
  then have i: "int (if iCursor b + length ?l < nUsed b then iCursor b + length ?l + 1 else iCursor b + length ?l) - int (iCursor b) = int N"
    by (simp add: N_def)
  let ?t = "\<lparr>nUsed = N, nAlloc = N, iCursor = 0, aData = drop (iCursor b) (aData b), xRealloc = ReallocStatic\<rparr>"
  have t: "blob_ok ?t" "content ?t = take N ?u" using extracted_ok [OF assms(1) le] .
  have line: "?l @ drop (length ?l) ?u = ?u" by (metis takeWhile_dropWhile_id dropWhile_eq_drop)
  have hd: "?u ! length ?l = 0x0a" if "length ?l < length ?u" using nth_length_takeWhile [of "\<lambda>c. c \<noteq> 0x0a" ?u] that by simp
  have take: "take N ?u = (if length ?l < length ?u then ?l @ [0x0a] else ?l)"
    using hd by (auto simp: N_def take_Suc_conv_app_nth takeWhile_eq_take [symmetric])
  have nl: "0x0a \<notin> set ?l" by (metis (mono_tags, lifting) set_takeWhileD)
  show ?thesis
  proof (rule that [of ?t "b\<lparr>iCursor := iCursor b + N\<rparr>"])
    show "blob_line b = (length (content ?t), b\<lparr>iCursor := iCursor b + N\<rparr>, ?t)"
      unfolding blob_line_def Let_def i extract_exact [OF assms(1) le] using length_content [OF t(1)] by simp
    show "blob_ok (b\<lparr>iCursor := iCursor b + N\<rparr>)" using assms(1,2) le by (intro blob_ok_cursor) auto
    show "content ?t @ unread (b\<lparr>iCursor := iCursor b + N\<rparr>) = ?u" by (simp add: t unread_cursor)
    show "?u = [] \<longleftrightarrow> content ?t = []" unfolding t take by (cases ?u) auto
    show "0x0a \<notin> set (butlast (content ?t))" unfolding t take using nl by (auto dest: in_set_butlastD)
    show "unread (b\<lparr>iCursor := iCursor b + N\<rparr>) = [] \<or> last (content ?t) = 0x0a" unfolding t take unread_cursor by (auto simp: N_def)
  qed (use t le in auto)
next
  case False
  then have u: "unread b = []" using length_unread [OF assms(1)] by (metis diff_is_0_eq' length_0_conv nat_le_linear)
  have "blob_line b = (length (content blob_zero), b, blob_zero)"
    using False extract_beyond [of b] assms(3) by (simp add: blob_line_def u) (simp add: blob_zero_def content_def)
  then show ?thesis using that [of blob_zero b] u assms(1) by (simp add: blob_zero_def content_def blob_ok_def)
qed

subsection \<open>Tokens\<close>

lemma words_decreases:
  assumes "dropWhile blob_isspace s \<noteq> []"
  shows "length (dropWhile (\<lambda>c. \<not> blob_isspace c) (dropWhile blob_isspace s)) < length s"
proof -
  have "\<not> blob_isspace (hd (dropWhile blob_isspace s))" using assms by (rule hd_dropWhile)
  then obtain c r where "dropWhile blob_isspace s = c # r" "\<not> blob_isspace c" using assms by (cases "dropWhile blob_isspace s") auto
  moreover have "length (dropWhile blob_isspace s) \<le> length s" by (rule length_dropWhile_le)
  ultimately show ?thesis using length_dropWhile_le [of "\<lambda>c. \<not> blob_isspace c" r] by simp
qed

function words :: "byte list \<Rightarrow> byte list list" where
  "words s = (let s = dropWhile blob_isspace s in
     if s = [] then [] else takeWhile (\<lambda>c. \<not> blob_isspace c) s # words (dropWhile (\<lambda>c. \<not> blob_isspace c) s))"
  by pat_completeness auto

termination
  by (relation "measure length") (simp_all add: words_decreases del: dropWhile_eq_Nil_conv)

declare words.simps [simp del]

lemma dropWhile_twice: "dropWhile P (dropWhile P s) = dropWhile P s"
  by (induction s) auto

lemma words_dropWhile [simp]: "words (dropWhile blob_isspace s) = words s"
  by (subst words.simps, subst (2) words.simps) (simp add: dropWhile_twice Let_def)

lemma blob_token_step:
  assumes "blob_ok b" "nUsed b < 2 ^ 31" "iCursor b < 2 ^ 31"
  obtains b' t where "blob_token b = (length (content t), b', t)" "blob_ok b'" "blob_ok t" "content b' = content b"
    "content t = takeWhile (\<lambda>c. \<not> blob_isspace c) (dropWhile blob_isspace (unread b))"
    "unread b' = dropWhile blob_isspace (dropWhile (\<lambda>c. \<not> blob_isspace c) (dropWhile blob_isspace (unread b)))"
    "nUsed b' = nUsed b" "iCursor b' \<le> max (iCursor b) (nUsed b)"
proof (cases "iCursor b \<le> nUsed b")
  case True
  define m where "m = length (takeWhile blob_isspace (unread b))"
  define b1 where "b1 = b\<lparr>iCursor := iCursor b + m\<rparr>"
  have u1: "unread b1 = dropWhile blob_isspace (unread b)" by (simp add: b1_def unread_cursor m_def dropWhile_eq_drop)
  have "m \<le> length (unread b)" by (simp add: m_def length_takeWhile_le)
  then have le1: "iCursor b1 \<le> nUsed b" using True length_unread [OF assms(1)] by (simp add: b1_def)
  then have ok1: "blob_ok b1" using assms(1,2) unfolding b1_def by (intro blob_ok_cursor) auto
  define k where "k = length (takeWhile (\<lambda>c. \<not> blob_isspace c) (unread b1))"
  have "k \<le> length (unread b1)" by (simp add: k_def length_takeWhile_le)
  then have le2: "iCursor b1 + k \<le> nUsed b1" using le1 length_unread [OF ok1] by (simp add: b1_def)
  let ?t = "\<lparr>nUsed = k, nAlloc = k, iCursor = 0, aData = drop (iCursor b1) (aData b1), xRealloc = ReallocStatic\<rparr>"
  have t: "blob_ok ?t" "content ?t = take k (unread b1)" using extracted_ok [OF ok1 le2] .
  define i where "i = iCursor b1 + k"
  have u2: "drop i (content b1) = dropWhile (\<lambda>c. \<not> blob_isspace c) (unread b1)"
    by (simp add: i_def unread_def dropWhile_eq_drop k_def add.commute)
  define j where "j = i + length (takeWhile blob_isspace (drop i (content b1)))"
  have "j \<le> max i (length (content b1))"
    using length_takeWhile_le [of blob_isspace "drop i (content b1)"] by (auto simp: j_def)
  then have j: "j \<le> nUsed b" using le2 length_content [OF ok1] by (simp add: i_def b1_def)
  show ?thesis
  proof (rule that [of ?t "b1\<lparr>iCursor := j\<rparr>"])
    show "blob_token b = (length (content ?t), b1\<lparr>iCursor := j\<rparr>, ?t)"
      unfolding blob_token_def Let_def m_def [symmetric] b1_def [symmetric] k_def [symmetric] extract_exact [OF ok1 le2]
      using length_content [OF t(1)] by (simp add: j_def i_def)
    show "blob_ok (b1\<lparr>iCursor := j\<rparr>)" using ok1 j assms(2) by (intro blob_ok_cursor) auto
    show "unread (b1\<lparr>iCursor := j\<rparr>) = dropWhile blob_isspace (dropWhile (\<lambda>c. \<not> blob_isspace c) (dropWhile blob_isspace (unread b)))"
    proof -
      have "unread (b1\<lparr>iCursor := j\<rparr>) = drop (length (takeWhile blob_isspace (drop i (content b1)))) (drop i (content b1))"
        by (simp add: unread_def j_def add.commute)
      then show ?thesis unfolding dropWhile_eq_drop [symmetric] u2 u1 .
    qed
    show "content ?t = takeWhile (\<lambda>c. \<not> blob_isspace c) (dropWhile blob_isspace (unread b))"
      unfolding t(2) u1 [symmetric] unfolding k_def by (rule takeWhile_eq_take [symmetric])
  qed (use t j in \<open>auto simp: b1_def\<close>)
next
  case False
  then have u: "unread b = []" using length_unread [OF assms(1)] by (metis diff_is_0_eq' length_0_conv nat_le_linear)
  have c: "drop (iCursor b) (content b) = []" using u by (simp add: unread_def)
  have "blob_token b = (length (content blob_zero), b, blob_zero)"
    using False extract_beyond [of b] assms(3) c by (simp add: blob_token_def u Let_def) (simp add: blob_zero_def content_def)
  then show ?thesis using that [of blob_zero b] u assms(1) by (simp add: blob_zero_def content_def blob_ok_def)
qed

lemma tokenize_words:
  "blob_ok b \<Longrightarrow> nUsed b < 2 ^ 31 \<Longrightarrow> iCursor b < 2 ^ 31 \<Longrightarrow>
   map content (fst (blob_tokenize n b)) = take n (words (unread b)) \<and> (\<forall>t \<in> set (fst (blob_tokenize n b)). blob_ok t)"
proof (induction n arbitrary: b)
  case (Suc n)
  obtain b' t where t: "blob_token b = (length (content t), b', t)" "blob_ok b'" "blob_ok t" "content b' = content b"
    "content t = takeWhile (\<lambda>c. \<not> blob_isspace c) (dropWhile blob_isspace (unread b))"
    "unread b' = dropWhile blob_isspace (dropWhile (\<lambda>c. \<not> blob_isspace c) (dropWhile blob_isspace (unread b)))"
    "nUsed b' = nUsed b" "iCursor b' \<le> max (iCursor b) (nUsed b)"
    using blob_token_step [OF Suc.prems] .
  let ?s = "dropWhile blob_isspace (unread b)"
  show ?case
  proof (cases "?s = []")
    case True
    then have "content t = []" "words (unread b) = []"
      using t(5) by (simp del: dropWhile_eq_Nil_conv, subst words.simps, simp del: dropWhile_eq_Nil_conv)
    then show ?thesis using t(1) by simp
  next
    case False
    then have "\<not> blob_isspace (hd ?s)" using hd_dropWhile by blast
    then have ne: "content t \<noteq> []" using False t(5) by (cases ?s) auto
    have "words (unread b) = content t # words (unread b')"
      using False t(5,6) by (subst words.simps) (simp add: Let_def)
    moreover have "iCursor b' < 2 ^ 31" using t(8) Suc.prems by auto
    ultimately show ?thesis using Suc.IH [OF t(2)] t ne Suc.prems by (auto split: prod.splits)
  qed
qed simp

subsection \<open>Copying lines\<close>

lemma copy_len_le: "copy_len s cnt N \<le> length s"
  by (induction s cnt N rule: copy_len.induct) auto

lemma copy_lines_ok:
  assumes "blob_ok pTo" "blob_ok pFrom" "iCursor pFrom \<le> nUsed pFrom" "nUsed pTo + nUsed pFrom < 2 ^ 32"
  shows "case blob_copy_lines H (Some pTo) pFrom N of Inl e \<Rightarrow> e = Panic
    | Inr r \<Rightarrow> (case r of (t, f) \<Rightarrow> \<exists>t'. t = Some t' \<and> blob_ok t' \<and> blob_ok f \<and> content f = content pFrom \<and>
        (let k = (if N = 0 then 0 else copy_len (unread pFrom) 0 N) in
         content t' = content pTo @ take k (unread pFrom) \<and> unread f = drop k (unread pFrom) \<and> iCursor f \<le> nUsed f))"
proof (cases "N = 0")
  case False
  define k where "k = copy_len (unread pFrom) 0 N"
  have k: "k \<le> nUsed pFrom - iCursor pFrom" using copy_len_le [of "unread pFrom" 0 N] length_unread [OF assms(2)] by (simp add: k_def)
  have len: "k \<le> length (drop (iCursor pFrom) (aData pFrom))" using k blob_okD(1,2) [OF assms(2)] by simp
  have "take k (drop (iCursor pFrom) (aData pFrom)) = take k (unread pFrom)"
    using k by (simp add: unread_def content_def drop_take min_def)
  moreover have "nUsed pTo + k < 2 ^ 32" using k assms(4) by linarith
  moreover have "blob_ok (pFrom\<lparr>iCursor := iCursor pFrom + k\<rparr>)" "iCursor pFrom + k \<le> nUsed pFrom"
    using k assms(3) blob_okD(1,4) [OF assms(2)] by (auto intro!: blob_ok_cursor [OF assms(2)])
  ultimately show ?thesis
    using blob_append_cases [OF assms(1) len, of H] False
    by (auto simp: blob_copy_lines_def Let_def unread_cursor simp flip: k_def split: sum.splits)
qed (use assms in \<open>simp add: blob_copy_lines_def\<close>)

section \<open>Reachable blobs\<close>

text \<open>
  The blobs that the operations produce.  A blob is initialised from memory that holds a NUL
  behind the bytes in use, as a C string does; sizes stay within what the \<open>unsigned int\<close> fields hold,
  and within an \<open>int\<close> where the code uses one.
\<close>

inductive blob_reach :: "allocator \<Rightarrow> blob \<Rightarrow> bool" for H where
  zero: "blob_reach H blob_zero"
| null: "blob_reach H (blob_init None n)"
| init: "0 < n \<Longrightarrow> n < int (length z) \<Longrightarrow> n < 2 ^ 31 \<Longrightarrow> blob_reach H (blob_init (Some z) n)"
| init_str: "n \<le> 0 \<Longrightarrow> 0 \<in> set z \<Longrightarrow> strlen z < 2 ^ 31 \<Longrightarrow> blob_reach H (blob_init (Some z) n)"
| reset: "blob_reach H b \<Longrightarrow> blob_reset H b = Inr b' \<Longrightarrow> blob_reach H b'"
| append: "blob_reach H b \<Longrightarrow> n \<le> length z \<Longrightarrow> nUsed b + n < 2 ^ 32 \<Longrightarrow> blob_append H z (int n) b = Inr b' \<Longrightarrow> blob_reach H b'"
| resize: "blob_reach H b \<Longrightarrow> n + 1 < 2 ^ 32 \<Longrightarrow> blob_resize H n b = Inr b' \<Longrightarrow> blob_reach H b'"
| str: "blob_reach H b \<Longrightarrow> nUsed b + 1 < 2 ^ 32 \<Longrightarrow> blob_str H b = Inr b' \<Longrightarrow> blob_reach H b'"
| materialize: "blob_reach H b \<Longrightarrow> nUsed b + 1 < 2 ^ 32 \<Longrightarrow> blob_materialize H b = Inr b' \<Longrightarrow> blob_reach H b'"
| copy: "blob_reach H b \<Longrightarrow> nUsed b < 2 ^ 31 \<Longrightarrow> blob_copy H b = Inr b' \<Longrightarrow> blob_reach H b'"
| extraction: "blob_reach H b \<Longrightarrow> iCursor b + N \<le> nUsed b \<Longrightarrow> blob_extract b (int N) = (n, b', t) \<Longrightarrow> c = b' \<or> c = t \<Longrightarrow> blob_reach H c"
| rewind: "blob_reach H b \<Longrightarrow> blob_reach H (blob_rewind b)"
| seek: "blob_reach H b \<Longrightarrow> blob_reach H (snd (blob_seek b offset wh))"
| line: "blob_reach H b \<Longrightarrow> nUsed b < 2 ^ 31 \<Longrightarrow> iCursor b < 2 ^ 31 \<Longrightarrow> blob_line b = (n, b', t) \<Longrightarrow> c = b' \<or> c = t \<Longrightarrow> blob_reach H c"
| token: "blob_reach H b \<Longrightarrow> nUsed b < 2 ^ 31 \<Longrightarrow> iCursor b < 2 ^ 31 \<Longrightarrow> blob_token b = (n, b', t) \<Longrightarrow> c = b' \<or> c = t \<Longrightarrow> blob_reach H c"
| trim: "blob_reach H b \<Longrightarrow> blob_reach H (snd (blob_trim b))"
| copy_lines: "blob_reach H b \<Longrightarrow> blob_reach H f \<Longrightarrow> iCursor f \<le> nUsed f \<Longrightarrow> nUsed b + nUsed f < 2 ^ 32 \<Longrightarrow>
    blob_copy_lines H (Some b) f N = Inr (Some b', f') \<Longrightarrow> c = b' \<or> c = f' \<Longrightarrow> blob_reach H c"

lemma blob_init_ok:
  "blob_ok (blob_init None n)"
  "0 < n \<Longrightarrow> n < int (length z) \<Longrightarrow> n < 2 ^ 31 \<Longrightarrow> blob_ok (blob_init (Some z) n)"
  "n \<le> 0 \<Longrightarrow> 0 \<in> set z \<Longrightarrow> strlen z < 2 ^ 31 \<Longrightarrow> blob_ok (blob_init (Some z) n)"
proof -
  show "blob_ok (blob_init (Some z) n)" if "n \<le> 0" "0 \<in> set z" "strlen z < 2 ^ 31"
  proof -
    have "strlen z < length z"
      using that(2) length_takeWhile_le [of "\<lambda>c. c \<noteq> 0" z] takeWhile_eq_all_conv [of "\<lambda>c. c \<noteq> 0" z]
      by (metis (mono_tags, lifting) le_neq_implies_less strlen_def take_all_iff takeWhile_eq_take)
    then show ?thesis using that by (simp add: blob_init_def blob_ok_def Let_def)
  qed
qed (auto simp: blob_init_def blob_ok_def empty_blob_def Let_def)

lemma blob_copy_ok: "blob_ok b \<Longrightarrow> nUsed b < 2 ^ 31 \<Longrightarrow> blob_copy H b = Inr b' \<Longrightarrow> blob_ok b' \<and> content b' = content b"
  using blob_append_cases [of blob_zero "nUsed b" "aData b" H] blob_okD(1,2) [of b]
  by (simp add: blob_copy_def to_i32_def blob_zero_def [THEN arg_cong, of nUsed] blob_zero_def [THEN arg_cong, of content] content_def)

lemma blob_reset_ok: "blob_ok b \<Longrightarrow> blob_reset H b = Inr b' \<Longrightarrow> blob_ok b'"
  by (auto simp: blob_reset_def blob_realloc_def blobReallocMalloc_def blobReallocStatic_def blob_ok_def empty_blob_def split: realloc_kind.splits)

lemma blob_reach_ok: "blob_reach H b \<Longrightarrow> blob_ok b"
proof (induction rule: blob_reach.induct)
  case (append b n z b')
  then show ?case using blob_append_cases [OF append.IH append.hyps(2,3), of H] by simp
next
  case (resize b n b')
  then show ?case using blob_resize_ok [OF resize.IH resize.hyps(2), of H] by simp
next
  case (str b b')
  then show ?case using blob_str_ok [OF str.IH str.hyps(2), of H] by simp
next
  case (materialize b b')
  then show ?case using blob_materialize_ok [OF materialize.IH materialize.hyps(2), of H] by simp
next
  case (extraction b N n b' t c)
  then have "b' = b\<lparr>iCursor := iCursor b + N\<rparr>" "blob_ok t" using extract_exact [OF extraction.IH extraction.hyps(2)] extracted_ok(1) [OF extraction.IH extraction.hyps(2)] by auto
  moreover have "iCursor b + N < 2 ^ 32" using extraction.hyps(2) blob_okD(1,4) [OF extraction.IH] by linarith
  ultimately show ?case using extraction blob_ok_cursor by auto
next
  case (seek b offset wh)
  have "nUsed b < 2 ^ 32" using blob_okD(1,4) [OF seek.IH] by linarith
  then show ?case using seek.IH by (auto simp: blob_seek_def Let_def intro!: blob_ok_cursor)
next
  case (line b n b' t c)
  from line.hyps obtain b1 t1 where "blob_line b = (length (content t1), b1, t1)" "blob_ok b1" "blob_ok t1"
    using blob_line_step [OF line.IH] by metis
  then show ?case using line.hyps by auto
next
  case (token b n b' t c)
  from token.hyps obtain b1 t1 where "blob_token b = (length (content t1), b1, t1)" "blob_ok b1" "blob_ok t1"
    using blob_token_step [OF token.IH] by metis
  then show ?case using token.hyps by auto
next
  case (trim b)
  have "length (dropWhile blob_isspace (rev (content b))) \<le> nUsed b"
    using length_dropWhile_le [of blob_isspace "rev (content b)"] length_content [OF trim.IH] by simp
  then show ?case using trim.IH by (simp add: blob_trim_def Let_def blob_ok_used)
next
  case (copy_lines b f N b' f' c)
  then show ?case using copy_lines_ok [OF copy_lines.IH(1,2) copy_lines.hyps(3,4), where H = H and N = N] by (auto simp: Let_def)
qed (auto simp: blob_init_ok blob_rewind_def intro: blob_ok_cursor blob_reset_ok dest: blob_copy_ok)

section \<open>Properties\<close>


definition big_memory :: allocator where
  "big_memory = \<lparr>avail = \<lambda>n. True, junk = \<lambda>i. 0xa5\<rparr>"


text \<open>
  C31: appending \<open>n\<close> bytes to a blob yields its content followed by these bytes, with a NUL behind
  them and the reading position kept; otherwise the program exits, and only when the memory
  is not available or the new size does not fit its type.
\<close>

theorem blob_append_correct:
  assumes "blob_ok b" "n \<le> length z" "nUsed b + n < 2 ^ 32"
  shows "case blob_append H z (int n) b of
      Inl e \<Rightarrow> e = Panic \<and> (\<not> avail H (nUsed b + n + nAlloc b + 100) \<or> 2 ^ 32 \<le> nUsed b + n + nAlloc b + 100)
    | Inr b' \<Rightarrow> blob_ok b' \<and> content b' = content b @ take n z \<and> iCursor b' = iCursor b \<and> (n \<noteq> 0 \<longrightarrow> aData b' ! nUsed b' = 0)"
  using blob_append_cases [OF assms] .

lemma blob_append_correct_witness:
  "\<exists>b'. blob_append big_memory [0x42, 0x43] 2 blob_zero = Inr b' \<and> content b' = [0x42, 0x43] \<and> aData b' ! 2 = 0"
  using blob_append_correct [of blob_zero 2 "[0x42, 0x43]" big_memory]
  by (auto simp: blob_zero_ok big_memory_def content_def blob_append_def blob_realloc_def blobReallocStatic_def
      blob_put_def Let_def blob_zero_def split: sum.splits)

text \<open>
  C32: \<open>blob_tokenize\<close> yields the first \<open>n\<close> words of what has not been read yet, words being the maximal runs
  of characters that are no spaces.
\<close>

theorem blob_tokenize_correct:
  assumes "blob_ok b" "nUsed b < 2 ^ 31" "iCursor b < 2 ^ 31"
  shows "map content (fst (blob_tokenize n b)) = take n (words (unread b))"
  using tokenize_words [OF assms] by simp

definition demo_blob :: blob where
  "demo_blob = blob_init (Some (chars_of ''  ab c  d'' @ [0])) 0"

lemma blob_tokenize_correct_witness:
  "map content (fst (blob_tokenize 2 demo_blob)) = [chars_of ''ab'', chars_of ''c'']"
proof -
  have b: "demo_blob = \<lparr>nUsed = 9, nAlloc = 9, iCursor = 0, aData = chars_of ''  ab c  d'' @ [0], xRealloc = ReallocStatic\<rparr>"
    by (simp add: demo_blob_def blob_init_def strlen_def chars_of_def)
  have "words (unread demo_blob) = [chars_of ''ab'', chars_of ''c'', chars_of ''d'']"
    by (simp add: b unread_def content_def chars_of_def words.simps blob_isspace_def Let_def)
  then show ?thesis
    using blob_tokenize_correct [of demo_blob 2] by (simp add: b blob_ok_def chars_of_def)
qed

end
