(* ===== verification/Fossil_Merge_Correct.thy ===== *)
theory Fossil_Merge_Correct
  imports Fossil_Merge Fossil_Diff_Correct Fossil_Blob_Correct
begin

text \<open>
  Correctness of the three-way merge: the output can be cut into pieces, each of which comes from
  one version where the other is unchanged, from both where they agree, or shows both versions
  between conflict marks; the number of these is the result of the function.
\<close>

section \<open>Texts as lists of lines\<close>

definition unlines :: "byte list list \<Rightarrow> byte list" where
  "unlines ls = concat (map (\<lambda>l. l @ [0x0a]) ls)"

definition plain :: "byte list list \<Rightarrow> bool" where
  "plain ls \<longleftrightarrow> (\<forall>l \<in> set ls. 0x0a \<notin> set l)"

lemma unlines_simps [simp]: "unlines [] = []" "unlines (l # ls) = l @ 0x0a # unlines ls" "unlines (ls @ ms) = unlines ls @ unlines ms"
  by (simp_all add: unlines_def)

lemma plain_simps [simp]: "plain []" "plain (l # ls) \<longleftrightarrow> 0x0a \<notin> set l \<and> plain ls" "plain (ls @ ms) \<longleftrightarrow> plain ls \<and> plain ms"
  by (auto simp: plain_def)

lemma plain_drop [simp]: "plain ls \<Longrightarrow> plain (drop n ls)" and plain_take [simp]: "plain ls \<Longrightarrow> plain (take n ls)"
  by (auto simp: plain_def dest: in_set_dropD in_set_takeD)

lemma unlines_split: "z \<noteq> [] \<Longrightarrow> last z = 0x0a \<Longrightarrow> unlines (split_lines z) = z \<and> plain (split_lines z)"
proof (induction z rule: split_lines_induct)
  case (last z)
  then show ?case using last_in_set [of z] by simp
qed auto

lemma split_unlines: "plain ls \<Longrightarrow> ls \<noteq> [] \<Longrightarrow> split_lines (unlines ls) = ls"
proof (induction ls)
  case (Cons l ls)
  then show ?case
    using split_lines_last(2) [of l] split_lines_cons [of l "unlines ls"] by (cases "ls = []") (auto simp: unlines_def)
qed simp

lemma copy_len_line:
  "0x0a \<notin> set l \<Longrightarrow> copy_len (l @ 0x0a # s) cnt N = length l + 1 + (if cnt + 1 = N then 0 else copy_len s (cnt + 1) N)"
  by (induction l) auto

lemma copy_len_lines:
  "plain ls \<Longrightarrow> 0 < k \<Longrightarrow> k \<le> length ls \<Longrightarrow> copy_len (unlines ls) cnt (cnt + int k) = length (unlines (take k ls))"
proof (induction ls arbitrary: cnt k)
  case (Cons l ls)
  obtain j where k: "k = Suc j" using Cons.prems(2) by (cases k) auto
  show ?case
  proof (cases "j = 0")
    case False
    then have "copy_len (unlines ls) (cnt + 1) (cnt + 1 + int j) = length (unlines (take j ls))"
      using Cons.IH [of j "cnt + 1"] Cons.prems by (simp add: k)
    then show ?thesis using False Cons.prems(1) by (simp add: k copy_len_line add.assoc)
  qed (use Cons.prems in \<open>simp add: k copy_len_line\<close>)
qed simp

lemma copy_lines_unlines:
  assumes "plain ls" "0 \<le> N" "nat N \<le> length ls"
  shows "copy_lines N (unlines ls) = (unlines (take (nat N) ls), unlines (drop (nat N) ls))"
proof (cases "N = 0")
  case False
  then have "copy_len (unlines ls) 0 N = length (unlines (take (nat N) ls))"
    using copy_len_lines [OF assms(1), of "nat N" 0] assms(2,3) by simp
  moreover have "unlines ls = unlines (take (nat N) ls) @ unlines (drop (nat N) ls)"
    by (metis append_take_drop_id unlines_simps(3))
  ultimately show ?thesis using False by (simp add: copy_lines_def Let_def)
qed (simp add: copy_lines_def)

lemma copy_lines_all:
  assumes "plain ls" "int (length ls) < N"
  shows "snd (copy_lines N (unlines ls)) = []"
proof -
  have "int (length ls) < N - cnt \<Longrightarrow> copy_len (unlines ls) cnt N = length (unlines ls)" for cnt
    using assms(1) by (induction ls arbitrary: cnt) (simp_all add: copy_len_line)
  from this [of 0] show ?thesis using assms(2) by (simp add: copy_lines_def)
qed

lemma copy_lines_Nil [simp]: "copy_lines N [] = ([], [])"
  by (simp add: copy_lines_def)

lemma same_lines_line:
  "0x0a \<notin> set l \<Longrightarrow> 0x0a \<notin> set m \<Longrightarrow> same_lines_loop (l @ 0x0a # s) (m @ 0x0a # t) N =
   (if l = m then if N = 1 then Some True else same_lines_loop s t (N - 1) else Some False)"
proof (induction l arbitrary: m)
  case Nil
  then show ?case by (cases m) auto
next
  case (Cons c l)
  then show ?case by (cases m) auto
qed

lemma same_lines_lines:
  "plain u \<Longrightarrow> plain v \<Longrightarrow> 0 < k \<Longrightarrow> k \<le> length u \<Longrightarrow> k \<le> length v \<Longrightarrow>
   same_lines_loop (unlines u) (unlines v) (int k) = Some (take k u = take k v)"
proof (induction u arbitrary: v k)
  case (Cons l u)
  obtain m v' where v: "v = m # v'" using Cons.prems by (cases v) auto
  obtain j where k: "k = Suc j" using Cons.prems(3) by (cases k) auto
  show ?case
  proof (cases "j = 0")
    case False
    then show ?thesis using Cons.IH [of v' j] Cons.prems by (simp add: v k same_lines_line)
  qed (use Cons.prems in \<open>simp add: v k same_lines_line\<close>)
qed simp

section \<open>Using up a script\<close>

lemma script_copy:
  assumes "is_script ((c, d, n) # R) xs ys" "0 \<le> k" "k \<le> c"
  shows "take (nat k) xs = take (nat k) ys" "is_script ((c - k, d, n) # R) (drop (nat k) xs) (drop (nat k) ys)"
    "nat k \<le> length xs" "nat k \<le> length ys"
proof -
  obtain cs ds ns xs' ys' where s: "xs = cs @ ds @ xs'" "ys = cs @ ns @ ys'" "c = int (length cs)" "d = int (length ds)"
    "n = int (length ns)" "is_script R xs' ys'" using assms(1) unfolding is_script_Cons by blast
  have k: "nat k \<le> length cs" using assms(2,3) s(3) by simp
  show "take (nat k) xs = take (nat k) ys" "nat k \<le> length xs" "nat k \<le> length ys" using k by (simp_all add: s)
  have "c - k = int (length (drop (nat k) cs))" using assms(2,3) s(3) by simp
  then show "is_script ((c - k, d, n) # R) (drop (nat k) xs) (drop (nat k) ys)"
    unfolding is_script_Cons using s k by (intro exI [of _ "drop (nat k) cs"] exI [of _ ds] exI [of _ ns] exI) auto
qed

lemma script_edit:
  "is_script ((0, d, n) # R) xs ys \<Longrightarrow>
   0 \<le> d \<and> 0 \<le> n \<and> nat d \<le> length xs \<and> nat n \<le> length ys \<and> is_script R (drop (nat d) xs) (drop (nat n) ys)"
  by simp

definition skip_zero :: "triple list \<Rightarrow> triple list" where
  "skip_zero E = (case E of [] \<Rightarrow> [] | t # R \<Rightarrow> if t = (0, 0, 0) then R else E)"

lemma skip1_flat: "skip1 (flat E @ [0, 0, 0]) (3 * length E) = (flat (skip_zero E) @ [0, 0, 0], 3 * length (skip_zero E))"
proof (cases E)
  case (Cons t R)
  then show ?thesis by (cases t) (auto simp: skip1_def skip_zero_def)
qed (simp add: skip1_def skip_zero_def)

lemma is_script_skip [simp]: "is_script (skip_zero E) xs ys \<longleftrightarrow> is_script E xs ys"
  by (cases E) (auto simp: skip_zero_def)

lemma length_skip: "length (skip_zero E) \<le> length E"
  by (simp add: skip_zero_def split: list.splits)

lemma tidy_skip: "tidy ((c, d, n) # R) \<Longrightarrow> tidy (skip_zero ((c', d, n) # R))"
  by (cases R) (auto simp: tidy_def skip_zero_def)

lemma skip_tidy: "tidy E \<Longrightarrow> skip_zero E = E"
  by (cases E) (auto simp: skip_zero_def dest: tidy_ConsD)

lemma tidy_skip_tl: "tidy (t # R) \<Longrightarrow> tidy (skip_zero R)"
  by (cases R) (auto simp: tidy_def skip_zero_def)

subsection \<open>The size of a conflict\<close>

lemma ends_total: "is_script E xs ys \<Longrightarrow> ends_at_CPY (flat E @ [0, 0, 0]) sz \<noteq> None"
proof (induction E arbitrary: xs ys sz)
  case (Cons t E)
  obtain c d n where t: "t = (c, d, n)" by (cases t)
  show ?case using Cons.IH [of "drop (nat c + nat d) xs" "drop (nat c + nat n) ys" "sz - c - d"] Cons.prems by (auto simp: t)
qed simp

lemma ends_full: "is_script E xs ys \<Longrightarrow> int (length xs) \<le> sz \<Longrightarrow> ends_at_CPY (flat E @ [0, 0, 0]) sz = Some True"
proof (induction E arbitrary: xs ys sz)
  case (Cons t E)
  obtain c d n where t: "t = (c, d, n)" by (cases t)
  have "is_script E (drop (nat c + nat d) xs) (drop (nat c + nat n) ys)" "0 \<le> c" "0 \<le> d" "nat c + nat d \<le> length xs"
    using Cons.prems(1) by (auto simp: t)
  then show ?case using Cons.IH [of "drop (nat c + nat d) xs" "drop (nat c + nat n) ys" "sz - c - d"] Cons.prems(2) by (auto simp: t)
qed simp

lemma conflict_size_ok:
  assumes "is_script E1 xs ys" "is_script E2 xs zs"
  shows "s \<le> max 1 (int (length xs)) \<Longrightarrow> \<exists>sz \<ge> s. conflict_size (flat E1 @ [0, 0, 0]) (flat E2 @ [0, 0, 0]) s = Some sz \<and>
    ends_at_CPY (flat E1 @ [0, 0, 0]) sz = Some True \<and> ends_at_CPY (flat E2 @ [0, 0, 0]) sz = Some True"
proof (induction "nat (max 1 (int (length xs)) - s)" arbitrary: s)
  case 0
  then have "int (length xs) \<le> s" by simp
  then show ?case using ends_full [OF assms(1)] ends_full [OF assms(2)] by (auto simp: conflict_size.simps)
next
  case (Suc m)
  obtain b1 b2 where b: "ends_at_CPY (flat E1 @ [0, 0, 0]) s = Some b1" "ends_at_CPY (flat E2 @ [0, 0, 0]) s = Some b2"
    using ends_total [OF assms(1), of s] ends_total [OF assms(2), of s] by auto
  have "m = nat (max 1 (int (length xs)) - (s + 1))" "s + 1 \<le> max 1 (int (length xs))" using Suc.hyps(2) by linarith+
  from Suc.hyps(1) [OF this] obtain sz where "sz \<ge> s + 1" "conflict_size (flat E1 @ [0, 0, 0]) (flat E2 @ [0, 0, 0]) (s + 1) = Some sz"
    "ends_at_CPY (flat E1 @ [0, 0, 0]) sz = Some True" "ends_at_CPY (flat E2 @ [0, 0, 0]) sz = Some True"
    by blast
  then show ?case using b by (cases "b1 \<and> b2") (auto simp: conflict_size.simps [of _ _ s])
qed

subsection \<open>One side of a conflict\<close>

lemma output_side:
  "is_script E (map f p) (map f v) \<Longrightarrow> tidy E \<Longrightarrow> ends_at_CPY (flat E @ [0, 0, 0]) sz = Some True \<Longrightarrow> 0 \<le> sz \<Longrightarrow> plain v \<Longrightarrow>
   \<exists>E' j. output_one_side out (unlines v) (flat E @ [0, 0, 0]) (3 * length E) sz =
       Some (out @ unlines (take j v), unlines (drop j v), flat E' @ [0, 0, 0], 3 * length E') \<and>
     is_script E' (map f (drop (nat sz) p)) (map f (drop j v)) \<and> tidy (skip_zero E') \<and> length E' \<le> length E \<and>
     (0 < sz \<and> E \<noteq> [] \<and> fst (hd E) = 0 \<longrightarrow> length E' < length E)"
proof (induction E arbitrary: p v sz out)
  case Nil
  then show ?case by (intro exI [of _ "[]"] exI [of _ 0]) (auto simp: skip_zero_def)
next
  case (Cons t E)
  obtain c d n where t: "t = (c, d, n)" by (cases t)
  have nz: "t \<noteq> (0, 0, 0)" "tidy E" using tidy_ConsD [OF Cons.prems(2)] by auto
  note script = Cons.prems(1) [unfolded t]
  have c: "0 \<le> c" "0 \<le> d" "0 \<le> n" "nat c + nat d \<le> length p" "nat c + nat n \<le> length v" using script by auto
  show ?case
  proof (cases "sz = 0")
    case True
    then show ?thesis using Cons.prems tidy_skip [of c d n E c]
      by (intro exI [of _ "t # E"] exI [of _ 0]) (auto simp: t)
  next
    case False
    then have sz: "0 < sz" using Cons.prems(4) by simp
    show ?thesis
    proof (cases "c \<ge> sz")
      case True
      have "copy_lines sz (unlines v) = (unlines (take (nat sz) v), unlines (drop (nat sz) v))"
        using True sz c Cons.prems(5) by (intro copy_lines_unlines) auto
      then have "output_one_side out (unlines v) (flat (t # E) @ [0, 0, 0]) (3 * length (t # E)) sz =
          Some (out @ unlines (take (nat sz) v), unlines (drop (nat sz) v), flat ((c - sz, d, n) # E) @ [0, 0, 0], 3 * length (t # E))"
        using True sz nz by (simp add: t)
      moreover have "is_script ((c - sz, d, n) # E) (map f (drop (nat sz) p)) (map f (drop (nat sz) v))"
        using script_copy(2) [OF script, of sz] True sz by (simp add: drop_map)
      moreover have "tidy (skip_zero ((c - sz, d, n) # E))" using tidy_skip Cons.prems(2) by (simp add: t)
      ultimately show ?thesis using True sz
        by (intro exI [of _ "(c - sz, d, n) # E"] exI [of _ "nat sz"]) (auto simp: t)
    next
      case less: False
      let ?p = "drop (nat c + nat d) p" and ?v = "drop (nat c + nat n) v"
      have ends: "ends_at_CPY (flat E @ [0, 0, 0]) (sz - c - d) = Some True" "d \<le> sz - c"
        using Cons.prems(3) sz less c nz by (auto simp: t split: if_splits)
      obtain E' j where ih: "output_one_side (out @ unlines (take (nat c + nat n) v)) (unlines ?v) (flat E @ [0, 0, 0]) (3 * length E) (sz - c - d) =
          Some ((out @ unlines (take (nat c + nat n) v)) @ unlines (take j ?v), unlines (drop j ?v), flat E' @ [0, 0, 0], 3 * length E')"
        "is_script E' (map f (drop (nat (sz - c - d)) ?p)) (map f (drop j ?v))" "tidy (skip_zero E')" "length E' \<le> length E"
        using Cons.IH [of ?p ?v "sz - c - d" "out @ unlines (take (nat c + nat n) v)"] script ends nz(2) Cons.prems(5)
        by (auto simp: drop_map)
      have copies: "copy_lines c (unlines v) = (unlines (take (nat c) v), unlines (drop (nat c) v))"
        "copy_lines n (unlines (drop (nat c) v)) = (unlines (take (nat n) (drop (nat c) v)), unlines ?v)"
        using c Cons.prems(5) copy_lines_unlines [of "drop (nat c) v" n] by (simp_all add: copy_lines_unlines add.commute)
      have out: "unlines (take (nat c) v) @ unlines (take (nat n) (drop (nat c) v)) = unlines (take (nat c + nat n) v)"
        by (simp add: take_add flip: unlines_simps(3))
      have out2: "unlines (take (nat c + nat n) v) @ unlines (take j ?v) = unlines (take (nat c + nat n + j) v)"
        "drop j ?v = drop (nat c + nat n + j) v"
        by (simp add: take_add flip: unlines_simps(3)) (simp add: add.commute)
      have "output_one_side out (unlines v) (flat (t # E) @ [0, 0, 0]) (3 * length (t # E)) sz =
          output_one_side (out @ unlines (take (nat c + nat n) v)) (unlines ?v) (flat E @ [0, 0, 0]) (3 * length E) (sz - c - d)"
        using less sz nz(1) copies unfolding out [symmetric] by (auto simp: t diff_diff_eq)
      then have "output_one_side out (unlines v) (flat (t # E) @ [0, 0, 0]) (3 * length (t # E)) sz =
          Some (out @ unlines (take (nat c + nat n + j) v), unlines (drop (nat c + nat n + j) v), flat E' @ [0, 0, 0], 3 * length E')"
        unfolding ih(1) out2(2) append_assoc out2(1) .
      moreover have "drop (nat (sz - c - d)) ?p = drop (nat sz) p" using ends(2) less c by (simp add: nat_diff_distrib)
      ultimately show ?thesis using ih(2-4) unfolding out2(2)
        by (intro exI [of _ E'] exI [of _ "nat c + nat n + j"]) simp
    qed
  qed
qed

section \<open>The loop\<close>

text \<open>Lines that differ at most in the spaces at their ends.\<close>

definition like :: "byte list list \<Rightarrow> byte list list \<Rightarrow> bool" where
  "like p q \<longleftrightarrow> map rstrip p = map rstrip q"

text \<open>\<open>merged P V1 V2 out n\<close>: \<open>out\<close> merges the versions \<open>V1\<close> and \<open>V2\<close> of \<open>P\<close> with \<open>n\<close> conflicts.\<close>

inductive merged :: "byte list list \<Rightarrow> byte list list \<Rightarrow> byte list list \<Rightarrow> byte list \<Rightarrow> nat \<Rightarrow> bool" where
  nothing: "merged [] [] [] [] 0"
| unchanged: "merged P V1 V2 out n \<Longrightarrow> like p v1 \<Longrightarrow> like p v2 \<Longrightarrow> merged (p @ P) (v1 @ V1) (v2 @ V2) (unlines p @ out) n"
| changed2: "merged P V1 V2 out n \<Longrightarrow> like p v1 \<Longrightarrow> merged (p @ P) (v1 @ V1) (v2 @ V2) (unlines v2 @ out) n"
| changed1: "merged P V1 V2 out n \<Longrightarrow> like p v2 \<Longrightarrow> merged (p @ P) (v1 @ V1) (v2 @ V2) (unlines v1 @ out) n"
| agreed: "merged P V1 V2 out n \<Longrightarrow> merged (p @ P) (v @ V1) (v @ V2) (unlines v @ out) n"
| conflict: "merged P V1 V2 out n \<Longrightarrow> merged (p @ P) (v1 @ V1) (v2 @ V2)
    (zBegin @ unlines v1 @ zMid @ unlines v2 @ zEnd @ out) (n + 1)"

definition state_of ::
  "triple list \<Rightarrow> triple list \<Rightarrow> byte list list \<Rightarrow> byte list list \<Rightarrow> byte list list \<Rightarrow> byte list \<Rightarrow> int \<Rightarrow> merge_state" where
  "state_of E1 E2 p v1 v2 out k = \<lparr>aC1 = flat E1 @ [0, 0, 0], left1 = 3 * length E1, aC2 = flat E2 @ [0, 0, 0], left2 = 3 * length E2,
     pPivot = unlines p, pV1 = unlines v1, pV2 = unlines v2, pOut = out, nConflict = k\<rparr>"

definition sides_ok :: "triple list \<Rightarrow> triple list \<Rightarrow> byte list list \<Rightarrow> byte list list \<Rightarrow> byte list list \<Rightarrow> bool" where
  "sides_ok E1 E2 p v1 v2 \<longleftrightarrow> is_script E1 (map rstrip p) (map rstrip v1) \<and> is_script E2 (map rstrip p) (map rstrip v2) \<and>
     tidy (skip_zero E1) \<and> tidy (skip_zero E2) \<and> plain p \<and> plain v1 \<and> plain v2"

lemma state_sel:
  "aC1 (state_of E1 E2 p v1 v2 out k) = flat E1 @ [0, 0, 0]" "aC2 (state_of E1 E2 p v1 v2 out k) = flat E2 @ [0, 0, 0]"
  "pV1 (state_of E1 E2 p v1 v2 out k) = unlines v1" "pV2 (state_of E1 E2 p v1 v2 out k) = unlines v2"
  by (simp_all add: state_of_def)

lemma advance_state:
  "merge_advance (state_of E1 E2 p v1 v2 out k) = state_of (skip_zero E1) (skip_zero E2) p v1 v2 out k"
  by (simp add: merge_advance_def state_of_def skip1_flat)

text \<open>What a step does: either the hook ends the merge, or a piece of the files is used up and written.\<close>

definition step_ok :: "(byte list \<Rightarrow> int \<times> byte list) \<Rightarrow> triple list \<Rightarrow> triple list \<Rightarrow> byte list list \<Rightarrow> byte list list \<Rightarrow> byte list list \<Rightarrow> byte list \<Rightarrow> int \<Rightarrow> bool" where
  "step_ok hook E1 E2 p v1 v2 out k \<longleftrightarrow>
     (\<exists>o'. fst (hook o') = 1 \<and> merge_edit hook (state_of E1 E2 p v1 v2 out k) = Some (Inl (0, snd (hook o'))) \<or>
           fst (hook o') = -1 \<and> merge_edit hook (state_of E1 E2 p v1 v2 out k) = Some (Inl (-1, snd (hook o')))) \<or>
     (\<exists>F1 F2 i j1 j2 x m. merge_edit hook (state_of E1 E2 p v1 v2 out k) =
         Some (Inr (state_of F1 F2 (drop i p) (drop j1 v1) (drop j2 v2) (out @ x) (k + int m))) \<and>
       sides_ok F1 F2 (drop i p) (drop j1 v1) (drop j2 v2) \<and>
       length (skip_zero F1) + length (skip_zero F2) + length (drop i p) < length E1 + length E2 + length p \<and>
       (\<forall>rest n. merged (drop i p) (drop j1 v1) (drop j2 v2) rest n \<longrightarrow> merged p v1 v2 (x @ rest) (m + n)))"

lemma step_okI:
  assumes "merge_edit hook (state_of E1 E2 p v1 v2 out k) =
      Some (Inr (state_of F1 F2 (drop i p) (drop j1 v1) (drop j2 v2) (out @ x) (k + int m)))"
    and "sides_ok F1 F2 (drop i p) (drop j1 v1) (drop j2 v2)"
    and "length (skip_zero F1) + length (skip_zero F2) + length (drop i p) < length E1 + length E2 + length p"
    and "\<And>rest n. merged (drop i p) (drop j1 v1) (drop j2 v2) rest n \<Longrightarrow> merged p v1 v2 (x @ rest) (m + n)"
  shows "step_ok hook E1 E2 p v1 v2 out k"
  unfolding step_ok_def
  by (rule disjI2, rule exI [of _ F1], rule exI [of _ F2], rule exI [of _ i], rule exI [of _ j1], rule exI [of _ j2],
      rule exI [of _ x], rule exI [of _ m]) (use assms in simp)

lemma step_ok0:
  assumes "merge_edit hook (state_of E1 E2 p v1 v2 out k) =
      Some (Inr (state_of F1 F2 (drop i p) (drop j1 v1) (drop j2 v2) (out @ x) k))"
    and "sides_ok F1 F2 (drop i p) (drop j1 v1) (drop j2 v2)"
    and "length (skip_zero F1) + length (skip_zero F2) + length (drop i p) < length E1 + length E2 + length p"
    and "\<And>rest n. merged (drop i p) (drop j1 v1) (drop j2 v2) rest n \<Longrightarrow> merged p v1 v2 (x @ rest) n"
  shows "step_ok hook E1 E2 p v1 v2 out k"
  using assms by (intro step_okI [where m = 0 and ?F1.0 = F1 and ?F2.0 = F2 and i = i and ?j1.0 = j1 and ?j2.0 = j2 and x = x]) simp_all

lemma like_take: "take i (map rstrip p) = take j (map rstrip q) \<Longrightarrow> like (take i p) (take j q)"
  by (simp add: like_def take_map)

lemma edit_unchanged:
  assumes "is_script ((c1, d1, n1) # R1) (map rstrip p) (map rstrip v1)" "is_script ((c2, d2, n2) # R2) (map rstrip p) (map rstrip v2)"
    and "plain p" "plain v1" "plain v2" "0 < m" "m = min c1 c2"
  shows "merge_edit hook (state_of ((c1, d1, n1) # R1) ((c2, d2, n2) # R2) p v1 v2 out k) =
    Some (Inr (state_of ((c1 - m, d1, n1) # R1) ((c2 - m, d2, n2) # R2) (drop (nat m) p) (drop (nat m) v1) (drop (nat m) v2) (out @ unlines (take (nat m) p)) k))"
proof -
  have "nat m \<le> length p" "nat m \<le> length v1" "nat m \<le> length v2"
    using script_copy(3,4) [OF assms(1), of m] script_copy(4) [OF assms(2), of m] assms(6,7) by simp_all
  moreover have "0 < c1" "0 < c2" using assms(6,7) by simp_all
  ultimately show ?thesis
    using assms(3-6) by (simp add: merge_edit_def state_of_def copy_lines_unlines flip: assms(7))
qed

lemma edit_changed2:
  assumes "is_script ((c1, d1, n1) # R1) (map rstrip p) (map rstrip v1)" "is_script ((0, d2, n2) # R2) (map rstrip p) (map rstrip v2)"
    and "plain p" "plain v1" "plain v2" "d2 \<le> c1" "0 < c1" "0 < d2 + n2"
  shows "merge_edit hook (state_of ((c1, d1, n1) # R1) ((0, d2, n2) # R2) p v1 v2 out k) =
    Some (Inr (state_of ((c1 - d2, d1, n1) # R1) R2 (drop (nat d2) p) (drop (nat d2) v1) (drop (nat n2) v2) (out @ unlines (take (nat n2) v2)) k))"
proof -
  note e = script_edit [OF assms(2)]
  have "nat d2 \<le> length v1" using script_copy(4) [OF assms(1), of d2] assms(6) e by simp
  then show ?thesis using assms(3-) e by (simp add: merge_edit_def state_of_def copy_lines_unlines)
qed

lemma edit_changed1:
  assumes "is_script ((0, d1, n1) # R1) (map rstrip p) (map rstrip v1)" "is_script ((c2, d2, n2) # R2) (map rstrip p) (map rstrip v2)"
    and "plain p" "plain v1" "plain v2" "d1 \<le> c2" "0 < c2" "0 < d1 + n1"
  shows "merge_edit hook (state_of ((0, d1, n1) # R1) ((c2, d2, n2) # R2) p v1 v2 out k) =
    Some (Inr (state_of R1 ((c2 - d1, d2, n2) # R2) (drop (nat d1) p) (drop (nat n1) v1) (drop (nat d1) v2) (out @ unlines (take (nat n1) v1)) k))"
proof -
  note e = script_edit [OF assms(1)]
  have "nat d1 \<le> length v2" using script_copy(4) [OF assms(2), of d1] assms(6) e by simp
  then show ?thesis using assms(3-) e by (simp add: merge_edit_def state_of_def copy_lines_unlines)
qed

lemma step_unchanged:
  assumes "sides_ok ((c1, d1, n1) # R1) ((c2, d2, n2) # R2) p v1 v2" "tidy ((c1, d1, n1) # R1)" "tidy ((c2, d2, n2) # R2)" "0 < c1" "0 < c2"
  shows "step_ok hook ((c1, d1, n1) # R1) ((c2, d2, n2) # R2) p v1 v2 out k"
proof -
  define m where "m = min c1 c2"
  have m: "0 < m" "m \<le> c1" "m \<le> c2" using assms(4,5) by (auto simp: m_def)
  note s = assms(1) [unfolded sides_ok_def]
  note k1 = script_copy [of c1 d1 n1 R1 _ _ m] and k2 = script_copy [of c2 d2 n2 R2 _ _ m]
  have l1: "take (nat m) (map rstrip p) = take (nat m) (map rstrip v1)" "nat m \<le> length p" "nat m \<le> length v1"
    "is_script ((c1 - m, d1, n1) # R1) (map rstrip (drop (nat m) p)) (map rstrip (drop (nat m) v1))"
    using k1 [of "map rstrip p" "map rstrip v1"] s m by (auto simp: drop_map)
  have l2: "take (nat m) (map rstrip p) = take (nat m) (map rstrip v2)" "nat m \<le> length v2"
    "is_script ((c2 - m, d2, n2) # R2) (map rstrip (drop (nat m) p)) (map rstrip (drop (nat m) v2))"
    using k2 [of "map rstrip p" "map rstrip v2"] s m by (auto simp: drop_map)
  let ?F1 = "(c1 - m, d1, n1) # R1" and ?F2 = "(c2 - m, d2, n2) # R2"
  have "merge_edit hook (state_of ((c1, d1, n1) # R1) ((c2, d2, n2) # R2) p v1 v2 out k) =
      Some (Inr (state_of ?F1 ?F2 (drop (nat m) p) (drop (nat m) v1) (drop (nat m) v2) (out @ unlines (take (nat m) p)) k))"
    using s m(1) by (intro edit_unchanged) (simp_all add: m_def)
  moreover have "sides_ok ?F1 ?F2 (drop (nat m) p) (drop (nat m) v1) (drop (nat m) v2)"
    using s l1 l2 tidy_skip [OF assms(2)] tidy_skip [OF assms(3)] by (simp add: sides_ok_def)
  moreover have "length (skip_zero ?F1) + length (skip_zero ?F2) + length (drop (nat m) p) < length ((c1, d1, n1) # R1) + length ((c2, d2, n2) # R2) + length p"
    using length_skip [of ?F1] length_skip [of ?F2] l1(2) m(1) by simp
  moreover have "merged p v1 v2 (unlines (take (nat m) p) @ rest) n" if "merged (drop (nat m) p) (drop (nat m) v1) (drop (nat m) v2) rest n" for rest n
    using merged.unchanged [OF that like_take [OF l1(1)] like_take [OF l2(1)]] by simp
  ultimately show ?thesis by (rule step_ok0)
qed

lemma step_changed2:
  assumes "sides_ok ((c1, d1, n1) # R1) ((0, d2, n2) # R2) p v1 v2" "tidy ((c1, d1, n1) # R1)" "tidy ((0, d2, n2) # R2)" "d2 \<le> c1" "0 < c1"
  shows "step_ok hook ((c1, d1, n1) # R1) ((0, d2, n2) # R2) p v1 v2 out k"
proof -
  note s = assms(1) [unfolded sides_ok_def]
  have e: "0 \<le> d2" "0 \<le> n2" "nat d2 \<le> length p" "nat n2 \<le> length v2" "is_script R2 (map rstrip (drop (nat d2) p)) (map rstrip (drop (nat n2) v2))"
    using script_edit [of d2 n2 R2 "map rstrip p" "map rstrip v2"] s by (auto simp: drop_map)
  have l1: "take (nat d2) (map rstrip p) = take (nat d2) (map rstrip v1)" "nat d2 \<le> length v1"
    "is_script ((c1 - d2, d1, n1) # R1) (map rstrip (drop (nat d2) p)) (map rstrip (drop (nat d2) v1))"
    using script_copy [of c1 d1 n1 R1 "map rstrip p" "map rstrip v1" d2] s assms(4) e(1) by (auto simp: drop_map)
  have pos: "0 < d2 + n2" using tidy_ConsD [OF assms(3)] e(1,2) by auto
  let ?F1 = "(c1 - d2, d1, n1) # R1"
  have "merge_edit hook (state_of ((c1, d1, n1) # R1) ((0, d2, n2) # R2) p v1 v2 out k) =
      Some (Inr (state_of ?F1 R2 (drop (nat d2) p) (drop (nat d2) v1) (drop (nat n2) v2) (out @ unlines (take (nat n2) v2)) k))"
    using s pos assms(4,5) by (intro edit_changed2) simp_all
  moreover have "sides_ok ?F1 R2 (drop (nat d2) p) (drop (nat d2) v1) (drop (nat n2) v2)"
    using s l1 e tidy_skip [OF assms(2)] tidy_skip_tl [OF assms(3)] by (simp add: sides_ok_def)
  moreover have "length (skip_zero ?F1) + length (skip_zero R2) + length (drop (nat d2) p) < length ((c1, d1, n1) # R1) + length ((0, d2, n2) # R2) + length p"
    using length_skip [of ?F1] length_skip [of R2] by simp
  moreover have "merged p v1 v2 (unlines (take (nat n2) v2) @ rest) n" if "merged (drop (nat d2) p) (drop (nat d2) v1) (drop (nat n2) v2) rest n" for rest n
    using merged.changed2 [OF that like_take [OF l1(1)], of "take (nat n2) v2"] by simp
  ultimately show ?thesis by (rule step_ok0)
qed

lemma step_changed1:
  assumes "sides_ok ((0, d1, n1) # R1) ((c2, d2, n2) # R2) p v1 v2" "tidy ((0, d1, n1) # R1)" "tidy ((c2, d2, n2) # R2)" "d1 \<le> c2" "0 < c2"
  shows "step_ok hook ((0, d1, n1) # R1) ((c2, d2, n2) # R2) p v1 v2 out k"
proof -
  note s = assms(1) [unfolded sides_ok_def]
  have e: "0 \<le> d1" "0 \<le> n1" "nat d1 \<le> length p" "nat n1 \<le> length v1" "is_script R1 (map rstrip (drop (nat d1) p)) (map rstrip (drop (nat n1) v1))"
    using script_edit [of d1 n1 R1 "map rstrip p" "map rstrip v1"] s by (auto simp: drop_map)
  have l2: "take (nat d1) (map rstrip p) = take (nat d1) (map rstrip v2)" "nat d1 \<le> length v2"
    "is_script ((c2 - d1, d2, n2) # R2) (map rstrip (drop (nat d1) p)) (map rstrip (drop (nat d1) v2))"
    using script_copy [of c2 d2 n2 R2 "map rstrip p" "map rstrip v2" d1] s assms(4) e(1) by (auto simp: drop_map)
  have pos: "0 < d1 + n1" using tidy_ConsD [OF assms(2)] e(1,2) by auto
  let ?F2 = "(c2 - d1, d2, n2) # R2"
  have "merge_edit hook (state_of ((0, d1, n1) # R1) ((c2, d2, n2) # R2) p v1 v2 out k) =
      Some (Inr (state_of R1 ?F2 (drop (nat d1) p) (drop (nat n1) v1) (drop (nat d1) v2) (out @ unlines (take (nat n1) v1)) k))"
    using s pos assms(4,5) by (intro edit_changed1) simp_all
  moreover have "sides_ok R1 ?F2 (drop (nat d1) p) (drop (nat n1) v1) (drop (nat d1) v2)"
    using s l2 e tidy_skip [OF assms(3)] tidy_skip_tl [OF assms(2)] by (simp add: sides_ok_def)
  moreover have "length (skip_zero R1) + length (skip_zero ?F2) + length (drop (nat d1) p) < length ((0, d1, n1) # R1) + length ((c2, d2, n2) # R2) + length p"
    using length_skip [of ?F2] length_skip [of R1] by simp
  moreover have "merged p v1 v2 (unlines (take (nat n1) v1) @ rest) n" if "merged (drop (nat d1) p) (drop (nat n1) v1) (drop (nat d1) v2) rest n" for rest n
    using merged.changed1 [OF that like_take [OF l2(1)], of "take (nat n1) v1"] by simp
  ultimately show ?thesis by (rule step_ok0)
qed

lemma sameEdit_lines:
  assumes "is_script ((c1, d1, n1) # R1) xs1 (map rstrip v1)" "is_script ((c2, d2, n2) # R2) xs2 (map rstrip v2)" "plain v1" "plain v2"
  shows "sameEdit (c1, d1, n1) (c2, d2, n2) (unlines v1) (unlines v2) =
    Some (c1 = c2 \<and> d1 = d2 \<and> n1 = n2 \<and> take (nat n1) v1 = take (nat n2) v2)"
proof (cases "c1 = c2 \<and> d1 = d2 \<and> n1 = n2 \<and> n1 \<noteq> 0")
  case True
  have "0 \<le> n1" "nat n1 \<le> length v1" "nat n1 \<le> length v2" using assms(1,2) True by auto
  then show ?thesis using same_lines_lines [OF assms(3,4), of "nat n1"] True by (auto simp: sameEdit_def sameLines_def)
qed (auto simp: sameEdit_def sameLines_def)

lemma edit_agreed:
  assumes "is_script ((0, d, n) # R1) (map rstrip p) (map rstrip v1)" "is_script ((0, d, n) # R2) (map rstrip p) (map rstrip v2)"
    and "plain p" "plain v1" "plain v2" "take (nat n) v1 = take (nat n) v2"
  shows "merge_edit hook (state_of ((0, d, n) # R1) ((0, d, n) # R2) p v1 v2 out k) =
    Some (Inr (state_of R1 R2 (drop (nat d) p) (drop (nat n) v1) (drop (nat n) v2) (out @ unlines (take (nat n) v1)) k))"
proof -
  have "sameEdit (0, d, n) (0, d, n) (unlines v1) (unlines v2) = Some True"
    using sameEdit_lines [OF assms(1,2,4,5)] assms(6) by simp
  then show ?thesis
    using script_edit [OF assms(1)] script_edit [OF assms(2)] assms(3-5) by (simp add: merge_edit_def state_of_def copy_lines_unlines)
qed

lemma step_agreed:
  assumes "sides_ok ((0, d, n) # R1) ((0, d, n) # R2) p v1 v2" "tidy ((0, d, n) # R1)" "tidy ((0, d, n) # R2)"
    "take (nat n) v1 = take (nat n) v2"
  shows "step_ok hook ((0, d, n) # R1) ((0, d, n) # R2) p v1 v2 out k"
proof -
  note s = assms(1) [unfolded sides_ok_def]
  have s1: "is_script ((0, d, n) # R1) (map rstrip p) (map rstrip v1)" and s2: "is_script ((0, d, n) # R2) (map rstrip p) (map rstrip v2)"
    using s by blast+
  have e: "0 \<le> d" "0 \<le> n" "nat d \<le> length p" "nat n \<le> length v1" "nat n \<le> length v2"
    "is_script R1 (map rstrip (drop (nat d) p)) (map rstrip (drop (nat n) v1))"
    "is_script R2 (map rstrip (drop (nat d) p)) (map rstrip (drop (nat n) v2))"
    using script_edit [OF s1] script_edit [OF s2] by (simp_all add: drop_map)
  have "merge_edit hook (state_of ((0, d, n) # R1) ((0, d, n) # R2) p v1 v2 out k) =
      Some (Inr (state_of R1 R2 (drop (nat d) p) (drop (nat n) v1) (drop (nat n) v2) (out @ unlines (take (nat n) v1)) k))"
    using s assms(4) by (intro edit_agreed) simp_all
  moreover have "sides_ok R1 R2 (drop (nat d) p) (drop (nat n) v1) (drop (nat n) v2)"
    using s e tidy_skip_tl [OF assms(2)] tidy_skip_tl [OF assms(3)] by (simp add: sides_ok_def)
  moreover have "length (skip_zero R1) + length (skip_zero R2) + length (drop (nat d) p) < length ((0, d, n) # R1) + length ((0, d, n) # R2) + length p"
    using length_skip [of R1] length_skip [of R2] by simp
  moreover have "merged p v1 v2 (unlines (take (nat n) v1) @ rest) m" if "merged (drop (nat d) p) (drop (nat n) v1) (drop (nat n) v2) rest m" for rest m
  proof -
    have v2: "take (nat n) v1 @ drop (nat n) v2 = v2" unfolding assms(4) by (rule append_take_drop_id)
    show ?thesis
      using merged.agreed [OF that, of "take (nat d) p" "take (nat n) v1"] unfolding append_take_drop_id v2 .
  qed
  ultimately show ?thesis by (rule step_ok0)
qed

definition hook_law :: "(byte list \<Rightarrow> int \<times> byte list) \<Rightarrow> bool" where
  "hook_law hook \<longleftrightarrow> (\<forall>out. fst (hook out) = 1 \<or> fst (hook out) = -1 \<or> snd (hook out) = out)"

lemma step_conflict:
  assumes "sides_ok E1 E2 p v1 v2" "tidy E1" "tidy E2" "E1 \<noteq> []" "E2 \<noteq> []" "fst (hd E1) = 0 \<or> fst (hd E2) = 0" "hook_law hook"
    and conf: "merge_edit hook (state_of E1 E2 p v1 v2 out k) = merge_conflict hook (state_of E1 E2 p v1 v2 out k)"
  shows "step_ok hook E1 E2 p v1 v2 out k"
proof -
  note s = assms(1) [unfolded sides_ok_def]
  have script: "is_script E1 (map rstrip p) (map rstrip v1)" "is_script E2 (map rstrip p) (map rstrip v2)" and pl: "plain p" "plain v1" "plain v2" using s by auto
  obtain sz where sz: "1 \<le> sz" "conflict_size (flat E1 @ [0, 0, 0]) (flat E2 @ [0, 0, 0]) 1 = Some sz"
    "ends_at_CPY (flat E1 @ [0, 0, 0]) sz = Some True" "ends_at_CPY (flat E2 @ [0, 0, 0]) sz = Some True"
    using conflict_size_ok [OF script, of 1] by auto
  obtain sub o' where h: "hook out = (sub, o')" by (cases "hook out")
  show ?thesis
  proof (cases "sub = 1 \<or> sub = -1")
    case True
    then show ?thesis unfolding step_ok_def conf
      by - (rule disjI1, rule exI [of _ out], auto simp: merge_conflict_def state_of_def sz(2) h)
  next
    case False
    then have o': "o' = out" using assms(7) h by (auto simp: hook_law_def dest: spec [of _ out])
    obtain F1 j1 where f1: "output_one_side (out @ zBegin) (unlines v1) (flat E1 @ [0, 0, 0]) (3 * length E1) sz =
        Some ((out @ zBegin) @ unlines (take j1 v1), unlines (drop j1 v1), flat F1 @ [0, 0, 0], 3 * length F1)"
      "is_script F1 (map rstrip (drop (nat sz) p)) (map rstrip (drop j1 v1))" "tidy (skip_zero F1)" "length F1 \<le> length E1"
      "fst (hd E1) = 0 \<longrightarrow> length F1 < length E1"
      using output_side [OF script(1) assms(2) sz(3) _ pl(2), of "out @ zBegin"] sz(1) assms(4) by auto
    obtain F2 j2 where f2: "output_one_side (((out @ zBegin) @ unlines (take j1 v1)) @ zMid) (unlines v2) (flat E2 @ [0, 0, 0]) (3 * length E2) sz =
        Some ((((out @ zBegin) @ unlines (take j1 v1)) @ zMid) @ unlines (take j2 v2), unlines (drop j2 v2), flat F2 @ [0, 0, 0], 3 * length F2)"
      "is_script F2 (map rstrip (drop (nat sz) p)) (map rstrip (drop j2 v2))" "tidy (skip_zero F2)" "length F2 \<le> length E2"
      "fst (hd E2) = 0 \<longrightarrow> length F2 < length E2"
      using output_side [OF script(2) assms(3) sz(4) _ pl(3), of "((out @ zBegin) @ unlines (take j1 v1)) @ zMid"] sz(1) assms(5) by auto
    have piv: "snd (copy_lines sz (unlines p)) = unlines (drop (nat sz) p)"
    proof (cases "nat sz \<le> length p")
      case True
      then show ?thesis using copy_lines_unlines [OF pl(1), of sz] sz(1) by simp
    next
      case False
      then show ?thesis using copy_lines_all [OF pl(1)] sz(1) by simp
    qed
    let ?x = "zBegin @ unlines (take j1 v1) @ zMid @ unlines (take j2 v2) @ zEnd"
    show ?thesis
    proof (rule step_okI)
      show "merge_edit hook (state_of E1 E2 p v1 v2 out k) =
          Some (Inr (state_of F1 F2 (drop (nat sz) p) (drop j1 v1) (drop j2 v2) (out @ ?x) (k + int 1)))"
        unfolding conf using False by (simp add: merge_conflict_def state_of_def sz(2) h o' f1(1) f2(1) piv flip: append_assoc)
      show "sides_ok F1 F2 (drop (nat sz) p) (drop j1 v1) (drop j2 v2)" using f1 f2 pl by (simp add: sides_ok_def)
      show "length (skip_zero F1) + length (skip_zero F2) + length (drop (nat sz) p) < length E1 + length E2 + length p"
        using length_skip [of F1] length_skip [of F2] f1(4,5) f2(4,5) assms(6) by auto
      show "merged p v1 v2 (?x @ rest) (1 + n)" if "merged (drop (nat sz) p) (drop j1 v1) (drop j2 v2) rest n" for rest n
        using merged.conflict [OF that, of "take (nat sz) p" "take j1 v1" "take j2 v2"] by simp
    qed
  qed
qed

lemma merge_step_ok:
  assumes "sides_ok E1 E2 p v1 v2" "tidy E1" "tidy E2" "E1 \<noteq> []" "E2 \<noteq> []" "hook_law hook"
  shows "step_ok hook E1 E2 p v1 v2 out k"
proof -
  obtain c1 d1 n1 R1 where E1: "E1 = (c1, d1, n1) # R1" using assms(4) by (cases E1) auto
  obtain c2 d2 n2 R2 where E2: "E2 = (c2, d2, n2) # R2" using assms(5) by (cases E2) auto
  note s = assms(1) [unfolded sides_ok_def E1 E2]
  have pos: "0 \<le> c1" "0 \<le> d1" "0 \<le> n1" "0 \<le> c2" "0 \<le> d2" "0 \<le> n2" using s by auto
  have nz: "(c1, d1, n1) \<noteq> (0, 0, 0)" "(c2, d2, n2) \<noteq> (0, 0, 0)" using tidy_ConsD assms(2,3) E1 E2 by blast+
  have same: "sameEdit (c1, d1, n1) (c2, d2, n2) (unlines v1) (unlines v2) =
      Some (c1 = c2 \<and> d1 = d2 \<and> n1 = n2 \<and> take (nat n1) v1 = take (nat n2) v2)"
    using sameEdit_lines [of c1 d1 n1 R1 "map rstrip p" v1 c2 d2 n2 R2 "map rstrip p" v2] s by simp
  consider "0 < c1" "0 < c2" | "c2 = 0" "0 < c1" "d2 \<le> c1" | "c1 = 0" "0 < c2" "d1 \<le> c2"
    | "c1 = 0" "c2 = 0" "d1 = d2" "n1 = n2" "take (nat n1) v1 = take (nat n2) v2"
    | "c1 = 0 \<or> c2 = 0" "\<not> (0 < c1 \<and> d2 \<le> c1)" "\<not> (0 < c2 \<and> d1 \<le> c2)" "\<not> (c1 = c2 \<and> d1 = d2 \<and> n1 = n2 \<and> take (nat n1) v1 = take (nat n2) v2)"
    using pos by fastforce
  then show ?thesis
  proof cases
    case 5
    have "sameEdit (c1, d1, n1) (c2, d2, n2) (unlines v1) (unlines v2) = Some False" using same 5(4) by simp
    moreover have "(0 < c1 \<and> 0 < c2) = False" "(d2 \<le> c1 \<and> 0 < c1 \<and> 0 < d2 + n2) = False" "(d1 \<le> c2 \<and> 0 < c2 \<and> 0 < d1 + n1) = False"
      using 5(1-3) by auto
    ultimately have "merge_edit hook (state_of E1 E2 p v1 v2 out k) = merge_conflict hook (state_of E1 E2 p v1 v2 out k)"
      by (simp only: merge_edit_def state_sel E1 E2 flat_simps append_Cons list.case prod.case if_False option.case bool.case)
    then show ?thesis using step_conflict [OF assms(1-5) _ assms(6)] 5(1) by (simp add: E1 E2)
  next
    case 1
    then show ?thesis using step_unchanged assms(1-3) by (simp add: E1 E2)
  next
    case 2
    then show ?thesis using step_changed2 assms(1-3) by (simp add: E1 E2)
  next
    case 3
    then show ?thesis using step_changed1 assms(1-3) by (simp add: E1 E2)
  next
    case 4
    then show ?thesis using step_agreed assms(1-3) by (simp add: E1 E2)
  qed
qed

lemma merge_rest_ok:
  assumes "sides_ok E1 E2 p v1 v2" "tidy E1" "tidy E2" "E1 = [] \<or> E2 = []"
  shows "merge_rest (state_of E1 E2 p v1 v2 out k) = Some (k, out @ unlines (v1 @ v2)) \<and> merged p v1 v2 (unlines (v1 @ v2)) 0 \<and> (v1 = [] \<or> v2 = [])"
proof -
  have only: "E = [] \<and> v = [] \<or> (\<exists>n. E = [(0, 0, n)] \<and> n = int (length v) \<and> 0 < n)" if "tidy E" "is_script E [] (map rstrip v)" for E v
  proof (cases E)
    case (Cons t R)
    obtain c d n where t: "t = (c, d, n)" by (cases t)
    have sc: "c = 0" "d = 0" "0 \<le> n" "nat n \<le> length v" "is_script R [] (drop (nat n) (map rstrip v))" using that(2) by (auto simp: Cons t)
    have "R = []"
    proof (cases R)
      case R: (Cons u S)
      obtain c' d' n' where "u = (c', d', n')" by (cases u)
      then show ?thesis using sc(5) that(1) by (auto simp: R Cons tidy_def)
    qed
    then show ?thesis using sc that(1) by (auto simp: Cons t tidy_def)
  qed (use that in simp)
  note s = assms(1) [unfolded sides_ok_def]
  have p: "p = []" using s assms(4) by auto
  have pl: "plain v1" "plain v2" using s by auto
  have one: "E1 = [] \<and> v1 = [] \<or> (\<exists>n. E1 = [(0, 0, n)] \<and> n = int (length v1) \<and> 0 < n)"
    "E2 = [] \<and> v2 = [] \<or> (\<exists>n. E2 = [(0, 0, n)] \<and> n = int (length v2) \<and> 0 < n)" using only assms(2,3) s p by auto
  have "merged [] [] v2 (unlines v2) 0" "merged [] v1 [] (unlines v1) 0"
    using merged.changed2 [OF merged.nothing, of "[]" "[]" v2] merged.changed1 [OF merged.nothing, of "[]" "[]" v1] by (simp_all add: like_def)
  then show ?thesis
    using one assms(4) pl p copy_lines_unlines [OF pl(1), of "int (length v1)"] copy_lines_unlines [OF pl(2), of "int (length v2)"]
    by (auto simp: merge_rest_def state_of_def)
qed

lemma merge_loop_ok:
  assumes "hook_law hook"
  shows "sides_ok E1 E2 p v1 v2 \<Longrightarrow> tidy E1 \<Longrightarrow> tidy E2 \<Longrightarrow>
    (\<exists>o'. fst (hook o') = 1 \<and> merge_loop hook (state_of E1 E2 p v1 v2 out k) = Some (0, snd (hook o')) \<or>
          fst (hook o') = -1 \<and> merge_loop hook (state_of E1 E2 p v1 v2 out k) = Some (-1, snd (hook o'))) \<or>
    (\<exists>x n. merge_loop hook (state_of E1 E2 p v1 v2 out k) = Some (k + int n, out @ x) \<and> merged p v1 v2 x n)"
proof (induction "length E1 + length E2 + length p" arbitrary: E1 E2 p v1 v2 out k rule: less_induct)
  case less
  let ?s = "state_of E1 E2 p v1 v2 out k"
  have left: "left1 ?s = 3 * length E1" "left2 ?s = 3 * length E2" by (simp_all add: state_of_def)
  show ?case
  proof (cases "E1 \<noteq> [] \<and> E2 \<noteq> []")
    case False
    then have "merge_loop hook ?s = merge_rest ?s" by (subst merge_loop.simps) (auto simp: left)
    then show ?thesis
      using merge_rest_ok [OF less.prems, of out k] False by (intro disjI2 exI [of _ "unlines (v1 @ v2)"] exI [of _ 0]) simp
  next
    case True
    then have unf: "merge_loop hook ?s = (case merge_edit hook ?s of None \<Rightarrow> None
        | Some r \<Rightarrow> (case r of Inl code \<Rightarrow> Some code | Inr s' \<Rightarrow> merge_loop hook (merge_advance s')))"
      by (subst merge_loop.simps) (simp add: left)
    from merge_step_ok [OF less.prems _ _ assms, of out k] True
    consider o' where "fst (hook o') = 1" "merge_edit hook ?s = Some (Inl (0, snd (hook o')))"
      | o' where "fst (hook o') = -1" "merge_edit hook ?s = Some (Inl (-1, snd (hook o')))"
      | F1 F2 i j1 j2 x m where "merge_edit hook ?s = Some (Inr (state_of F1 F2 (drop i p) (drop j1 v1) (drop j2 v2) (out @ x) (k + int m)))"
        "sides_ok F1 F2 (drop i p) (drop j1 v1) (drop j2 v2)"
        "length (skip_zero F1) + length (skip_zero F2) + length (drop i p) < length E1 + length E2 + length p"
        "\<forall>rest n. merged (drop i p) (drop j1 v1) (drop j2 v2) rest n \<longrightarrow> merged p v1 v2 (x @ rest) (m + n)"
      unfolding step_ok_def by blast
    then show ?thesis
    proof cases
      case 3
      have "sides_ok (skip_zero F1) (skip_zero F2) (drop i p) (drop j1 v1) (drop j2 v2)" "tidy (skip_zero F1)" "tidy (skip_zero F2)"
        using 3(2) by (simp_all add: sides_ok_def skip_tidy)
      from less.hyps [OF 3(3) this, of "out @ x" "k + int m"] show ?thesis
      proof
        assume "\<exists>y n. merge_loop hook (state_of (skip_zero F1) (skip_zero F2) (drop i p) (drop j1 v1) (drop j2 v2) (out @ x) (k + int m)) =
            Some (k + int m + int n, (out @ x) @ y) \<and> merged (drop i p) (drop j1 v1) (drop j2 v2) y n"
        then obtain y n where y: "merge_loop hook (state_of (skip_zero F1) (skip_zero F2) (drop i p) (drop j1 v1) (drop j2 v2) (out @ x) (k + int m)) =
            Some (k + int m + int n, (out @ x) @ y)" "merged (drop i p) (drop j1 v1) (drop j2 v2) y n" by blast
        have "merge_loop hook ?s = Some (k + int (m + n), out @ x @ y)" unfolding unf 3(1) using y(1) by (simp add: advance_state)
        then show ?thesis using 3(4) y(2) by blast
      qed (use unf 3(1) in \<open>simp add: advance_state\<close>)
    qed (use unf in auto)
  qed
qed

section \<open>Merges in which nothing can collide\<close>

definition yields :: "(byte list \<Rightarrow> int \<times> byte list) \<Rightarrow> triple list \<Rightarrow> triple list \<Rightarrow> byte list list \<Rightarrow> byte list list \<Rightarrow> byte list list \<Rightarrow> byte list list \<Rightarrow> bool" where
  "yields hook E1 E2 p v1 v2 w \<longleftrightarrow>
     (\<forall>out k. \<exists>x. merge_loop hook (state_of E1 E2 p v1 v2 out k) = Some (k, out @ unlines x) \<and> like x w)"

lemma like_refl [simp]: "like x x"
  by (simp add: like_def)

lemma like_append: "like x v \<Longrightarrow> like y w \<Longrightarrow> like (x @ y) (v @ w)"
  by (simp add: like_def)

lemma yields_step:
  assumes "\<And>out k. merge_edit hook (state_of E1 E2 p v1 v2 out k) = Some (Inr (state_of F1 F2 p' v1' v2' (out @ unlines x) k))"
    and "E1 \<noteq> []" "E2 \<noteq> []" "yields hook (skip_zero F1) (skip_zero F2) p' v1' v2' w'" "like x w0" "w0 @ w' = w"
  shows "yields hook E1 E2 p v1 v2 w"
  unfolding yields_def
proof (intro allI)
  fix out k
  obtain y where y: "merge_loop hook (state_of (skip_zero F1) (skip_zero F2) p' v1' v2' (out @ unlines x) k) = Some (k, (out @ unlines x) @ unlines y)" "like y w'"
    using assms(4) unfolding yields_def by blast
  have "merge_loop hook (state_of E1 E2 p v1 v2 out k) = Some (k, out @ unlines (x @ y))"
    using assms(1-3) y(1) by (subst merge_loop.simps) (simp add: advance_state state_of_def [of E1 E2, THEN arg_cong, of left1] state_of_def [of E1 E2, THEN arg_cong, of left2])
  then show "\<exists>x. merge_loop hook (state_of E1 E2 p v1 v2 out k) = Some (k, out @ unlines x) \<and> like x w"
    using like_append [OF assms(5) y(2)] assms(6) by blast
qed

lemma yields_rest:
  assumes "sides_ok E1 E2 p v1 v2" "tidy E1" "tidy E2" "E1 = [] \<or> E2 = []"
  shows "yields hook E1 E2 p v1 v2 (v1 @ v2)"
  unfolding yields_def
proof (intro allI)
  fix out k
  have "merge_loop hook (state_of E1 E2 p v1 v2 out k) = merge_rest (state_of E1 E2 p v1 v2 out k)"
    using assms(4) by (subst merge_loop.simps) (auto simp: state_of_def)
  then show "\<exists>x. merge_loop hook (state_of E1 E2 p v1 v2 out k) = Some (k, out @ unlines x) \<and> like x (v1 @ v2)"
    using merge_rest_ok [OF assms, of out k] by (intro exI [of _ "v1 @ v2"]) simp
qed

text \<open>The script that keeps everything.\<close>

definition keep_all :: "'a list \<Rightarrow> triple list" where
  "keep_all p = (if p = [] then [] else [(int (length p), 0, 0)])"

lemma keep_all_script: "is_script (keep_all p) (map f p) (map f v) \<longleftrightarrow> map f p = map f v"
proof (cases "p = []")
  case False
  then show ?thesis
    using map_eq_imp_length_eq [of f p f v]
    by (auto simp: keep_all_def is_script_single simp del: is_script.simps intro: exI [of _ "map f v"])
qed (auto simp: keep_all_def)

lemma keep_all_tidy [simp]: "tidy (keep_all p)"
  by (simp add: keep_all_def tidy_def)

lemma keep_all_skip [simp]: "n \<le> length p \<Longrightarrow> skip_zero [(int (length p) - int n, 0, 0)] = keep_all (drop n p)"
  by (auto simp: skip_zero_def keep_all_def)

lemma yields_changed1:
  "sides_ok E (keep_all p) p v1 v2 \<Longrightarrow> tidy E \<Longrightarrow> yields hook E (keep_all p) p v1 v2 v1"
proof (induction "length E + length p" arbitrary: E p v1 v2 rule: less_induct)
  case less
  note s = less.prems(1) [unfolded sides_ok_def]
  have like: "map rstrip p = map rstrip v2" using s keep_all_script by blast
  show ?case
  proof (cases "p = []")
    case True
    then show ?thesis using yields_rest [OF less.prems(1,2), of hook] like by (simp add: keep_all_def)
  next
    case False
    then obtain c d n R where E: "E = (c, d, n) # R" using s by (cases E) auto
    have K: "keep_all p = [(int (length p), 0, 0)]" using False by (simp add: keep_all_def)
    have s1: "is_script ((c, d, n) # R) (map rstrip p) (map rstrip v1)" and s2: "is_script [(int (length p), 0, 0)] (map rstrip p) (map rstrip v2)"
      and pl: "plain p" "plain v1" "plain v2" using s [unfolded E K] by blast+
    have c: "0 \<le> c" "0 \<le> d" "0 \<le> n" "nat c + nat d \<le> length p" using s1 by auto
    have nz: "(c, d, n) \<noteq> (0, 0, 0)" using tidy_ConsD less.prems(2) E by blast
    show ?thesis
    proof (cases "c = 0")
      case True
      let ?p = "drop (nat d) p" and ?v = "drop (nat n) v1" and ?w = "drop (nat d) v2"
      note e = script_edit [OF s1 [unfolded True]]
      have "map rstrip ?p = map rstrip ?w" using like by (metis drop_map)
      then have "is_script (keep_all ?p) (map rstrip ?p) (map rstrip ?w)" using keep_all_script by blast
      moreover have "is_script R (map rstrip ?p) (map rstrip ?v)" using e by (simp add: drop_map)
      ultimately have "sides_ok (skip_zero R) (keep_all ?p) ?p ?v ?w"
        using pl tidy_skip_tl [of "(c, d, n)" R] less.prems(2) by (simp add: sides_ok_def E skip_tidy)
      moreover have "tidy (skip_zero R)" using tidy_skip_tl less.prems(2) E by blast
      ultimately have "yields hook (skip_zero R) (keep_all ?p) ?p ?v ?w ?v" using length_skip [of R] by (intro less.hyps) (auto simp: E)
      moreover have "skip_zero [(int (length p) - d, 0, 0)] = keep_all ?p" using keep_all_skip [of "nat d" p] c by simp
      ultimately show ?thesis
        unfolding K E True
        using nz c True False e pl by (intro yields_step [OF edit_changed1 [OF s1 [unfolded True] s2 pl], where w' = ?v and ?w0.0 = "take (nat n) v1"]) auto
    next
      case False
      let ?p = "drop (nat c) p" and ?v = "drop (nat c) v1" and ?w = "drop (nat c) v2"
      note k = script_copy [OF s1, of c]
      have m: "c = min c (int (length p))" using c by simp
      have "map rstrip ?p = map rstrip ?w" using like by (metis drop_map)
      then have "is_script (keep_all ?p) (map rstrip ?p) (map rstrip ?w)" using keep_all_script by blast
      moreover have "is_script ((0, d, n) # R) (map rstrip ?p) (map rstrip ?v)" using k(2) c by (simp add: drop_map del: is_script.simps)
      ultimately have "sides_ok (skip_zero ((0, d, n) # R)) (keep_all ?p) ?p ?v ?w"
        using pl tidy_skip [of c d n R 0] less.prems(2) by (simp add: sides_ok_def E skip_tidy del: is_script.simps)
      moreover have "tidy (skip_zero ((0, d, n) # R))" using tidy_skip less.prems(2) E by blast
      ultimately have "yields hook (skip_zero ((0, d, n) # R)) (keep_all ?p) ?p ?v ?w ?v"
        using length_skip [of "(0, d, n) # R"] c False \<open>p \<noteq> []\<close> by (intro less.hyps) (auto simp: E)
      moreover have "skip_zero [(int (length p) - c, 0, 0)] = keep_all ?p" using keep_all_skip [of "nat c" p] c by simp
      moreover have "like (take (nat c) p) (take (nat c) v1)" using k(1) c by (intro like_take) simp
      ultimately show ?thesis
        unfolding K E using c False \<open>p \<noteq> []\<close>
        by (intro yields_step [OF edit_unchanged [OF s1 s2 pl _ m], where w' = ?v and ?w0.0 = "take (nat c) v1"]) auto
    qed
  qed
qed

lemma yields_changed2:
  "sides_ok (keep_all p) E p v1 v2 \<Longrightarrow> tidy E \<Longrightarrow> yields hook (keep_all p) E p v1 v2 v2"
proof (induction "length E + length p" arbitrary: E p v1 v2 rule: less_induct)
  case less
  note s = less.prems(1) [unfolded sides_ok_def]
  have like: "map rstrip p = map rstrip v1" using s keep_all_script by blast
  show ?case
  proof (cases "p = []")
    case True
    then show ?thesis using yields_rest [OF less.prems(1) _ less.prems(2), of hook] like by (simp add: keep_all_def)
  next
    case False
    then obtain c d n R where E: "E = (c, d, n) # R" using s by (cases E) auto
    have K: "keep_all p = [(int (length p), 0, 0)]" using False by (simp add: keep_all_def)
    have s2: "is_script ((c, d, n) # R) (map rstrip p) (map rstrip v2)" and s1: "is_script [(int (length p), 0, 0)] (map rstrip p) (map rstrip v1)"
      and pl: "plain p" "plain v1" "plain v2" using s [unfolded E K] by blast+
    have c: "0 \<le> c" "0 \<le> d" "0 \<le> n" "nat c + nat d \<le> length p" using s2 by auto
    have nz: "(c, d, n) \<noteq> (0, 0, 0)" using tidy_ConsD less.prems(2) E by blast
    show ?thesis
    proof (cases "c = 0")
      case True
      let ?p = "drop (nat d) p" and ?v = "drop (nat n) v2" and ?w = "drop (nat d) v1"
      note e = script_edit [OF s2 [unfolded True]]
      have "map rstrip ?p = map rstrip ?w" using like by (metis drop_map)
      then have "is_script (keep_all ?p) (map rstrip ?p) (map rstrip ?w)" using keep_all_script by blast
      moreover have "is_script R (map rstrip ?p) (map rstrip ?v)" using e by (simp add: drop_map)
      ultimately have "sides_ok (keep_all ?p) (skip_zero R) ?p ?w ?v"
        using pl tidy_skip_tl [of "(c, d, n)" R] less.prems(2) by (simp add: sides_ok_def E skip_tidy)
      moreover have "tidy (skip_zero R)" using tidy_skip_tl less.prems(2) E by blast
      ultimately have "yields hook (keep_all ?p) (skip_zero R) ?p ?w ?v ?v" using length_skip [of R] by (intro less.hyps) (auto simp: E)
      moreover have "skip_zero [(int (length p) - d, 0, 0)] = keep_all ?p" using keep_all_skip [of "nat d" p] c by simp
      ultimately show ?thesis
        unfolding K E True
        using nz c True False e pl by (intro yields_step [OF edit_changed2 [OF s1 s2 [unfolded True] pl], where w' = ?v and ?w0.0 = "take (nat n) v2"]) auto
    next
      case False
      let ?p = "drop (nat c) p" and ?v = "drop (nat c) v2" and ?w = "drop (nat c) v1"
      note k = script_copy [OF s2, of c]
      have m: "c = min (int (length p)) c" using c by simp
      have "map rstrip ?p = map rstrip ?w" using like by (metis drop_map)
      then have "is_script (keep_all ?p) (map rstrip ?p) (map rstrip ?w)" using keep_all_script by blast
      moreover have "is_script ((0, d, n) # R) (map rstrip ?p) (map rstrip ?v)" using k(2) c by (simp add: drop_map del: is_script.simps)
      ultimately have "sides_ok (keep_all ?p) (skip_zero ((0, d, n) # R)) ?p ?w ?v"
        using pl tidy_skip [of c d n R 0] less.prems(2) by (simp add: sides_ok_def E skip_tidy del: is_script.simps)
      moreover have "tidy (skip_zero ((0, d, n) # R))" using tidy_skip less.prems(2) E by blast
      ultimately have "yields hook (keep_all ?p) (skip_zero ((0, d, n) # R)) ?p ?w ?v ?v"
        using length_skip [of "(0, d, n) # R"] c False \<open>p \<noteq> []\<close> by (intro less.hyps) (auto simp: E)
      moreover have "skip_zero [(int (length p) - c, 0, 0)] = keep_all ?p" using keep_all_skip [of "nat c" p] c by simp
      moreover have "like (take (nat c) p) (take (nat c) v2)" using k(1) c by (intro like_take) simp
      ultimately show ?thesis
        unfolding K E using c False \<open>p \<noteq> []\<close>
        by (intro yields_step [OF edit_unchanged [OF s1 s2 pl _ m], where w' = ?v and ?w0.0 = "take (nat c) v2"]) auto
    qed
  qed
qed

lemma yields_same:
  "is_script E (map rstrip p) (map rstrip v) \<Longrightarrow> tidy E \<Longrightarrow> plain p \<Longrightarrow> plain v \<Longrightarrow> yields hook E E p v v v"
proof (induction "length E + length p" arbitrary: E p v rule: less_induct)
  case less
  show ?case
  proof (cases E)
    case Nil
    then show ?thesis using yields_rest [of E E p v v hook] less.prems by (simp add: sides_ok_def skip_zero_def)
  next
    case (Cons t R)
    obtain c d n where t: "t = (c, d, n)" by (cases t)
    have s: "is_script ((c, d, n) # R) (map rstrip p) (map rstrip v)" using less.prems(1) unfolding Cons t .
    have c: "0 \<le> c" "nat c + nat d \<le> length p" "nat c \<le> length v" using s by auto
    show ?thesis
    proof (cases "c = 0")
      case True
      note e = script_edit [OF s [unfolded True]]
      have "yields hook (skip_zero R) (skip_zero R) (drop (nat d) p) (drop (nat n) v) (drop (nat n) v) (drop (nat n) v)"
        using e less.prems tidy_skip_tl [of t R] length_skip [of R] by (intro less.hyps) (auto simp: Cons drop_map)
      then show ?thesis unfolding Cons t True
        by (intro yields_step [OF edit_agreed [OF s [unfolded True] s [unfolded True] less.prems(3,4,4) refl], where w' = "drop (nat n) v" and ?w0.0 = "take (nat n) v"]) auto
    next
      case False
      note k = script_copy [OF s, of c]
      have m: "c = min c c" by simp
      have "yields hook (skip_zero ((0, d, n) # R)) (skip_zero ((0, d, n) # R)) (drop (nat c) p) (drop (nat c) v) (drop (nat c) v) (drop (nat c) v)"
        using k c False less.prems tidy_skip [of c d n R 0] length_skip [of "(0, d, n) # R"]
        by (intro less.hyps) (auto simp: Cons t drop_map simp del: is_script.simps)
      moreover have "like (take (nat c) p) (take (nat c) v)" using k(1) c by (intro like_take) simp
      ultimately show ?thesis unfolding Cons t using c False
        by (intro yields_step [OF edit_unchanged [OF s s less.prems(3,4,4) _ m], where w' = "drop (nat c) v" and ?w0.0 = "take (nat c) v"]) auto
    qed
  qed
qed

section \<open>The whole merge\<close>

definition nl_text :: "byte list \<Rightarrow> bool" where
  "nl_text z \<longleftrightarrow> text_file z \<and> z \<noteq> [] \<and> last z = 0x0a"

lemma zero_triple_flat: "tidy E \<Longrightarrow> zero_triple (flat E @ [0, 0, 0]) = Some (3 * length E)"
proof (induction E)
  case (Cons t E)
  then show ?case using tidy_ConsD [OF Cons.prems] by (cases t) auto
qed simp

lemma nl_lines: "nl_text z \<Longrightarrow> unlines (split_lines z) = z \<and> plain (split_lines z)"
  using unlines_split by (simp add: nl_text_def)

lemma merge_state_start:
  assumes "nl_text P" "nl_text V1" "nl_text V2" "tidy E1" "tidy E2"
    and "text_diff stray mem P V1 True = Some (Some (flat E1 @ [0, 0, 0]))"
    and "text_diff stray mem P V2 True = Some (Some (flat E2 @ [0, 0, 0]))"
  shows "blob_merge stray mem hook P V1 V2 =
    merge_loop (hook P V1 V2) (state_of E1 E2 (split_lines P) (split_lines V1) (split_lines V2) [] 0)"
  using assms nl_lines by (simp add: blob_merge_def zero_triple_flat state_of_def)

lemma merge_sides:
  assumes "nl_text P" "nl_text V1" "nl_text V2" "tidy E1" "tidy E2"
    and "is_script E1 (file_lines True P) (file_lines True V1)" "is_script E2 (file_lines True P) (file_lines True V2)"
  shows "sides_ok E1 E2 (split_lines P) (split_lines V1) (split_lines V2)"
  using assms nl_lines by (simp add: sides_ok_def file_lines_def skip_tidy)

lemma csv_merge_cases:
  "(\<exists>t. \<forall>out. csv_merge rd cmp wr P V1 V2 out = (1, t)) \<or> (\<forall>out. csv_merge rd cmp wr P V1 V2 out = (0, out))"
  by (cases "rd P"; cases "rd V1"; cases "rd V2"; cases "cmp (the (rd P)) (the (rd V1)) (the (rd V2))") (simp_all add: csv_merge_def)

lemma csv_merge_law: "hook_law (csv_merge rd cmp wr P V1 V2)"
  using csv_merge_cases [of rd cmp wr P V1 V2] by (auto simp: hook_law_def)

section \<open>Properties\<close>


lemma nl_file: "nl_text z \<Longrightarrow> text_file z"
  by (simp add: nl_text_def)

lemma demo_last: "demo_a \<noteq> []" "last demo_a = 0x0a" "demo_b \<noteq> []" "last demo_b = 0x0a"
  by (simp_all add: demo_a_def demo_b_def)

lemma demo_nl [simp]: "nl_text demo_a" "nl_text demo_b"
  by (simp_all add: nl_text_def demo_last)


text \<open>A file like the pivot yields the script that keeps everything.\<close>

lemma diff_like:
  assumes "\<forall>n. mem n" "nl_text P" "nl_text V" "like (split_lines P) (split_lines V)"
  shows "text_diff stray mem P V True = Some (Some (flat (keep_all (split_lines P)) @ [0, 0, 0]))"
    "is_script (keep_all (split_lines P)) (file_lines True P) (file_lines True V)"
proof -
  have eq: "file_lines True P = file_lines True V" using assms(4) by (simp add: like_def file_lines_def)
  have "split_lines P \<noteq> []" using unlines_split [of P] assms(2) by (auto simp: nl_text_def)
  then show "text_diff stray mem P V True = Some (Some (flat (keep_all (split_lines P)) @ [0, 0, 0]))"
    using text_diff_equal [OF assms(1) nl_file [OF assms(2)] nl_file [OF assms(3)] eq] by (simp add: keep_all_def file_lines_def)
  show "is_script (keep_all (split_lines P)) (file_lines True P) (file_lines True V)"
    using eq keep_all_script [of "split_lines P" rstrip "split_lines V"] by (simp add: file_lines_def)
qed



end
