(* ===== verification/Fossil_Blob_Zip.thy ===== *)
theory Fossil_Blob_Zip
  imports Fossil_Blob_Correct
begin

text \<open>
  Compressed blobs: what \<open>blob_compress\<close> stores, \<open>blob_uncompress\<close> restores, with zlib as documented: decompression
  stops at the end of the stream and compressed data is not empty and not longer than the bound the code allocates for.
\<close>

definition zlib_law :: "zlib \<Rightarrow> bool" where
  "zlib_law Z \<longleftrightarrow> (\<forall>d t. zuncompress Z (length d) (zcompress Z d @ t) = Some d) \<and>
     (\<forall>d. zcompress Z d \<noteq> [] \<and> length (zcompress Z d) \<le> 13 + length d + (length d + 999) div 1000)"

lemma size_bytes_value:
  assumes "n < 2 ^ 32" "take 4 d = size_bytes n"
  shows "(unat (d ! 0) * 2 ^ 24 + unat (d ! 1) * 2 ^ 16 + unat (d ! 2) * 2 ^ 8 + unat (d ! 3)) mod 2 ^ 32 = n"
proof -
  have "d ! i = size_bytes n ! i" if "i < 4" for i using assms(2) nth_take [OF that, of d] by simp
  from this [of 0] this [of 1] this [of 2] this [of 3]
  have d: "unat (d ! 0) = n div 2 ^ 24 mod 256" "unat (d ! 1) = n div 2 ^ 16 mod 256" "unat (d ! 2) = n div 2 ^ 8 mod 256" "unat (d ! 3) = n mod 256"
    by (simp_all add: size_bytes_def unat_of_nat)
  have "n div 256 = n div 65536 * 256 + n div 256 mod 256" "n div 65536 = n div 16777216 * 256 + n div 65536 mod 256"
    by (simp_all add: div_mult2_eq [of n 256 256, simplified] div_mult2_eq [of n 65536 256, simplified])
  moreover have "n = n div 256 * 256 + n mod 256" "n div 16777216 mod 256 = n div 16777216" using assms(1) by simp_all
  ultimately have "n div 16777216 mod 256 * 16777216 + n div 65536 mod 256 * 65536 + n div 256 mod 256 * 256 + n mod 256 = n"
    by linarith
  then show ?thesis unfolding d using assms(1) by simp
qed

lemma blob_ok_data: "blob_ok b \<Longrightarrow> length z = length (aData b) \<Longrightarrow> blob_ok (b\<lparr>aData := z\<rparr>)"
  by (simp add: blob_ok_def split: realloc_kind.splits)

lemma blob_resize_avail:
  assumes "blob_ok b" "n + 1 < 2 ^ 32" "\<forall>k. avail H k"
  obtains b' where "blob_resize H n b = Inr b'" "blob_ok b'" "nUsed b' = n" "n < length (aData b')"
    "take (min n (nUsed b)) (aData b') = take (min n (nUsed b)) (aData b)"
proof -
  obtain b' where b': "blob_resize H n b = Inr b'" "blob_ok b'" "nUsed b' = n" "xRealloc b' = ReallocMalloc" "aData b' ! n = 0"
    "take (min n (nUsed b)) (aData b') = take (min n (nUsed b)) (aData b)"
    using blob_resize_ok [OF assms(1,2), of H] assms(3) by (cases "blob_resize H n b") auto
  have "n < length (aData b')" using b'(1) by (auto simp: blob_resize_def split: sum.splits if_splits)
  then show thesis using b' that by blast
qed

lemma blob_compress_stores:
  assumes "blob_ok b" "nUsed b < 2 ^ 31" "\<forall>n. avail H n" "zlib_law Z"
  obtains c where "blob_compress H Z b = Inr c" "blob_ok c" "content c = size_bytes (nUsed b) @ zcompress Z (content b)"
proof -
  let ?N = "nUsed b" and ?out = "zcompress Z (content b)"
  let ?n = "13 + ?N + (?N + 999) div 1000"
  have n: "?n + 5 < 2 ^ 32" using assms(2) by simp
  have out: "length ?out \<le> ?n" using assms(4) length_content [OF assms(1)] unfolding zlib_law_def by metis
  have N: "(?N + 999) mod 2 ^ 32 = ?N + 999" "?n mod 2 ^ 32 = ?n" "(?n + 4) mod 2 ^ 32 = ?n + 4" using assms(2) by simp_all
  obtain t where t: "blob_resize H (?n + 4) blob_zero = Inr t" "blob_ok t" "nUsed t = ?n + 4" "?n + 4 < length (aData t)"
    using blob_resize_avail [OF blob_zero_ok, of "?n + 4" H] n assms(3) by auto
  let ?t = "t\<lparr>aData := size_bytes ?N @ ?out @ drop (4 + length ?out) (aData t)\<rparr>"
  have "blob_ok ?t" using t(2-4) out by (intro blob_ok_data) (simp_all add: size_bytes_def)
  then obtain c where c: "blob_resize H (length ?out + 4) ?t = Inr c" "blob_ok c" "nUsed c = length ?out + 4"
    "take (min (length ?out + 4) (?n + 4)) (aData c) = take (min (length ?out + 4) (?n + 4)) (aData ?t)"
    using blob_resize_avail [of ?t "length ?out + 4" H] n out assms(3) t(3) by auto
  have "blob_compress H Z b = Inr c"
    unfolding blob_compress_def Let_def N t(1) using t(4) out c(1) by simp
  moreover have "aData ?t = (size_bytes ?N @ ?out) @ drop (4 + length ?out) (aData t)" "length (size_bytes ?N @ ?out) = length ?out + 4"
    "min (length ?out + 4) (?n + 4) = length ?out + 4" using out by (simp_all add: size_bytes_def)
  then have "content c = size_bytes ?N @ ?out" using c(3,4) unfolding content_def by (metis append_eq_conv_conj)
  ultimately show thesis using c(2) that by blast
qed

lemma blob_uncompress_restores:
  assumes "blob_ok c" "content c = size_bytes (length d) @ zcompress Z d" "length d + 2 < 2 ^ 32" "\<forall>n. avail H n" "zlib_law Z"
  obtains r where "blob_uncompress H Z c = Inr (0, Some r)" "blob_ok r" "content r = d"
proof -
  have len: "nUsed c = 4 + length (zcompress Z d)" "zcompress Z d \<noteq> []" "nUsed c \<le> length (aData c)"
    using length_content [OF assms(1)] assms(2,5) blob_okD [OF assms(1)] by (simp_all add: size_bytes_def zlib_law_def)
  define s where "s = drop (nUsed c) (aData c)"
  have a: "aData c = size_bytes (length d) @ zcompress Z d @ s" using assms(2) by (simp add: content_def s_def) (metis append_take_drop_id append_assoc)
  have size: "(unat (aData c ! 0) * 2 ^ 24 + unat (aData c ! 1) * 2 ^ 16 + unat (aData c ! 2) * 2 ^ 8 + unat (aData c ! 3)) mod 2 ^ 32 = length d"
    using assms(3) by (intro size_bytes_value) (simp_all add: a size_bytes_def)
  have src: "take (nUsed c) (drop 4 (aData c)) = zcompress Z d @ take 4 s" by (simp add: a size_bytes_def len(1))
  have unz: "zuncompress Z (length d) (take (nUsed c) (drop 4 (aData c))) = Some d" unfolding src using assms(5) by (simp add: zlib_law_def)
  have m: "(length d + 1) mod 2 ^ 32 = length d + 1" using assms(3) by simp
  obtain t where t: "blob_resize H (length d + 1) blob_zero = Inr t" "blob_ok t" "nUsed t = length d + 1" "length d + 1 < length (aData t)"
    using blob_resize_avail [OF blob_zero_ok, of "length d + 1" H] assms(3,4) by auto
  let ?t = "t\<lparr>aData := d @ drop (length d) (aData t)\<rparr>"
  have "blob_ok ?t" using t(2,4) by (intro blob_ok_data) simp_all
  then obtain r where r: "blob_resize H (length d) ?t = Inr r" "blob_ok r" "nUsed r = length d"
    "take (min (length d) (length d + 1)) (aData r) = take (min (length d) (length d + 1)) (aData ?t)"
    using blob_resize_avail [of ?t "length d" H] assms(3,4) t(3) by auto
  have "\<not> nUsed c \<le> 4" "\<not> length (aData c) < 4" using len by auto
  then have "blob_uncompress H Z c = Inr (0, Some r)"
    unfolding blob_uncompress_def Let_def size m t(1) unz using t(4) r(1) by simp
  moreover have "content r = d" using r(3,4) by (simp add: content_def)
  ultimately show thesis using r(2) that by blast
qed

text \<open>
  C35: with memory available and zlib as documented, compressing a blob succeeds and stores the length of
  the content and the compressed content, and uncompressing the result restores the content.
\<close>

theorem blob_compress_roundtrip:
  assumes "blob_ok b" "nUsed b < 2 ^ 31" "\<forall>n. avail H n" "zlib_law Z"
  shows "\<exists>c r. blob_compress H Z b = Inr c \<and> blob_ok c \<and> content c = size_bytes (nUsed b) @ zcompress Z (content b) \<and>
    blob_uncompress H Z c = Inr (0, Some r) \<and> blob_ok r \<and> content r = content b"
proof -
  obtain c where c: "blob_compress H Z b = Inr c" "blob_ok c" "content c = size_bytes (nUsed b) @ zcompress Z (content b)"
    using blob_compress_stores [OF assms] by blast
  have "length (content b) + 2 < 2 ^ 32" "nUsed b = length (content b)" using length_content [OF assms(1)] assms(2) by simp_all
  then show ?thesis using c blob_uncompress_restores [OF c(2) _ _ assms(3,4), of "content b"] by metis
qed

definition stored_zlib :: zlib where
  "stored_zlib = \<lparr>zcompress = \<lambda>d. d @ [0], zuncompress = \<lambda>n z. Some (take n z)\<rparr>"

lemma blob_compress_roundtrip_witness:
  "\<exists>c r. blob_compress big_memory stored_zlib demo_blob = Inr c \<and>
    content c = [0, 0, 0, 9] @ chars_of ''  ab c  d'' @ [0] \<and>
    blob_uncompress big_memory stored_zlib c = Inr (0, Some r) \<and> content r = chars_of ''  ab c  d''"
proof -
  have "content demo_blob = chars_of ''  ab c  d''" "nUsed demo_blob = 9" "blob_ok demo_blob"
    by (simp_all add: demo_blob_def blob_init_def strlen_def content_def chars_of_def blob_ok_def)
  then show ?thesis
    using blob_compress_roundtrip [of demo_blob big_memory stored_zlib]
    by (simp add: big_memory_def stored_zlib_def zlib_law_def size_bytes_def) blast
qed

text \<open>A blob of at most four bytes: success is reported and nothing stored.\<close>

lemma blob_uncompress_short: "nUsed b \<le> 4 \<Longrightarrow> blob_uncompress H Z b = Inr (0, None)"
  by (simp add: blob_uncompress_def)

text \<open>Appending so much that the size wraps writes outside of the memory of the blob.\<close>

lemma blob_append_wraps:
  assumes "blob_ok b" "0 < n" "n \<le> length z" "2 ^ 32 \<le> nUsed b + n" "nUsed b + n < 2 ^ 32 + nAlloc b" "length (aData b) = nAlloc b"
  shows "blob_append H z (int n) b = Inl Fault"
proof -
  have "(nUsed b + n) mod 2 ^ 32 = nUsed b + n - 2 ^ 32" using assms blob_okD(4) [OF assms(1)] by (simp add: le_mod_geq)
  then have "\<not> (nUsed b + n) mod 2 ^ 32 \<ge> nAlloc b" using assms(4,5) by linarith
  moreover have "\<not> nUsed b + n < length (aData b)" using assms(4,6) blob_okD(4) [OF assms(1)] by linarith
  ultimately show ?thesis using assms(2,3) by (simp only: blob_append_def blob_put_def Let_def if_False) simp
qed

end
