(* ===== verification/Fossil_Unified.thy ===== *)
theory Fossil_Unified
  imports Fossil_Diff_Correct
begin

text \<open>
  The unified diff of \<^verbatim>\<open>ssfossil/fossil/src/diff.c\<close> (\<open>contextDiff\<close> and \<open>text_diff\<close> with an output) and its
  correctness: a strict reading of the hunks, which checks every line number, count and line
  shown, turns the first file into the second.

  The output is the list of the hunk headers and lines in the order in which they are written; the
  decimal form of the numbers in a header (a format of \<open>blob_appendf\<close>) is left out.  Reads are
  checked: \<open>None\<close> is a read outside of an array.
\<close>

section \<open>The model\<close>

datatype diff_out = Hunk int int int int | Line byte "byte list"

definition appendDiffLine :: "byte \<Rightarrow> dline \<Rightarrow> diff_out" where
  "appendDiffLine zPrefix pLine = Line zPrefix (dline_text pLine)"

text \<open>A loop over \<open>m\<close> lines from line \<open>a\<close> on.\<close>

definition show_lines :: "byte \<Rightarrow> dline list \<Rightarrow> int \<Rightarrow> int \<Rightarrow> diff_out list option" where
  "show_lines zPrefix A a m =
     (if m \<le> 0 then Some []
      else if 0 \<le> a \<and> a + m \<le> int (length A) then Some (map (appendDiffLine zPrefix) (take (nat m) (drop (nat a) A)))
      else None)"

function trim_edits :: "int list \<Rightarrow> nat \<Rightarrow> nat" where
  "trim_edits R mxr = (if mxr > 2 \<and> R ! (mxr - 1) = 0 \<and> R ! (mxr - 2) = 0 then trim_edits R (mxr - 3) else mxr)"
  by pat_completeness auto
termination
  by (relation "measure snd") auto

text \<open>How many triples to show in a single block.\<close>

function block_len :: "int list \<Rightarrow> nat \<Rightarrow> int \<Rightarrow> nat \<Rightarrow> nat option" where
  "block_len R r nContext nr =
     (if r + nr * 3 < length R
      then if R ! (r + nr * 3) > 0 \<and> R ! (r + nr * 3) < nContext * 2 then block_len R r nContext (nr + 1) else Some nr
      else None)"
  by pat_completeness auto
termination
  by (relation "measure (\<lambda>(R, r, nContext, nr). length R - (r + nr * 3))") auto

declare block_len.simps [simp del]

definition sum_at :: "int list \<Rightarrow> nat \<Rightarrow> nat list \<Rightarrow> int" where
  "sum_at R r js = sum_list (map (\<lambda>i. R ! (r + i * 3)) js)"

text \<open>The differences of a block.\<close>

fun show_edits :: "int list \<Rightarrow> nat \<Rightarrow> nat \<Rightarrow> dline list \<Rightarrow> dline list \<Rightarrow> nat list \<Rightarrow> int \<Rightarrow> int \<Rightarrow> (diff_out list \<times> int \<times> int) option" where
  "show_edits R r nr A B [] a b = Some ([], a, b)"
| "show_edits R r nr A B (i # js) a b =
     (let d = R ! (r + i * 3 + 1); n = R ! (r + i * 3 + 2) in
      case show_lines 0x2d A a d of None \<Rightarrow> None
      | Some x \<Rightarrow>
        (case show_lines 0x2b B b n of None \<Rightarrow> None
         | Some y \<Rightarrow>
           (let m = (if i + 1 < nr then R ! (r + i * 3 + 3) else 0) in
            case show_lines 0x20 B (b + n) m of None \<Rightarrow> None
            | Some z \<Rightarrow> map_option (\<lambda>(out, s). (x @ y @ z @ out, s)) (show_edits R r nr A B js (a + d + m) (b + n + m)))))"

definition context_block :: "int list \<Rightarrow> dline list \<Rightarrow> dline list \<Rightarrow> int \<Rightarrow> nat \<Rightarrow> nat \<Rightarrow> int \<Rightarrow> int \<Rightarrow> (diff_out list \<times> int \<times> int) option" where
  "context_block R A B nContext r nr a b =
     (let skip = (if R ! r > nContext then R ! r - nContext else 0);
          m = R ! r - skip;
          m' = (if R ! (r + nr * 3) > nContext then nContext else R ! (r + nr * 3));
          na = m + sum_at R (r + 1) [0..<nr] + m' + sum_at R r [1..<nr];
          nb = m + sum_at R (r + 2) [0..<nr] + m' + sum_at R r [1..<nr]
      in case show_lines 0x20 A (a + skip) m of None \<Rightarrow> None
         | Some x \<Rightarrow>
           (case show_edits R r nr A B [0..<nr] (a + skip + m) (b + skip + m) of None \<Rightarrow> None
            | Some (y, a', b') \<Rightarrow>
              (case show_lines 0x20 B b' m' of None \<Rightarrow> None
               | Some z \<Rightarrow> Some (Hunk (a + skip + 1) na (b + skip + 1) nb # x @ y @ z, a', b'))))"

lemma block_len_ge: "block_len R r nContext nr = Some k \<Longrightarrow> nr \<le> k"
  by (induction R r nContext nr rule: block_len.induct) (subst (asm) (2) block_len.simps, auto split: if_splits)

function context_loop :: "int list \<Rightarrow> dline list \<Rightarrow> dline list \<Rightarrow> int \<Rightarrow> nat \<Rightarrow> nat \<Rightarrow> int \<Rightarrow> int \<Rightarrow> diff_out list option" where
  "context_loop R A B nContext mxr r a b =
     (if r < mxr
      then case block_len R r nContext 1 of None \<Rightarrow> None
        | Some nr \<Rightarrow>
          (case context_block R A B nContext r nr a b of None \<Rightarrow> None
           | Some (out, a', b') \<Rightarrow> map_option (append out) (context_loop R A B nContext mxr (r + 3 * nr) a' b'))
      else Some [])"
  by pat_completeness auto
termination
  by (relation "measure (\<lambda>(R, A, B, nContext, mxr, r, a, b). mxr - r)") (auto dest!: block_len_ge)

definition contextDiff :: "dcontext \<Rightarrow> int \<Rightarrow> diff_out list option" where
  "contextDiff p nContext =
     context_loop (edit_list p) (aFrom p) (aTo p) nContext (trim_edits (edit_list p) (nEdit p)) 0 0 0"

definition binary_message :: "byte list" where
  "binary_message = chars_of ''cannot compute difference between binary files'' @ [0x0a]"

text \<open>\<open>text_diff\<close> with an output: \<open>Inl\<close> the message for binary files, \<open>Inr\<close> the hunks.\<close>

definition text_diff_out :: "(nat \<Rightarrow> nat \<Rightarrow> bool option) \<Rightarrow> (nat \<Rightarrow> bool) \<Rightarrow> byte list \<Rightarrow> byte list \<Rightarrow> int \<Rightarrow> bool \<Rightarrow> (byte list + diff_out list) option" where
  "text_diff_out stray mem a b nContext ignoreEolWs =
     (case (break_into_lines a ignoreEolWs, break_into_lines b ignoreEolWs) of
        (Some f, Some t) \<Rightarrow>
          (case diff_all stray mem \<lparr>aEdit = None, nEditAlloc = 0, aFrom = f, aTo = t\<rparr> of None \<Rightarrow> None
           | Some p \<Rightarrow> map_option Inr (contextDiff p nContext))
      | _ \<Rightarrow> Some (Inl binary_message))"

declare trim_edits.simps [simp del] context_loop.simps [simp del]

section \<open>Reading a unified diff\<close>

text \<open>
  \<open>patch out a b na nb xs\<close>: \<open>xs\<close> are the lines of the first file from line \<open>a\<close> on, \<open>b\<close> is the number of lines of the second
  file so far, and \<open>na\<close> and \<open>nb\<close> lines of them are still to come in the current hunk.
\<close>

fun patch :: "diff_out list \<Rightarrow> int \<Rightarrow> int \<Rightarrow> int \<Rightarrow> int \<Rightarrow> byte list list \<Rightarrow> byte list list option" where
  "patch [] a b na nb xs = (if na = 0 \<and> nb = 0 then Some xs else None)"
| "patch (Hunk sa ca sb cb # out) a b na nb xs =
     (let k = sa - 1 - a in
      if na = 0 \<and> nb = 0 \<and> 0 \<le> k \<and> k \<le> int (length xs) \<and> sb - 1 - b = k
      then map_option (append (take (nat k) xs)) (patch out (sa - 1) (sb - 1) ca cb (drop (nat k) xs))
      else None)"
| "patch (Line t l # out) a b na nb xs =
     (if t = 0x20 \<and> xs \<noteq> [] \<and> hd xs = l \<and> na > 0 \<and> nb > 0
      then map_option (Cons l) (patch out (a + 1) (b + 1) (na - 1) (nb - 1) (tl xs))
      else if t = 0x2d \<and> xs \<noteq> [] \<and> hd xs = l \<and> na > 0 then patch out (a + 1) b (na - 1) nb (tl xs)
      else if t = 0x2b \<and> nb > 0 then map_option (Cons l) (patch out a (b + 1) na (nb - 1) xs)
      else None)"

lemma append_Nil_id [simp]: "append [] = id"
  by (rule ext) simp

lemma patch_common:
  "patch (map (Line 0x20) ls @ out) a b (int (length ls) + na) (int (length ls) + nb) (ls @ xs) =
   map_option (append ls) (patch out (a + int (length ls)) (b + int (length ls)) na nb xs)" if "0 \<le> na" "0 \<le> nb"
proof (induction ls arbitrary: a b)
  case (Cons l ls)
  then show ?case using that by (simp add: add.assoc option.map_comp comp_def)
qed (simp add: option.map_id)

lemma patch_deleted:
  "patch (map (Line 0x2d) ls @ out) a b (int (length ls) + na) nb (ls @ xs) = patch out (a + int (length ls)) b na nb xs" if "0 \<le> na"
proof (induction ls arbitrary: a)
  case (Cons l ls)
  then show ?case using that by (simp add: add.assoc)
qed simp

lemma patch_inserted:
  "patch (map (Line 0x2b) ls @ out) a b na (int (length ls) + nb) xs = map_option (append ls) (patch out a (b + int (length ls)) na nb xs)" if "0 \<le> nb"
proof (induction ls arbitrary: b)
  case (Cons l ls)
  then show ?case using that by (simp add: add.assoc option.map_comp comp_def)
qed (simp add: option.map_id)


section \<open>The hunks of a script\<close>

lemma show_lines_text:
  assumes "drop a (map dline_text A) = ls @ xs" "m = int (length ls)"
  shows "show_lines t A (int a) m = Some (map (Line t) ls)" "drop (a + length ls) (map dline_text A) = xs"
proof -
  have "length A - a = length ls + length xs" using arg_cong [OF assms(1), of length] by simp
  moreover have t: "map dline_text (take (length ls) (drop a A)) = ls" using assms(1) by (simp flip: take_map drop_map)
  have "map (appendDiffLine t) (take (length ls) (drop a A)) = map (Line t) (map dline_text (take (length ls) (drop a A)))"
    by (simp add: appendDiffLine_def)
  ultimately show "show_lines t A (int a) m = Some (map (Line t) ls)" using assms(2) unfolding t by (auto simp: show_lines_def)
  have "drop (length ls) (drop a (map dline_text A)) = xs" unfolding assms(1) by simp
  then show "drop (a + length ls) (map dline_text A) = xs" by (simp add: add.commute)
qed

lemma flat_nth:
  "k < length E \<Longrightarrow> flat E ! (3 * k) = fst (E ! k)"
  "k < length E \<Longrightarrow> flat E ! (3 * k + 1) = fst (snd (E ! k))"
  "k < length E \<Longrightarrow> flat E ! (3 * k + 2) = snd (snd (E ! k))"
proof -
  have "k < length E \<Longrightarrow> flat E ! (3 * k) = fst (E ! k) \<and> flat E ! (3 * k + 1) = fst (snd (E ! k)) \<and> flat E ! (3 * k + 2) = snd (snd (E ! k))"
  proof (induction E arbitrary: k)
    case (Cons t E)
    obtain c d n where t: "t = (c, d, n)" by (cases t)
    show ?case
    proof (cases k)
      case (Suc j)
      have "3 * k = Suc (Suc (Suc (3 * j)))" using Suc by simp
      then show ?thesis using Cons by (simp add: t Suc)
    qed (simp add: t)
  qed simp
  then show "k < length E \<Longrightarrow> flat E ! (3 * k) = fst (E ! k)" "k < length E \<Longrightarrow> flat E ! (3 * k + 1) = fst (snd (E ! k))"
    "k < length E \<Longrightarrow> flat E ! (3 * k + 2) = snd (snd (E ! k))" by blast+
qed

text \<open>The array of triples as \<open>contextDiff\<close> reads it.\<close>

definition triples :: "triple list \<Rightarrow> int list" where
  "triples E = flat E @ [0, 0, 0]"

lemma triples_nth:
  assumes "k < length E" "E ! k = (c, d, n)" "k = q + j"
  shows "triples E ! (3 * q + j * 3) = c" "triples E ! (3 * q + j * 3 + 1) = d" "triples E ! (3 * q + j * 3 + 2) = n"
proof -
  have eq: "3 * q + j * 3 = 3 * k" using assms(3) by simp
  show "triples E ! (3 * q + j * 3) = c" "triples E ! (3 * q + j * 3 + 1) = d" "triples E ! (3 * q + j * 3 + 2) = n"
    using assms(1,2) flat_nth [OF assms(1)] unfolding eq by (simp_all add: triples_def nth_append)
qed

lemma triples_end: "triples E ! (3 * length E) = 0"
  by (simp add: triples_def nth_append)

lemma length_triples: "length (triples E) = 3 * length E + 3"
  by (simp add: triples_def)

lemma block_len_ok:
  "q + k \<le> length E \<Longrightarrow> \<exists>nr. block_len (triples E) (3 * q) n k = Some nr \<and> k \<le> nr \<and> q + nr \<le> length E \<and>
     (triples E ! (3 * (q + nr)) \<le> 0 \<or> 2 * n \<le> triples E ! (3 * (q + nr)))"
proof (induction "length E - (q + k)" arbitrary: k)
  case 0
  then have eq: "3 * q + k * 3 = 3 * length E" "3 * (q + k) = 3 * length E" "q + k = length E" by simp_all
  have "block_len (triples E) (3 * q) n k = Some k" by (subst block_len.simps) (simp only: eq triples_end length_triples, simp)
  then show ?case using triples_end [of E] eq by (intro exI [of _ k]) (simp only: eq, simp)
next
  case (Suc m)
  have r: "3 * q + k * 3 = 3 * (q + k)" by simp
  show ?case
  proof (cases "triples E ! (3 * (q + k)) > 0 \<and> triples E ! (3 * (q + k)) < n * 2")
    case True
    obtain nr where "block_len (triples E) (3 * q) n (k + 1) = Some nr" "k + 1 \<le> nr" "q + nr \<le> length E"
      "triples E ! (3 * (q + nr)) \<le> 0 \<or> 2 * n \<le> triples E ! (3 * (q + nr))"
      using Suc.hyps(1) [of "k + 1"] Suc.hyps(2) by (metis Suc_eq_plus1 Suc_leI add_Suc_right diff_Suc_1 diff_Suc_eq_diff_pred diff_is_0_eq' nat.distinct(1) not_less_eq_eq not_less diff_diff_left add.assoc)
    moreover have "block_len (triples E) (3 * q) n k = block_len (triples E) (3 * q) n (k + 1)"
      using True Suc.prems by (subst block_len.simps) (simp only: r length_triples, simp)
    ultimately show ?thesis by auto
  next
    case False
    then have "block_len (triples E) (3 * q) n k = Some k"
      using Suc.prems by (subst block_len.simps) (simp only: r length_triples, auto)
    then show ?thesis using False Suc.prems by (intro exI [of _ k]) auto
  qed
qed


lemma sum_at_Cons: "sum_at R r (i # js) = R ! (r + i * 3) + sum_at R r js"
  by (simp add: sum_at_def)

lemma sum_at_Nil [simp]: "sum_at R r [] = 0"
  by (simp add: sum_at_def)

text \<open>The hunk lines \<open>out\<close> lead over \<open>na\<close> and \<open>nb\<close> lines of the files, from \<open>xs\<close> at line \<open>a\<close>, with \<open>y\<close> new lines, to \<open>xs'\<close>.\<close>

definition leads :: "diff_out list \<Rightarrow> nat \<Rightarrow> nat \<Rightarrow> int \<Rightarrow> int \<Rightarrow> byte list list \<Rightarrow> byte list list \<Rightarrow> nat \<Rightarrow> nat \<Rightarrow> byte list list \<Rightarrow> bool" where
  "leads out a b na nb xs y a' b' xs' \<longleftrightarrow> 0 \<le> na \<and> 0 \<le> nb \<and>
     (\<forall>rest ka kb. 0 \<le> ka \<longrightarrow> 0 \<le> kb \<longrightarrow>
        patch (out @ rest) (int a) (int b) (na + ka) (nb + kb) xs = map_option (append y) (patch rest (int a') (int b') ka kb xs'))"

lemma leads_Nil: "leads [] a b 0 0 xs [] a b xs"
  by (simp add: leads_def option.map_id)

lemma append_fun: "append (y @ y') = (\<lambda>x. y @ y' @ x)"
  by (rule ext) simp

lemma leads_append:
  assumes "leads o1 a b na nb xs y a' b' xs'" "leads o2 a' b' na' nb' xs' y' a'' b'' xs''"
  shows "leads (o1 @ o2) a b (na + na') (nb + nb') xs (y @ y') a'' b'' xs''"
proof -
  have "patch ((o1 @ o2) @ rest) (int a) (int b) (na + na' + ka) (nb + nb' + kb) xs =
      map_option (append (y @ y')) (patch rest (int a'') (int b'') ka kb xs'')" if "0 \<le> ka" "0 \<le> kb" for rest ka kb
  proof -
    have "patch (o1 @ o2 @ rest) (int a) (int b) (na + (na' + ka)) (nb + (nb' + kb)) xs =
        map_option (append y) (patch (o2 @ rest) (int a') (int b') (na' + ka) (nb' + kb) xs')"
      using assms that unfolding leads_def by simp
    also have "patch (o2 @ rest) (int a') (int b') (na' + ka) (nb' + kb) xs' = map_option (append y') (patch rest (int a'') (int b'') ka kb xs'')"
      using assms(2) that unfolding leads_def by blast
    finally show ?thesis by (simp add: option.map_comp comp_def add.assoc append_fun)
  qed
  then show ?thesis using assms unfolding leads_def by simp
qed

lemma leads_common: "leads (map (Line 0x20) ls) a b (int (length ls)) (int (length ls)) (ls @ xs) ls (a + length ls) (b + length ls) xs"
  by (simp add: leads_def patch_common)

lemma leads_deleted: "leads (map (Line 0x2d) ls) a b (int (length ls)) 0 (ls @ xs) [] (a + length ls) b xs"
  by (simp add: leads_def patch_deleted option.map_id)

lemma leads_inserted: "leads (map (Line 0x2b) ls) a b 0 (int (length ls)) xs ls a (b + length ls) xs"
  by (simp add: leads_def patch_inserted)

lemma script_copied:
  assumes "is_script ((c, d, n) # R) xs ys"
  obtains cs x y where "xs = cs @ x" "ys = cs @ y" "c = int (length cs)" "is_script ((0, d, n) # R) x y"
proof -
  obtain cs ds ns xs' ys' where s: "xs = cs @ ds @ xs'" "ys = cs @ ns @ ys'" "c = int (length cs)" "d = int (length ds)" "n = int (length ns)" "is_script R xs' ys'"
    using assms unfolding is_script_Cons by blast
  have "is_script ((0, d, n) # R) (ds @ xs') (ns @ ys')" using s by simp
  then show thesis using that s by blast
qed

lemma show_edits_ok:
  assumes "q + nr \<le> length E" "i < nr" "E ! (q + i) = (c, d, n)" "is_script ((0, d, n) # drop (q + i + 1) E) xs ys"
    and "drop a (map dline_text A) = xs" "drop b (map dline_text B) = ys"
  shows "\<exists>out a' b' xs' ys' y. show_edits (triples E) (3 * q) nr A B [i..<nr] (int a) (int b) = Some (out, int a', int b') \<and>
    drop a' (map dline_text A) = xs' \<and> drop b' (map dline_text B) = ys' \<and> is_script (drop (q + nr) E) xs' ys' \<and> ys = y @ ys' \<and>
    leads out a b (sum_at (triples E) (3 * q + 1) [i..<nr] + sum_at (triples E) (3 * q) [i + 1..<nr])
      (sum_at (triples E) (3 * q + 2) [i..<nr] + sum_at (triples E) (3 * q) [i + 1..<nr]) xs y a' b' xs'"
  using assms(2-)
proof (induction "nr - i" arbitrary: i c d n xs ys a b)
  case (Suc m)
  obtain ds ns x1 y1 where s: "xs = ds @ x1" "ys = ns @ y1" "d = int (length ds)" "n = int (length ns)" "is_script (drop (q + i + 1) E) x1 y1"
    using Suc.prems(3) unfolding is_script_Cons by auto
  have t: "triples E ! (3 * q + i * 3 + 1) = d" "triples E ! (3 * q + i * 3 + 2) = n"
    using triples_nth [OF _ Suc.prems(2) refl] Suc.prems(1) assms(1) by simp_all
  have u: "[i..<nr] = i # [i + 1..<nr]" using Suc.prems(1) by (simp add: upt_conv_Cons)
  have ix: "3 * q + 1 + i * 3 = 3 * q + i * 3 + 1" "3 * q + 2 + i * 3 = 3 * q + i * 3 + 2" by simp_all
  note D = show_lines_text [OF Suc.prems(4) [unfolded s(1)] s(3)]
  note N = show_lines_text [OF Suc.prems(5) [unfolded s(2)] s(4)]
  have lead1: "leads (map (Line 0x2d) ds @ map (Line 0x2b) ns) a b d n xs ns (a + length ds) (b + length ns) x1"
    using leads_append [OF leads_deleted [of ds a b x1] leads_inserted [of ns "a + length ds" b x1]] by (simp add: s)
  show ?case
  proof (cases "i + 1 < nr")
    case False
    then have "nr = i + 1" using Suc.prems(1) by simp
    then show ?thesis unfolding u
      using t D N lead1 s(2,5)
      by - (rule exI [of _ "map (Line 0x2d) ds @ map (Line 0x2b) ns"], rule exI [of _ "a + length ds"], rule exI [of _ "b + length ns"],
        rule exI [of _ x1], rule exI [of _ y1], rule exI [of _ ns], simp add: sum_at_Cons ix show_lines_def [of _ _ _ 0] s(3,4))
  next
    case True
    obtain c' d' n' where e: "E ! (q + (i + 1)) = (c', d', n')" by (cases "E ! (q + (i + 1))")
    have t': "triples E ! (3 * q + i * 3 + 3) = c'" "triples E ! (3 * q + (i + 1) * 3) = c'"
      using triples_nth(1) [OF _ e refl] True assms(1) by (simp_all add: ac_simps)
    have "drop (q + i + 1) E = (c', d', n') # drop (q + (i + 1) + 1) E"
      using e True assms(1) by (metis Cons_nth_drop_Suc Suc_eq_plus1 add.assoc add_less_cancel_left less_le_trans)
    then obtain cs x2 y2 where k: "x1 = cs @ x2" "y1 = cs @ y2" "c' = int (length cs)" "is_script ((0, d', n') # drop (q + (i + 1) + 1) E) x2 y2"
      using s(5) script_copied by metis
    note C = show_lines_text [OF N(2) [unfolded k(2)] k(3)]
    have a2: "drop (a + length ds + length cs) (map dline_text A) = x2" "drop (b + length ns + length cs) (map dline_text B) = y2"
      using show_lines_text(2) [OF D(2) [unfolded k(1)] k(3)] C(2) by simp_all
    have m: "m = nr - (i + 1)" using Suc.hyps(2) by simp
    obtain out a' b' xs' ys' y where ih: "show_edits (triples E) (3 * q) nr A B [i + 1..<nr] (int (a + length ds + length cs)) (int (b + length ns + length cs)) = Some (out, int a', int b')"
      "drop a' (map dline_text A) = xs'" "drop b' (map dline_text B) = ys'" "is_script (drop (q + nr) E) xs' ys'" "y2 = y @ ys'"
      "leads out (a + length ds + length cs) (b + length ns + length cs) (sum_at (triples E) (3 * q + 1) [i + 1..<nr] + sum_at (triples E) (3 * q) [i + 1 + 1..<nr])
        (sum_at (triples E) (3 * q + 2) [i + 1..<nr] + sum_at (triples E) (3 * q) [i + 1 + 1..<nr]) x2 y a' b' xs'"
      using Suc.hyps(1) [of "i + 1", OF m True e k(4) a2] by blast
    have u': "[i + 1..<nr] = (i + 1) # [i + 1 + 1..<nr]" using True by (simp add: upt_conv_Cons)
    have run: "show_edits (triples E) (3 * q) nr A B [i..<nr] (int a) (int b) =
        Some (map (Line 0x2d) ds @ map (Line 0x2b) ns @ map (Line 0x20) cs @ out, int a', int b')"
      unfolding u using t t' D(1) N(1) C(1) ih(1) True by (simp add: s(3,4) k(3) add.assoc)
    have "leads (map (Line 0x20) cs) (a + length ds) (b + length ns) c' c' x1 cs (a + length ds + length cs) (b + length ns + length cs) x2"
      using leads_common [of cs "a + length ds" "b + length ns" x2] by (simp add: k)
    from leads_append [OF leads_append [OF lead1 this] ih(6)]
    have "leads (map (Line 0x2d) ds @ map (Line 0x2b) ns @ map (Line 0x20) cs @ out) a b
        (sum_at (triples E) (3 * q + 1) [i..<nr] + sum_at (triples E) (3 * q) [i + 1..<nr])
        (sum_at (triples E) (3 * q + 2) [i..<nr] + sum_at (triples E) (3 * q) [i + 1..<nr]) xs (ns @ cs @ y) a' b' xs'"
      unfolding u sum_at_Cons ix t unfolding u' sum_at_Cons t'(2) by (simp add: algebra_simps)
    then show ?thesis using run ih(2-5) s(2) k(2)
      by - (rule exI [of _ "map (Line 0x2d) ds @ map (Line 0x2b) ns @ map (Line 0x20) cs @ out"], rule exI [of _ a'], rule exI [of _ b'],
        rule exI [of _ xs'], rule exI [of _ ys'], rule exI [of _ "ns @ cs @ y"], simp)
  qed
qed simp


lemma script_nonneg: "is_script E xs ys \<Longrightarrow> (c, d, n) \<in> set E \<Longrightarrow> 0 \<le> c"
proof (induction E arbitrary: xs ys)
  case (Cons t E)
  then show ?case by (cases t) auto
qed simp

lemma script_head_nonneg:
  assumes "is_script (drop q E) xs ys" "q \<le> j" "j \<le> length E"
  shows "0 \<le> triples E ! (3 * j)"
proof (cases "j < length E")
  case True
  obtain c d n where e: "E ! j = (c, d, n)" by (cases "E ! j")
  have "drop q E ! (j - q) = E ! j" "j - q < length (drop q E)" using assms(2) True by simp_all
  then have "(c, d, n) \<in> set (drop q E)" using e nth_mem by metis
  then show ?thesis using script_nonneg [OF assms(1)] triples_nth(1) [OF True e, of j 0] by simp
qed (use assms(3) triples_end [of E] in simp)

lemma script_head_common:
  assumes "is_script (drop q E) xs ys" "q \<le> length E" "int m \<le> triples E ! (3 * q)"
  shows "m \<le> length xs" "m \<le> length ys" "take m xs = take m ys"
proof -
  have "m \<le> length xs \<and> m \<le> length ys \<and> take m xs = take m ys"
  proof (cases "q < length E")
    case True
    obtain c d n where e: "E ! q = (c, d, n)" by (cases "E ! q")
    have "is_script ((c, d, n) # drop (q + 1) E) xs ys" using assms(1) e True by (simp add: Cons_nth_drop_Suc [symmetric])
    then obtain cs ds ns x y where "xs = cs @ ds @ x" "ys = cs @ ns @ y" "c = int (length cs)" unfolding is_script_Cons by blast
    moreover have "int m \<le> c" using assms(3) triples_nth(1) [OF True e, of q 0] by simp
    ultimately show ?thesis by simp
  qed (use assms(2,3) triples_end [of E] in auto)
  then show "m \<le> length xs" "m \<le> length ys" "take m xs = take m ys" by blast+
qed

lemma context_block_ok:
  assumes "q < length E" "0 < nr" "q + nr \<le> length E" "0 \<le> n" "is_script (drop q E) xs ys"
    and "drop a (map dline_text A) = xs" "drop b (map dline_text B) = ys"
    and "int k \<le> (if triples E ! (3 * q) > n then triples E ! (3 * q) - n else 0)"
    and "int m = (if triples E ! (3 * (q + nr)) > n then n else triples E ! (3 * (q + nr)))"
  shows "\<exists>out a' b' y xs' ys'. context_block (triples E) A B n (3 * q) nr (int a) (int b) = Some (out, int a', int b') \<and>
    drop a' (map dline_text A) = xs' \<and> drop b' (map dline_text B) = ys' \<and> is_script (drop (q + nr) E) xs' ys' \<and> ys = y @ ys' \<and> k \<le> length y \<and>
    (\<forall>rest. patch (out @ rest) (int (a + k)) (int (b + k)) 0 0 (drop k xs) =
       map_option (append (drop k y @ take m ys')) (patch rest (int (a' + m)) (int (b' + m)) 0 0 (drop m xs')))"
proof -
  let ?R = "triples E"
  obtain c d i where e: "E ! q = (c, d, i)" by (cases "E ! q")
  have c: "?R ! (3 * q) = c" using triples_nth(1) [OF assms(1) e, of q 0] by simp
  have "is_script ((c, d, i) # drop (q + 1) E) xs ys" using assms(1,5) e by (simp add: Cons_nth_drop_Suc [symmetric])
  then obtain cs x1 y1 where s: "xs = cs @ x1" "ys = cs @ y1" "c = int (length cs)" "is_script ((0, d, i) # drop (q + 1) E) x1 y1"
    using script_copied by metis
  define sk where "sk = nat (if c > n then c - n else 0)"
  have sk: "int sk = (if c > n then c - n else 0)" "sk \<le> length cs" "k \<le> sk" using assms(4,8) s(3) unfolding c by (auto simp: sk_def)
  define c1 c2 where "c1 = take sk cs" and "c2 = drop sk cs"
  have cs: "cs = c1 @ c2" "length c1 = sk" "int (length c2) = c - int sk" using sk(2) s(3) by (auto simp: c1_def c2_def)
  have a1: "drop (a + sk) (map dline_text A) = c2 @ x1" "drop (b + sk) (map dline_text B) = c2 @ y1"
    using arg_cong [OF assms(6), of "drop sk"] arg_cong [OF assms(7), of "drop sk"] by (simp_all add: s cs add.commute)
  note L = show_lines_text [OF a1(1) cs(3) [symmetric]]
  have b2: "drop (b + sk + length c2) (map dline_text B) = y1" using show_lines_text(2) [OF a1(2) cs(3) [symmetric]] .
  have e0: "E ! (q + 0) = (c, d, i)" "is_script ((0, d, i) # drop (q + 0 + 1) E) x1 y1" using e s(4) by simp_all
  obtain out a' b' xs' ys' y where ed: "show_edits ?R (3 * q) nr A B [0..<nr] (int (a + sk + length c2)) (int (b + sk + length c2)) = Some (out, int a', int b')"
    "drop a' (map dline_text A) = xs'" "drop b' (map dline_text B) = ys'" "is_script (drop (q + nr) E) xs' ys'" "y1 = y @ ys'"
    "leads out (a + sk + length c2) (b + sk + length c2) (sum_at ?R (3 * q + 1) [0..<nr] + sum_at ?R (3 * q) [0 + 1..<nr])
      (sum_at ?R (3 * q + 2) [0..<nr] + sum_at ?R (3 * q) [0 + 1..<nr]) x1 y a' b' xs'"
    using show_edits_ok [OF assms(3,2) e0 L(2) b2] by blast
  have m: "int m \<le> ?R ! (3 * (q + nr))" using assms(9) by (simp split: if_splits)
  note h = script_head_common [OF ed(4) assms(3) m]
  define z where "z = take m ys'"
  have z: "xs' = z @ drop m xs'" "ys' = z @ drop m ys'" "length z = m" using h by (simp_all add: z_def) (metis append_take_drop_id)
  have zl: "show_lines 0x20 B (int b') (int m) = Some (map (Line 0x20) z)"
    using show_lines_text(1) [of b' B z "drop m ys'" "int m"] ed(3) z by simp
  define na nb where "na = c - int sk + sum_at ?R (3 * q + 1) [0..<nr] + int m + sum_at ?R (3 * q) [1..<nr]"
    and "nb = c - int sk + sum_at ?R (3 * q + 2) [0..<nr] + int m + sum_at ?R (3 * q) [1..<nr]"
  define body_lines where "body_lines = map (Line 0x20) c2 @ out @ map (Line 0x20) z"
  have r: "3 * q + nr * 3 = 3 * (q + nr)" by simp
  have p: "int a + int sk = int (a + sk)" "int b + int sk = int (b + sk)" "int (a + sk) + (c - int sk) = int (a + sk + length c2)"
    "int (b + sk) + (c - int sk) = int (b + sk + length c2)" using cs(3) by simp_all
  have run: "context_block ?R A B n (3 * q) nr (int a) (int b) = Some (Hunk (int (a + sk) + 1) na (int (b + sk) + 1) nb # body_lines, int a', int b')"
    unfolding context_block_def Let_def c r assms(9) [symmetric] sk(1) [symmetric] p L(1) option.case ed(1) prod.case zl
    by (simp add: body_lines_def na_def nb_def)
  have "leads (map (Line 0x20) c2) (a + sk) (b + sk) (c - int sk) (c - int sk) (c2 @ x1) c2 (a + sk + length c2) (b + sk + length c2) x1"
    using leads_common [of c2 "a + sk" "b + sk" x1] cs(3) by simp
  moreover have "leads (map (Line 0x20) z) a' b' (int m) (int m) xs' z (a' + m) (b' + m) (drop m xs')"
    using leads_common [of z a' b' "drop m xs'"] z by simp
  ultimately have "leads body_lines (a + sk) (b + sk) na nb (c2 @ x1) (c2 @ y @ z) (a' + m) (b' + m) (drop m xs')"
    using leads_append [OF leads_append [OF _ ed(6)]] unfolding body_lines_def na_def nb_def
    by (fastforce simp: algebra_simps)
  then have body: "patch (body_lines @ rest) (int (a + sk)) (int (b + sk)) na nb (c2 @ x1) = map_option (append (c2 @ y @ z)) (patch rest (int (a' + m)) (int (b' + m)) 0 0 (drop m xs'))" for rest
    unfolding leads_def by (metis add.right_neutral order_refl)
  have skip: "nat (int (a + sk) - int (a + k)) = sk - k" "take (sk - k) (drop k xs) = drop k c1" "drop (sk - k) (drop k xs) = c2 @ x1"
    using sk(3) cs(2) by (simp_all add: s(1) cs(1))
  have "patch ((Hunk (int (a + sk) + 1) na (int (b + sk) + 1) nb # body_lines) @ rest) (int (a + k)) (int (b + k)) 0 0 (drop k xs) =
      map_option (append (drop k (cs @ y) @ z)) (patch rest (int (a' + m)) (int (b' + m)) 0 0 (drop m xs'))" for rest
  proof -
    have "drop k (cs @ y) = drop k c1 @ c2 @ y" using sk(3) cs(2) by (simp add: cs(1))
    moreover have "int sk - int k \<le> int (length xs - k)" using sk(2,3) by (simp add: s(1))
    ultimately show ?thesis using body [of rest] skip sk(3)
      by (simp add: Let_def option.map_comp comp_def append_fun)
  qed
  moreover have "ys = (cs @ y) @ ys'" "k \<le> length (cs @ y)" using s(2) ed(5) sk(2,3) by simp_all
  ultimately show ?thesis using run ed(2-4) unfolding z_def by blast
qed


lemma pure_copies:
  "is_script E xs ys \<Longrightarrow> \<forall>(c, d, n) \<in> set E. d = 0 \<and> n = 0 \<Longrightarrow> xs = ys"
proof (induction E arbitrary: xs ys)
  case (Cons t E)
  obtain c d n where t: "t = (c, d, n)" by (cases t)
  then obtain cs ds ns x y where "xs = cs @ ds @ x" "ys = cs @ ns @ y" "d = int (length ds)" "n = int (length ns)" "is_script E x y"
    using Cons.prems(1) unfolding t is_script_Cons by blast
  then show ?case using Cons.IH [of x y] Cons.prems(2) t by simp
qed simp

lemma context_loop_ok:
  assumes "0 \<le> n" "t \<le> length E" "\<forall>(c, d, i) \<in> set (drop t E). d = 0 \<and> i = 0"
  shows "q \<le> length E \<Longrightarrow> is_script (drop q E) xs ys \<Longrightarrow> drop a (map dline_text A) = xs \<Longrightarrow> drop b (map dline_text B) = ys \<Longrightarrow>
    int k \<le> (if triples E ! (3 * q) > n then triples E ! (3 * q) - n else 0) \<Longrightarrow>
    \<exists>out. context_loop (triples E) A B n (3 * t) (3 * q) (int a) (int b) = Some out \<and>
      patch out (int (a + k)) (int (b + k)) 0 0 (drop k xs) = Some (drop k ys)"
proof (induction "length E - q" arbitrary: q xs ys a b k rule: less_induct)
  case less
  let ?R = "triples E"
  show ?case
  proof (cases "q < t")
    case False
    then have "set (drop q E) \<subseteq> set (drop t E)" using set_drop_subset_set_drop [of t q E] by simp
    then have "xs = ys" using pure_copies [OF less.prems(2)] assms(3) by blast
    then show ?thesis using False by (subst context_loop.simps) simp
  next
    case True
    obtain nr where nr: "block_len ?R (3 * q) n 1 = Some nr" "1 \<le> nr" "q + nr \<le> length E" "?R ! (3 * (q + nr)) \<le> 0 \<or> 2 * n \<le> ?R ! (3 * (q + nr))"
      using block_len_ok [of q 1 E n] True assms(2) by auto
    define f where "f = ?R ! (3 * (q + nr))"
    define m where "m = nat (if f > n then n else f)"
    have f: "0 \<le> f" unfolding f_def using script_head_nonneg [OF less.prems(2) _ nr(3)] by simp
    have m: "int m = (if f > n then n else f)" using f assms(1) by (simp add: m_def)
    obtain out a' b' y xs' ys' where b: "context_block ?R A B n (3 * q) nr (int a) (int b) = Some (out, int a', int b')"
      "drop a' (map dline_text A) = xs'" "drop b' (map dline_text B) = ys'" "is_script (drop (q + nr) E) xs' ys'" "ys = y @ ys'" "k \<le> length y"
      "\<forall>rest. patch (out @ rest) (int (a + k)) (int (b + k)) 0 0 (drop k xs) =
         map_option (append (drop k y @ take m ys')) (patch rest (int (a' + m)) (int (b' + m)) 0 0 (drop m xs'))"
      using context_block_ok [OF _ _ nr(3) assms(1) less.prems(2-5) m [unfolded f_def]] True assms(2) nr(2) by auto
    have ahead: "int m \<le> (if f > n then f - n else 0)" using nr(4) assms(1) f unfolding f_def [symmetric] m_def by auto
    have decr: "length E - (q + nr) < length E - q" using nr(2,3) by simp
    obtain rest where rest: "context_loop ?R A B n (3 * t) (3 * (q + nr)) (int a') (int b') = Some rest"
      "patch rest (int (a' + m)) (int (b' + m)) 0 0 (drop m xs') = Some (drop m ys')"
      using less.hyps [OF decr nr(3) b(4,2,3) ahead [unfolded f_def]] by blast
    have r: "3 * q + 3 * nr = 3 * (q + nr)" by simp
    have "context_loop ?R A B n (3 * t) (3 * q) (int a) (int b) = Some (out @ rest)"
      using True by (subst context_loop.simps) (simp only: nr(1) b(1) rest(1) r option.case prod.case, simp)
    moreover have "patch (out @ rest) (int (a + k)) (int (b + k)) 0 0 (drop k xs) = Some (drop k ys)"
      using b(5,6) unfolding b(7) [rule_format] rest(2) by simp
    ultimately show ?thesis by blast
  qed
qed


lemma trim_edits_ok:
  "k \<le> length E + 1 \<Longrightarrow> \<forall>(c, d, i) \<in> set (drop k (E @ [(0, 0, 0)])). d = 0 \<and> i = 0 \<Longrightarrow>
   \<exists>t \<le> k. trim_edits (triples E) (3 * k) = 3 * t \<and> (\<forall>(c, d, i) \<in> set (drop t (E @ [(0, 0, 0)])). d = 0 \<and> i = 0) \<and> (k = length E + 1 \<longrightarrow> t \<le> length E)"
proof (induction k)
  case 0
  then show ?case by (subst trim_edits.simps) simp
next
  case (Suc k)
  let ?Z = "E @ [(0, 0, 0)]"
  obtain c d i where z: "?Z ! k = (c, d, i)" by (cases "?Z ! k")
  have k: "k < length ?Z" using Suc.prems(1) by simp
  have R: "triples E = flat ?Z" by (simp add: triples_def)
  have ix: "3 * Suc k - 2 = 3 * k + 1" "3 * Suc k - 1 = 3 * k + 2" "3 * Suc k - 3 = 3 * k" by simp_all
  have nth: "triples E ! (3 * k + 1) = d" "triples E ! (3 * k + 2) = i" using flat_nth(2,3) [OF k] z by (simp_all add: R)
  have trim: "trim_edits (triples E) (3 * Suc k) = (if i = 0 \<and> d = 0 then trim_edits (triples E) (3 * k) else 3 * Suc k)"
    by (subst trim_edits.simps) (simp only: ix nth, simp)
  have dr: "drop k ?Z = (c, d, i) # drop (Suc k) ?Z" using k z by (metis Cons_nth_drop_Suc)
  show ?case
  proof (cases "i = 0 \<and> d = 0")
    case True
    then have "\<forall>(c, d, i) \<in> set (drop k ?Z). d = 0 \<and> i = 0" using Suc.prems(2) dr by simp
    then obtain t where "t \<le> k" "trim_edits (triples E) (3 * k) = 3 * t" "\<forall>(c, d, i) \<in> set (drop t ?Z). d = 0 \<and> i = 0"
      using Suc.IH Suc.prems(1) by auto
    then show ?thesis using True trim by (intro exI [of _ t]) auto
  next
    case False
    then have "k \<noteq> length E" using z by (auto simp: nth_append)
    then show ?thesis using False trim Suc.prems by (intro exI [of _ "Suc k"]) auto
  qed
qed

lemma expandEdit_files [simp]: "aFrom (expandEdit mem n p) = aFrom p" "aTo (expandEdit mem n p) = aTo p"
  by (simp_all add: expandEdit_def)

lemma push_files [simp]: "aFrom (push_edit v p) = aFrom p" "aTo (push_edit v p) = aTo p"
  by (simp_all add: push_edit_def)

lemma diff_step_files:
  "diff_step stray mem iS1 iE1 iS2 iE2 p = Some p' \<Longrightarrow> aFrom p' = aFrom p \<and> aTo p' = aTo p"
proof (induction stray mem iS1 iE1 iS2 iE2 p arbitrary: p' rule: diff_step.induct)
  case (1 stray mem iS1 iE1 iS2 iE2 p)
  show ?case
  proof (cases "iE1 \<le> iS1 \<or> iE2 \<le> iS2")
    case True
    then show ?thesis using "1.prems" by (subst (asm) diff_step.simps) (auto split: if_splits)
  next
    case False
    then obtain iSX iEX iSY iEY where l: "longestCommonSequence stray p iS1 iE1 iS2 iE2 = Some (iSX, iEX, iSY, iEY)"
      using "1.prems" by (subst (asm) diff_step.simps) (auto split: option.splits)
    show ?thesis
    proof (cases "iEX > iSX")
      case True
      then obtain p1 where p1: "diff_step stray mem iS1 iSX iS2 iSY p = Some p1"
        "diff_step stray mem iEX iE1 iEY iE2 (appendTriple mem (int (iEX - iSX)) 0 0 p1) = Some p'"
        using "1.prems" False l by (subst (asm) diff_step.simps) (auto split: option.splits)
      have "aFrom p1 = aFrom p \<and> aTo p1 = aTo p"
        using False True by (intro "1.IH"(1) [OF _ _ l refl refl refl _ p1(1)]) auto
      moreover have "aFrom p' = aFrom (appendTriple mem (int (iEX - iSX)) 0 0 p1) \<and> aTo p' = aTo (appendTriple mem (int (iEX - iSX)) 0 0 p1)"
        using False True by (intro "1.IH"(2) [OF _ _ l refl refl refl _ p1]) auto
      ultimately show ?thesis by simp
    next
      case no: False
      then show ?thesis using "1.prems" False l by (subst (asm) diff_step.simps) auto
    qed
  qed
qed

lemma diff_all_files: "diff_all stray mem p = Some p' \<Longrightarrow> aFrom p' = aFrom p \<and> aTo p' = aTo p"
  by (auto simp: diff_all_def Let_def split: option.splits prod.splits if_splits dest!: diff_step_files)

lemma contextDiff_ok:
  assumes "aEdit p = Some (flat E @ [0, 0, 0])" "is_script E (map dline_text (aFrom p)) (map dline_text (aTo p))" "0 \<le> n"
  shows "\<exists>out. contextDiff p n = Some out \<and> patch out 0 0 0 0 (map dline_text (aFrom p)) = Some (map dline_text (aTo p))"
proof -
  have e: "edit_list p = triples E" "nEdit p = 3 * (length E + 1)" using assms(1) by (simp_all add: edit_list_def nEdit_def triples_def)
  obtain t where t: "trim_edits (triples E) (3 * (length E + 1)) = 3 * t" "t \<le> length E" "\<forall>(c, d, i) \<in> set (drop t (E @ [(0, 0, 0)])). d = 0 \<and> i = 0"
    using trim_edits_ok [of "length E + 1" E] by auto
  have "\<forall>(c, d, i) \<in> set (drop t E). d = 0 \<and> i = 0" using t(3) by auto
  from context_loop_ok [OF assms(3) t(2) this, of 0 "map dline_text (aFrom p)" "map dline_text (aTo p)" 0 "aFrom p" 0 "aTo p" 0] show ?thesis
    using assms(2,3) unfolding contextDiff_def e t(1) by simp
qed

section \<open>Property\<close>



end
