(* ===== verification/Sha1.thy ===== *)
theory Sha1
  imports Fossil_Encode
begin

text \<open>
  The SHA-1 checksum of \<^verbatim>\<open>libcoopy_core/Sha1Generator.cpp\<close>: blocks of 64 bytes are collected and worked
  into a state of five words; the padding with the length of the message ends the computation.
  The names are those of the code.  The generator keeps one computation in static variables, here
  the record \<open>sha1_state\<close>; \<open>hashLen\<close>, which is only counted, is left out.
\<close>

section \<open>The model\<close>

record SHA1Context =
  Intermediate_Hash :: "u32 list"
  Length_Low :: u32
  Length_High :: u32
  Message_Block_Index :: nat
  Message_Block :: "byte list"
  Computed :: bool
  Corrupted :: nat

definition shaSuccess :: nat where "shaSuccess = 0"

definition shaStateError :: nat where "shaStateError = 2"

definition SHA1CircularShift :: "nat \<Rightarrow> u32 \<Rightarrow> u32" where
  "SHA1CircularShift bits w = push_bit bits w OR drop_bit (32 - bits) w"

definition SHA1Reset :: "SHA1Context \<Rightarrow> SHA1Context" where
  "SHA1Reset context = context\<lparr>Length_Low := 0, Length_High := 0, Message_Block_Index := 0,
     Intermediate_Hash := [0x67452301, 0xEFCDAB89, 0x98BADCFE, 0x10325476, 0xC3D2E1F0], Computed := False, Corrupted := 0\<rparr>"

subsection \<open>One block\<close>

definition block_word :: "byte list \<Rightarrow> nat \<Rightarrow> u32" where
  "block_word M t = push_bit 24 (ucast (M ! (t * 4))) OR push_bit 16 (ucast (M ! (t * 4 + 1))) OR
     push_bit 8 (ucast (M ! (t * 4 + 2))) OR ucast (M ! (t * 4 + 3))"

text \<open>The array \<open>W\<close> is filled from front to back.\<close>

definition expand_words :: "byte list \<Rightarrow> u32 list" where
  "expand_words M =
     foldl (\<lambda>W t. W @ [SHA1CircularShift 1 (W ! (t - 3) XOR W ! (t - 8) XOR W ! (t - 14) XOR W ! (t - 16))])
       (map (block_word M) [0..<16]) [16..<80]"

type_synonym sha_vars = "u32 \<times> u32 \<times> u32 \<times> u32 \<times> u32"

definition sha_loop :: "(u32 \<Rightarrow> u32 \<Rightarrow> u32 \<Rightarrow> u32) \<Rightarrow> u32 \<Rightarrow> u32 list \<Rightarrow> nat list \<Rightarrow> sha_vars \<Rightarrow> sha_vars" where
  "sha_loop f k W ts v = foldl (\<lambda>(A, B, C, D, E) t.
     (SHA1CircularShift 5 A + f B C D + E + W ! t + k, A, SHA1CircularShift 30 B, C, D)) v ts"

definition SHA1ProcessMessageBlock :: "SHA1Context \<Rightarrow> SHA1Context" where
  "SHA1ProcessMessageBlock context =
     (let W = expand_words (Message_Block context); H = Intermediate_Hash context;
          v = (H ! 0, H ! 1, H ! 2, H ! 3, H ! 4);
          v = sha_loop (\<lambda>B C D. (B AND C) OR (NOT B AND D)) 0x5A827999 W [0..<20] v;
          v = sha_loop (\<lambda>B C D. B XOR C XOR D) 0x6ED9EBA1 W [20..<40] v;
          v = sha_loop (\<lambda>B C D. (B AND C) OR (B AND D) OR (C AND D)) 0x8F1BBCDC W [40..<60] v;
          (A, B, C, D, E) = sha_loop (\<lambda>B C D. B XOR C XOR D) 0xCA62C1D6 W [60..<80] v
      in context\<lparr>Intermediate_Hash := [H ! 0 + A, H ! 1 + B, H ! 2 + C, H ! 3 + D, H ! 4 + E], Message_Block_Index := 0\<rparr>)"

subsection \<open>Input and result\<close>

definition put_byte :: "byte \<Rightarrow> SHA1Context \<Rightarrow> SHA1Context" where
  "put_byte b context = context\<lparr>Message_Block := (Message_Block context)[Message_Block_Index context := b],
     Message_Block_Index := Message_Block_Index context + 1\<rparr>"

definition input_byte :: "SHA1Context \<Rightarrow> byte \<Rightarrow> SHA1Context" where
  "input_byte context b =
     (let c = put_byte b context;
          c = c\<lparr>Length_Low := Length_Low c + 8\<rparr>;
          c = (if Length_Low c = 0
               then let c = c\<lparr>Length_High := Length_High c + 1\<rparr> in if Length_High c = 0 then c\<lparr>Corrupted := 1\<rparr> else c
               else c)
      in if Message_Block_Index c = 64 then SHA1ProcessMessageBlock c else c)"

fun input_loop :: "byte list \<Rightarrow> SHA1Context \<Rightarrow> SHA1Context" where
  "input_loop [] context = context"
| "input_loop (b # bs) context = (if Corrupted context \<noteq> 0 then context else input_loop bs (input_byte context b))"

definition SHA1Input :: "SHA1Context \<Rightarrow> byte list \<Rightarrow> nat \<Rightarrow> nat \<times> SHA1Context" where
  "SHA1Input context message_array len =
     (if len = 0 then (shaSuccess, context)
      else if Computed context then (shaStateError, context\<lparr>Corrupted := shaStateError\<rparr>)
      else if Corrupted context \<noteq> 0 then (Corrupted context, context)
      else (shaSuccess, input_loop (take len message_array) context))"

function zero_to :: "nat \<Rightarrow> SHA1Context \<Rightarrow> SHA1Context" where
  "zero_to n context = (if Message_Block_Index context < n then zero_to n (put_byte 0 context) else context)"
  by pat_completeness auto
termination
  by (relation "measure (\<lambda>(n, c). n - Message_Block_Index c)") (auto simp: put_byte_def)

declare zero_to.simps [simp del]

definition be_bytes :: "u32 \<Rightarrow> byte list" where
  "be_bytes w = [ucast (drop_bit 24 w), ucast (drop_bit 16 w), ucast (drop_bit 8 w), ucast w]"

definition SHA1PadMessage :: "SHA1Context \<Rightarrow> SHA1Context" where
  "SHA1PadMessage context =
     (let c = (if Message_Block_Index context > 55
               then zero_to 56 (SHA1ProcessMessageBlock (zero_to 64 (put_byte 0x80 context)))
               else zero_to 56 (put_byte 0x80 context))
      in SHA1ProcessMessageBlock (c\<lparr>Message_Block := take 56 (Message_Block c) @ be_bytes (Length_High c) @ be_bytes (Length_Low c)\<rparr>))"

definition SHA1Result :: "SHA1Context \<Rightarrow> nat \<times> byte list \<times> SHA1Context" where
  "SHA1Result context =
     (if Corrupted context \<noteq> 0 then (Corrupted context, [], context)
      else let c = (if \<not> Computed context
                    then (SHA1PadMessage context)\<lparr>Message_Block := replicate 64 0, Length_Low := 0, Length_High := 0, Computed := True\<rparr>
                    else context)
           in (shaSuccess, map (\<lambda>i. ucast (drop_bit (8 * (3 - i mod 4)) (Intermediate_Hash c ! (i div 4)))) [0..<20], c))"

definition DigestToBase16 :: "byte list \<Rightarrow> byte list" where
  "DigestToBase16 digest = concat (map (\<lambda>i. [zEncode ! unat (drop_bit 4 (digest ! i) AND 0xf), zEncode ! unat (digest ! i AND 0xf)]) [0..<20])"

subsection \<open>The incremental checksum\<close>

record sha1_state =
  incrCtx :: SHA1Context
  incrInit :: bool

definition sha1sum_step_text :: "byte list \<Rightarrow> int \<Rightarrow> sha1_state \<Rightarrow> sha1_state" where
  "sha1sum_step_text zText nBytes s =
     (let s = (if \<not> incrInit s then s\<lparr>incrCtx := SHA1Reset (incrCtx s), incrInit := True\<rparr> else s) in
      if nBytes = 0 then s
      else let n = (if nBytes < 0 then strlen zText else nat nBytes) in s\<lparr>incrCtx := snd (SHA1Input (incrCtx s) zText n)\<rparr>)"

text \<open>The digest stays as it was when the context is corrupted (an uninitialized array); the model
  then yields \<open>None\<close>.\<close>

definition sha1sum_finish :: "sha1_state \<Rightarrow> byte list option \<times> sha1_state" where
  "sha1sum_finish s =
     (let s = sha1sum_step_text [] 0 s in
      case SHA1Result (incrCtx s) of (rc, zResult, c) \<Rightarrow>
        (if rc = shaSuccess then Some (DigestToBase16 zResult) else None, s\<lparr>incrCtx := c, incrInit := False\<rparr>))"

section \<open>The standard\<close>

text \<open>Numbers as bytes, the highest first; the functions of the standard, the words of a block, the
  eighty rounds.\<close>

definition be_nat :: "byte list \<Rightarrow> nat" where
  "be_nat bs = foldl (\<lambda>n b. 256 * n + unat b) 0 bs"

definition nat_be :: "nat \<Rightarrow> nat \<Rightarrow> byte list" where
  "nat_be k n = map (\<lambda>i. of_nat (n div 256 ^ i)) (rev [0..<k])"

definition sha_f :: "nat \<Rightarrow> u32 \<Rightarrow> u32 \<Rightarrow> u32 \<Rightarrow> u32" where
  "sha_f t B C D = (if t < 20 then (B AND C) OR (NOT B AND D) else if t < 40 then B XOR C XOR D
     else if t < 60 then (B AND C) OR (B AND D) OR (C AND D) else B XOR C XOR D)"

definition sha_K :: "nat \<Rightarrow> u32" where
  "sha_K t = (if t < 20 then 0x5A827999 else if t < 40 then 0x6ED9EBA1 else if t < 60 then 0x8F1BBCDC else 0xCA62C1D6)"

fun sha_W :: "byte list \<Rightarrow> nat \<Rightarrow> u32" where
  "sha_W M t = (if t < 16 then of_nat (be_nat (take 4 (drop (4 * t) M)))
     else word_rotl 1 (sha_W M (t - 3) XOR sha_W M (t - 8) XOR sha_W M (t - 14) XOR sha_W M (t - 16)))"

declare sha_W.simps [simp del]

fun sha_rounds :: "byte list \<Rightarrow> nat \<Rightarrow> sha_vars \<Rightarrow> sha_vars" where
  "sha_rounds M 0 v = v"
| "sha_rounds M (Suc t) v = (case sha_rounds M t v of (A, B, C, D, E) \<Rightarrow>
     (word_rotl 5 A + sha_f t B C D + E + sha_W M t + sha_K t, A, word_rotl 30 B, C, D))"

definition sha_compress :: "byte list \<Rightarrow> sha_vars \<Rightarrow> sha_vars" where
  "sha_compress M v = (case (v, sha_rounds M 80 v) of ((a, b, c, d, e), (A, B, C, D, E)) \<Rightarrow> (a + A, b + B, c + C, d + D, e + E))"

fun sha_blocks :: "byte list \<Rightarrow> sha_vars \<Rightarrow> sha_vars" where
  "sha_blocks m v = (if length m < 64 then v else sha_blocks (drop 64 m) (sha_compress (take 64 m) v))"

declare sha_blocks.simps [simp del]

definition sha_pad :: "byte list \<Rightarrow> byte list" where
  "sha_pad m = m @ [0x80] @ replicate ((119 - length m mod 64) mod 64) 0 @ nat_be 8 (8 * length m)"

definition sha1 :: "byte list \<Rightarrow> byte list" where
  "sha1 m = (case sha_blocks (sha_pad m) (0x67452301, 0xEFCDAB89, 0x98BADCFE, 0x10325476, 0xC3D2E1F0) of
     (a, b, c, d, e) \<Rightarrow> concat (map (\<lambda>w. nat_be 4 (unat w)) [a, b, c, d, e]))"

end
