(* ===== verification/Sha1_Correct.thy ===== *)
theory Sha1_Correct
  imports Sha1 Fossil_Encode_Correct
begin

text \<open>The checksum generator computes the SHA-1 of the standard, however the text is cut into pieces.\<close>

section \<open>One block\<close>

lemma circular_shift: "0 < n \<Longrightarrow> n < 32 \<Longrightarrow> SHA1CircularShift n w = word_rotl n w"
proof (rule bit_word_eqI)
  fix i assume n: "0 < n" "n < 32" and "i < LENGTH(32)"
  then have i: "i < 32" by simp
  have "bit (SHA1CircularShift n w) i \<longleftrightarrow> n \<le> i \<and> bit w (i - n) \<or> bit w (32 - n + i)"
    using i by (simp add: SHA1CircularShift_def bit_or_iff bit_push_bit_iff bit_drop_bit_eq)
  moreover have "bit (word_rotl n w) i \<longleftrightarrow> bit w ((i + (32 - n)) mod 32)" using bit_word_rotl_iff [of n w i] n i by simp
  moreover have "(i + (32 - n)) mod 32 = (if i < n then 32 - n + i else i - n)" using n i by (auto simp: mod_if)
  moreover have "n \<le> i \<Longrightarrow> \<not> bit w (32 - n + i)" using bit_imp_le_length [of w "32 - n + i"] n by auto
  ultimately show "bit (SHA1CircularShift n w) i = bit (word_rotl n w) i" by auto
qed

lemma block_word_value:
  assumes "length M = 64" "t < 16"
  shows "block_word M t = of_nat (be_nat (take 4 (drop (4 * t) M)))"
proof -
  have "take 4 (drop (4 * t) M) = map (\<lambda>i. M ! (4 * t + i)) [0..<4]"
    using assms by (intro nth_equalityI) auto
  also have "\<dots> = [M ! (t * 4), M ! (t * 4 + 1), M ! (t * 4 + 2), M ! (t * 4 + 3)]"
    by (simp add: numeral_eq_Suc upt_conv_Cons mult.commute)
  finally show ?thesis
    by (simp add: block_word_def be32_or be32_def be_nat_def algebra_simps)
qed

lemma expand_words_nth:
  assumes "length M = 64" "t < 80"
  shows "expand_words M ! t = sha_W M t"
proof -
  let ?step = "\<lambda>W t. W @ [SHA1CircularShift 1 (W ! (t - 3) XOR W ! (t - 8) XOR W ! (t - 14) XOR W ! (t - 16))]"
  have all: "length (foldl ?step (map (block_word M) [0..<16]) [16..<16 + n]) = 16 + n \<and>
      (\<forall>t < 16 + n. foldl ?step (map (block_word M) [0..<16]) [16..<16 + n] ! t = sha_W M t)" for n
  proof (induction n)
    case 0
    then show ?case using block_word_value [OF assms(1)] by (simp add: sha_W.simps)
  next
    case (Suc n)
    let ?L = "foldl ?step (map (block_word M) [0..<16]) [16..<16 + n]"
    have "sha_W M (16 + n) = SHA1CircularShift 1 (?L ! (16 + n - 3) XOR ?L ! (16 + n - 8) XOR ?L ! (16 + n - 14) XOR ?L ! (16 + n - 16))"
      using Suc by (subst sha_W.simps) (simp add: circular_shift)
    moreover have "[16..<16 + Suc n] = [16..<16 + n] @ [16 + n]" using upt_Suc_append [of 16 "16 + n"] by (simp only: add_Suc_right le_add1)
    then have "foldl ?step (map (block_word M) [0..<16]) [16..<16 + Suc n] = ?step ?L (16 + n)" by (simp only: foldl_append foldl.simps)
    ultimately have L: "foldl ?step (map (block_word M) [0..<16]) [16..<16 + Suc n] = ?L @ [sha_W M (16 + n)]" by (simp only:)
    show ?case unfolding L
    proof (intro conjI allI impI)
      fix t assume "t < 16 + Suc n"
      then consider "t < 16 + n" | "t = 16 + n" by linarith
      then show "(?L @ [sha_W M (16 + n)]) ! t = sha_W M t" using Suc by cases (simp_all add: nth_append)
    qed (use Suc in simp)
  qed
  have e: "16 + 64 = (80 :: nat)" by simp
  show ?thesis using all [of 64] assms(2) unfolding expand_words_def e by blast
qed

lemma sha_loop_rounds:
  assumes "\<forall>t < 80. W ! t = sha_W M t"
  shows "a \<le> b \<Longrightarrow> b \<le> 80 \<Longrightarrow> \<forall>t. a \<le> t \<and> t < b \<longrightarrow> sha_f t = f \<and> sha_K t = k \<Longrightarrow>
    sha_loop f k W [a..<b] (sha_rounds M a v) = sha_rounds M b v"
proof (induction b)
  case (Suc b)
  show ?case
  proof (cases "a = Suc b")
    case False
    then have ab: "a \<le> b" "b < 80" using Suc.prems by simp_all
    have "sha_f b = f" "sha_K b = k" using Suc.prems(3) ab(1) by auto
    moreover have "sha_loop f k W [a..<b] (sha_rounds M a v) = sha_rounds M b v" using Suc ab by auto
    ultimately show ?thesis using ab assms by (simp add: sha_loop_def circular_shift split: prod.splits)
  qed (simp add: sha_loop_def)
qed (simp add: sha_loop_def)

definition hash_of :: "SHA1Context \<Rightarrow> sha_vars" where
  "hash_of c = (let H = Intermediate_Hash c in (H ! 0, H ! 1, H ! 2, H ! 3, H ! 4))"

lemma process_block:
  assumes "length (Message_Block c) = 64"
  shows "hash_of (SHA1ProcessMessageBlock c) = sha_compress (Message_Block c) (hash_of c)"
    "\<exists>H. SHA1ProcessMessageBlock c = c\<lparr>Intermediate_Hash := H, Message_Block_Index := 0\<rparr> \<and> length H = 5"
proof -
  let ?M = "Message_Block c" and ?W = "expand_words (Message_Block c)"
  have W: "\<forall>t < 80. ?W ! t = sha_W ?M t" using expand_words_nth [OF assms] by blast
  note loop = sha_loop_rounds [OF W]
  have f: "\<And>t. t < 20 \<Longrightarrow> sha_f t = (\<lambda>B C D. (B AND C) OR (NOT B AND D))" "\<And>t. 20 \<le> t \<Longrightarrow> t < 40 \<Longrightarrow> sha_f t = (\<lambda>B C D. B XOR C XOR D)"
    "\<And>t. 40 \<le> t \<Longrightarrow> t < 60 \<Longrightarrow> sha_f t = (\<lambda>B C D. (B AND C) OR (B AND D) OR (C AND D))" "\<And>t. 60 \<le> t \<Longrightarrow> sha_f t = (\<lambda>B C D. B XOR C XOR D)"
    by (simp_all add: sha_f_def fun_eq_iff)
  let ?v = "hash_of c"
  have l1: "sha_loop (\<lambda>B C D. (B AND C) OR (NOT B AND D)) 0x5A827999 ?W [0..<20] ?v = sha_rounds ?M 20 ?v"
    using loop [of 0 20 _ _ ?v] f(1) by (simp add: sha_K_def)
  have l2: "sha_loop (\<lambda>B C D. B XOR C XOR D) 0x6ED9EBA1 ?W [20..<40] (sha_rounds ?M 20 ?v) = sha_rounds ?M 40 ?v"
    using f(2) by (intro loop) (auto simp: sha_K_def)
  have l3: "sha_loop (\<lambda>B C D. (B AND C) OR (B AND D) OR (C AND D)) 0x8F1BBCDC ?W [40..<60] (sha_rounds ?M 40 ?v) = sha_rounds ?M 60 ?v"
    using f(3) by (intro loop) (auto simp: sha_K_def)
  have l4: "sha_loop (\<lambda>B C D. B XOR C XOR D) 0xCA62C1D6 ?W [60..<80] (sha_rounds ?M 60 ?v) = sha_rounds ?M 80 ?v"
    using f(4) by (intro loop) (auto simp: sha_K_def)
  obtain A B C D E where r: "sha_rounds ?M 80 ?v = (A, B, C, D, E)" by (cases "sha_rounds ?M 80 ?v")
  let ?H = "Intermediate_Hash c"
  have v: "(?H ! 0, ?H ! 1, ?H ! 2, ?H ! 3, ?H ! 4) = ?v" by (simp add: hash_of_def Let_def)
  have p: "SHA1ProcessMessageBlock c = c\<lparr>Intermediate_Hash := [?H ! 0 + A, ?H ! 1 + B, ?H ! 2 + C, ?H ! 3 + D, ?H ! 4 + E], Message_Block_Index := 0\<rparr>"
    unfolding SHA1ProcessMessageBlock_def Let_def v l1 l2 l3 l4 r by simp
  show "hash_of (SHA1ProcessMessageBlock c) = sha_compress ?M ?v"
    unfolding p sha_compress_def r by (simp add: hash_of_def Let_def numeral_eq_Suc)
  show "\<exists>H. SHA1ProcessMessageBlock c = c\<lparr>Intermediate_Hash := H, Message_Block_Index := 0\<rparr> \<and> length H = 5"
    unfolding p by (intro exI conjI, rule refl) simp
qed

section \<open>The stream of blocks\<close>

definition sha_rest :: "byte list \<Rightarrow> byte list" where
  "sha_rest m = drop (length m div 64 * 64) m"

lemma length_sha_rest [simp]: "length (sha_rest m) = length m mod 64"
  by (simp add: sha_rest_def minus_div_mult_eq_mod)

lemma sha_blocks_append: "sha_blocks (m @ x) v = sha_blocks (sha_rest m @ x) (sha_blocks m v)"
proof (induction m v rule: sha_blocks.induct)
  case (1 m v)
  show ?case
  proof (cases "length m < 64")
    case True
    then show ?thesis by (simp add: sha_rest_def sha_blocks.simps [of m])
  next
    case False
    then have "sha_rest m = sha_rest (drop 64 m)" by (simp add: sha_rest_def le_div_geq add.commute)
    moreover have "sha_blocks (m @ x) v = sha_blocks (drop 64 m @ x) (sha_compress (take 64 m) v)"
      using False by (subst sha_blocks.simps) simp
    ultimately show ?thesis using 1 [OF False] False sha_blocks.simps [of m v] by simp
  qed
qed

lemma sha_rest_whole:
  assumes "length a = q * 64"
  shows "sha_rest (a @ y) = sha_rest y"
proof -
  have "(q * 64 + length y) div 64 * 64 = q * 64 + length y div 64 * 64" by simp
  then show ?thesis using assms by (simp add: sha_rest_def)
qed

lemma sha_rest_append: "sha_rest (m @ x) = sha_rest (sha_rest m @ x)"
proof -
  let ?a = "take (length m div 64 * 64) m"
  have "m @ x = ?a @ sha_rest m @ x" by (simp add: sha_rest_def)
  moreover have "length ?a = length m div 64 * 64" by simp
  ultimately show ?thesis using sha_rest_whole by metis
qed

lemma one_block: "length m = 64 \<Longrightarrow> sha_blocks m v = sha_compress m v" "length m = 64 \<Longrightarrow> sha_rest m = []"
  by (simp add: sha_blocks.simps) (simp add: sha_rest_def)

lemma no_block: "length m < 64 \<Longrightarrow> sha_blocks m v = v" "length m < 64 \<Longrightarrow> sha_rest m = m"
  by (simp add: sha_blocks.simps) (simp add: sha_rest_def)

abbreviation IV :: sha_vars where
  "IV \<equiv> (0x67452301, 0xEFCDAB89, 0x98BADCFE, 0x10325476, 0xC3D2E1F0)"

text \<open>The context after the message \<open>m\<close>.\<close>

definition bits_of :: "SHA1Context \<Rightarrow> nat" where
  "bits_of c = unat (Length_High c) * 2 ^ 32 + unat (Length_Low c)"

definition ctx_ok :: "SHA1Context \<Rightarrow> byte list \<Rightarrow> bool" where
  "ctx_ok c m \<longleftrightarrow> hash_of c = sha_blocks m IV \<and> length (Intermediate_Hash c) = 5 \<and> length (Message_Block c) = 64 \<and>
     Message_Block_Index c = length m mod 64 \<and> take (Message_Block_Index c) (Message_Block c) = sha_rest m \<and>
     bits_of c = 8 * length m \<and> \<not> Computed c \<and> Corrupted c = 0"

lemma reset_ok: "length (Message_Block c) = 64 \<Longrightarrow> ctx_ok (SHA1Reset c) []"
  by (simp add: ctx_ok_def SHA1Reset_def hash_of_def no_block bits_of_def nth_Cons' sha_rest_def)

text \<open>Counting the length.\<close>

definition count_byte :: "SHA1Context \<Rightarrow> SHA1Context" where
  "count_byte c = (let c = c\<lparr>Length_Low := Length_Low c + 8\<rparr> in
     if Length_Low c = 0 then let c = c\<lparr>Length_High := Length_High c + 1\<rparr> in if Length_High c = 0 then c\<lparr>Corrupted := 1\<rparr> else c else c)"

lemma u32_bound: "unat (w :: u32) < 2 ^ 32"
  using unsigned_less [of w, where ?'a = nat] by simp

lemma wraps_at: "(l + 8) mod 2 ^ 32 = 0 \<Longrightarrow> l < 2 ^ 32 \<Longrightarrow> l = 2 ^ 32 - (8 :: nat)"
  by (cases "l + 8 < 2 ^ 32") (auto simp: mod_if split: if_splits)

lemma wraps_not:
  assumes "l < 2 ^ 32" "h * 2 ^ 32 + l = 8 * k" "l + 8 \<noteq> 2 ^ 32"
  shows "l + (8 :: nat) < 2 ^ 32"
proof -
  have "8 dvd h * 2 ^ 32 + l" unfolding assms(2) by (rule dvd_triv_left)
  moreover have "8 dvd h * (2 :: nat) ^ 32" by (rule dvd_mult) simp
  ultimately have "8 dvd l" by (simp only: dvd_add_right_iff)
  then obtain q where "l = 8 * q" by (rule dvdE)
  then show ?thesis using assms(1,3) by simp
qed

lemma count_byte_ok:
  assumes "bits_of c = 8 * k" "8 * k + 8 < 2 ^ 64"
  obtains h l where "count_byte c = c\<lparr>Length_Low := l, Length_High := h\<rparr>" "bits_of (count_byte c) = 8 * k + 8"
proof (cases "Length_Low c + 8 = 0")
  case True
  have "(unat (Length_Low c) + 8) mod 2 ^ 32 = 0" using arg_cong [OF True, of unat] by (simp add: unat_word_ariths(1))
  moreover have "unat (Length_Low c) < 2 ^ 32" by (rule u32_bound)
  ultimately have low: "unat (Length_Low c) = 2 ^ 32 - 8" by (rule wraps_at)
  then have "unat (Length_High c) + 1 < 2 ^ 32" using assms by (simp add: bits_of_def)
  then have high: "unat (Length_High c + 1) = unat (Length_High c) + 1" by (simp add: unat_word_ariths(1))
  then have "Length_High c + 1 \<noteq> 0" by auto
  then have "count_byte c = c\<lparr>Length_Low := 0, Length_High := Length_High c + 1\<rparr>" using True by (simp add: count_byte_def Let_def)
  moreover from this have "bits_of (count_byte c) = 8 * k + 8" using low high assms(1) by (simp add: bits_of_def)
  ultimately show ?thesis using that by blast
next
  case False
  have "unat (Length_Low c) < 2 ^ 32" by (rule u32_bound)
  moreover have "unat (Length_High c) * 2 ^ 32 + unat (Length_Low c) = 8 * k" using assms(1) by (simp add: bits_of_def)
  moreover have "unat (Length_Low c) + 8 \<noteq> 2 ^ 32"
  proof
    assume "unat (Length_Low c) + 8 = 2 ^ 32"
    then have "unat (Length_Low c + 8) = 0" by (simp add: unat_word_ariths(1))
    then show False using False unsigned_eq_0_iff by blast
  qed
  ultimately have "unat (Length_Low c) + 8 < 2 ^ 32" by (rule wraps_not)
  then have low: "unat (Length_Low c + 8) = unat (Length_Low c) + 8" by (simp add: unat_word_ariths(1))
  have "count_byte c = c\<lparr>Length_Low := Length_Low c + 8, Length_High := Length_High c\<rparr>" using False by (simp add: count_byte_def Let_def)
  moreover from this have "bits_of (count_byte c) = 8 * k + 8" using low assms(1) by (simp add: bits_of_def)
  ultimately show ?thesis using that by blast
qed

lemma input_byte_eq:
  "input_byte c b = (let c = count_byte (put_byte b c) in if Message_Block_Index c = 64 then SHA1ProcessMessageBlock c else c)"
  by (simp add: input_byte_def count_byte_def Let_def)

lemma input_byte_ok:
  assumes "ctx_ok c m" "8 * length m + 8 < 2 ^ 64"
  shows "ctx_ok (input_byte c b) (m @ [b])"
proof -
  let ?i = "length m mod 64" and ?M = "(Message_Block c)[length m mod 64 := b]"
  have c: "hash_of c = sha_blocks m IV" "length (Intermediate_Hash c) = 5" "length (Message_Block c) = 64" "Message_Block_Index c = ?i"
    "take ?i (Message_Block c) = sha_rest m" "bits_of c = 8 * length m" "\<not> Computed c" "Corrupted c = 0"
    using assms(1) unfolding ctx_ok_def by auto
  have p: "put_byte b c = c\<lparr>Message_Block := ?M, Message_Block_Index := ?i + 1\<rparr>" using c by (simp add: put_byte_def)
  obtain h l where k: "count_byte (put_byte b c) = (put_byte b c)\<lparr>Length_Low := l, Length_High := h\<rparr>"
    "bits_of (count_byte (put_byte b c)) = 8 * length m + 8"
    using count_byte_ok [of "put_byte b c" "length m"] c assms(2) by (auto simp: p bits_of_def)
  let ?c = "c\<lparr>Message_Block := ?M, Message_Block_Index := ?i + 1, Length_Low := l, Length_High := h\<rparr>"
  have kc: "count_byte (put_byte b c) = ?c" "bits_of ?c = 8 * length m + 8" using k by (simp_all add: p)
  have r: "take (?i + 1) ?M = sha_rest m @ [b]" using c by (simp add: take_Suc_conv_app_nth)
  have lr: "length (sha_rest m @ [b]) = ?i + 1" by simp
  have h: "hash_of ?c = sha_blocks m IV" using c by (simp add: hash_of_def)
  show ?thesis
  proof (cases "?i + 1 = 64")
    case True
    then have "?M = sha_rest m @ [b]" using r c by simp
    moreover have "hash_of (SHA1ProcessMessageBlock ?c) = sha_compress ?M (hash_of ?c)" using process_block(1) [of ?c] c by simp
    ultimately have "hash_of (SHA1ProcessMessageBlock ?c) = sha_blocks (m @ [b]) IV"
      using h True lr by (simp add: sha_blocks_append [of m] one_block(1))
    moreover have "sha_rest (m @ [b]) = []" using True lr by (simp add: sha_rest_append [of m] one_block(2))
    moreover have "length (m @ [b]) mod 64 = 0" using True by (simp add: mod_Suc)
    ultimately show ?thesis unfolding input_byte_eq Let_def kc(1)
      using process_block(2) [of ?c] c kc(2) True by (auto simp: ctx_ok_def bits_of_def)
  next
    case False
    then have "length (sha_rest m @ [b]) < 64" using mod_less_divisor [of 64 "length m"] by simp
    then have "sha_rest (m @ [b]) = sha_rest m @ [b]" "sha_blocks (m @ [b]) IV = sha_blocks m IV"
      by (simp_all add: sha_rest_append [of m] sha_blocks_append [of m] no_block)
    moreover have "length (m @ [b]) mod 64 = ?i + 1" using False by (simp add: mod_Suc)
    ultimately show ?thesis unfolding input_byte_eq Let_def kc(1)
      using False c kc(2) r h by (simp add: ctx_ok_def)
  qed
qed

lemma input_loop_ok:
  "ctx_ok c m \<Longrightarrow> 8 * length (m @ bs) < 2 ^ 64 \<Longrightarrow> ctx_ok (input_loop bs c) (m @ bs)"
proof (induction bs arbitrary: c m)
  case (Cons b bs)
  have "ctx_ok (input_byte c b) (m @ [b])" using input_byte_ok [OF Cons.prems(1)] Cons.prems(2) by simp
  moreover have "Corrupted c = 0" using Cons.prems(1) by (simp add: ctx_ok_def)
  ultimately show ?case using Cons.IH [of "input_byte c b" "m @ [b]"] Cons.prems(2) by simp
qed simp

section \<open>Padding\<close>

lemma zero_to_fill:
  "Message_Block_Index c \<le> n \<Longrightarrow> n \<le> length (Message_Block c) \<Longrightarrow>
   zero_to n c = c\<lparr>Message_Block := take (Message_Block_Index c) (Message_Block c) @ replicate (n - Message_Block_Index c) 0 @ drop n (Message_Block c),
     Message_Block_Index := n\<rparr>"
proof (induction n c rule: zero_to.induct)
  case (1 n c)
  show ?case
  proof (cases "Message_Block_Index c < n")
    case True
    let ?i = "Message_Block_Index c" and ?M = "Message_Block c"
    have "take (?i + 1) (?M[?i := 0]) @ replicate (n - (?i + 1)) 0 @ drop n (?M[?i := 0]) = take ?i ?M @ replicate (n - ?i) 0 @ drop n ?M"
      using True 1(3) by (simp add: take_Suc_conv_app_nth Suc_diff_Suc flip: replicate_Suc)
    then show ?thesis using 1 True by (subst zero_to.simps) (simp add: put_byte_def)
  next
    case False
    then show ?thesis using 1(2) by (subst zero_to.simps) simp
  qed
qed

lemma nat_be_4: "nat_be 4 n = [of_nat (n div 2 ^ 24), of_nat (n div 2 ^ 16), of_nat (n div 2 ^ 8), of_nat n]"
  by (simp add: nat_be_def upt_rec)

lemma nat_be_8: "nat_be 8 n = [of_nat (n div (2 ^ 32 * 2 ^ 24)), of_nat (n div (2 ^ 32 * 2 ^ 16)), of_nat (n div (2 ^ 32 * 2 ^ 8)), of_nat (n div 2 ^ 32),
    of_nat (n div 2 ^ 24), of_nat (n div 2 ^ 16), of_nat (n div 2 ^ 8), of_nat n]"
  by (simp add: nat_be_def upt_rec)

lemma be_bytes_nat: "be_bytes w = nat_be 4 (unat w)"
proof -
  have "ucast (drop_bit k w) = (of_nat (unat w div 2 ^ k) :: byte)" for k
  proof -
    have "(ucast (drop_bit k w) :: byte) = of_nat (unat (drop_bit k w))" by simp
    also have "unat (drop_bit k w) = unat w div 2 ^ k" unfolding unat_drop_bit_eq by (rule drop_bit_eq_div)
    finally show ?thesis .
  qed
  from this [of 24] this [of 16] this [of 8] show ?thesis by (simp add: be_bytes_def nat_be_4)
qed

lemma nat_be_split:
  assumes "l < 2 ^ 32"
  shows "nat_be 8 (h * 2 ^ 32 + l) = nat_be 4 h @ nat_be 4 l"
proof -
  let ?n = "h * 2 ^ 32 + l"
  have "?n div 2 ^ 32 = h" using assms by simp
  then have hi: "?n div (2 ^ 32 * k) = h div k" for k by (simp only: div_mult2_eq)
  have lo: "(of_nat (?n div 2 ^ j) :: byte) = of_nat (l div 2 ^ j)" if "j \<le> 24" for j
  proof -
    define i where "i = 24 - j"
    have i: "24 = j + i" using that by (simp add: i_def)
    have "(2 :: nat) ^ 32 = 256 * 2 ^ i * 2 ^ j" 
    proof -
      have "(2 :: nat) ^ 32 = 256 * 2 ^ 24" by simp
      also have "(2 :: nat) ^ 24 = 2 ^ i * 2 ^ j" unfolding i by (simp only: power_add mult.commute)
      finally show ?thesis by (simp only: mult.assoc)
    qed
    then have "?n = h * (256 * 2 ^ i) * 2 ^ j + l" by (simp only: mult.assoc)
    then have "?n div 2 ^ j = h * (256 * 2 ^ i) + l div 2 ^ j" using div_mult_self3 [of "2 ^ j" "h * (256 * 2 ^ i)" l] by (simp only: power_not_zero) simp
    moreover have "(256 :: byte) = 0" by simp
    then have "(of_nat (h * (256 * 2 ^ i)) :: byte) = 0" by (simp only: of_nat_mult of_nat_numeral mult_zero_left mult_zero_right)
    ultimately show ?thesis by (simp only: of_nat_add add_0)
  qed
  have "of_nat ?n = (of_nat l :: byte)" using lo [of 0] by simp
  then show ?thesis
    using lo [of 24] lo [of 16] lo [of 8] \<open>?n div 2 ^ 32 = h\<close> unfolding nat_be_8 nat_be_4 hi by (simp only: append.simps le_refl)
qed

lemma length_bytes: "bits_of c = n \<Longrightarrow> be_bytes (Length_High c) @ be_bytes (Length_Low c) = nat_be 8 n"
  using nat_be_split [OF u32_bound, of "unat (Length_High c)" "Length_Low c"] by (simp add: be_bytes_nat bits_of_def)

lemma pad_count:
  assumes "i \<le> 55"
  shows "(119 - i) mod 64 = 55 - (i :: nat)"
proof -
  have "119 - i = 55 - i + 64" using assms by simp
  then have "(119 - i) mod 64 = (55 - i) mod 64" by (simp only: mod_add_self2)
  also have "\<dots> = 55 - i" by (rule mod_less) simp
  finally show ?thesis .
qed

lemma two_blocks: "length x = 64 \<Longrightarrow> length y = 64 \<Longrightarrow> sha_blocks (x @ y) v = sha_compress y (sha_compress x v)"
  using sha_blocks_append [of x y v] by (simp add: one_block)

text \<open>The last block, from the first 56 bytes.\<close>

lemma last_block:
  assumes "length (Message_Block c) = 64" "bits_of c = n"
  shows "hash_of (SHA1ProcessMessageBlock (c\<lparr>Message_Block := take 56 (Message_Block c) @ be_bytes (Length_High c) @ be_bytes (Length_Low c)\<rparr>)) =
    sha_compress (take 56 (Message_Block c) @ nat_be 8 n) (hash_of c)" (is "hash_of (SHA1ProcessMessageBlock ?c) = _")
    "Corrupted (SHA1ProcessMessageBlock (c\<lparr>Message_Block := take 56 (Message_Block c) @ be_bytes (Length_High c) @ be_bytes (Length_Low c)\<rparr>)) = Corrupted c"
    "length (Intermediate_Hash (SHA1ProcessMessageBlock (c\<lparr>Message_Block := take 56 (Message_Block c) @ be_bytes (Length_High c) @ be_bytes (Length_Low c)\<rparr>))) = 5"
proof -
  have l: "length (Message_Block ?c) = 64" using assms(1) by (simp add: be_bytes_def)
  have "hash_of ?c = hash_of c" by (simp add: hash_of_def)
  then show "hash_of (SHA1ProcessMessageBlock ?c) = sha_compress (take 56 (Message_Block c) @ nat_be 8 n) (hash_of c)"
    using process_block(1) [OF l] length_bytes [OF assms(2)] by simp
  show "Corrupted (SHA1ProcessMessageBlock ?c) = Corrupted c" "length (Intermediate_Hash (SHA1ProcessMessageBlock ?c)) = 5"
    using process_block(2) [OF l] by auto
qed

lemma pad_ok:
  assumes "ctx_ok c m"
  shows "hash_of (SHA1PadMessage c) = sha_blocks (sha_pad m) IV" "length (Intermediate_Hash (SHA1PadMessage c)) = 5" "Corrupted (SHA1PadMessage c) = 0"
proof -
  let ?i = "length m mod 64" and ?r = "sha_rest m" and ?L = "nat_be 8 (8 * length m)"
  define M where "M = Message_Block c"
  have c: "hash_of c = sha_blocks m IV" "length M = 64" "Message_Block_Index c = ?i" "take ?i M = ?r" "bits_of c = 8 * length m" "Corrupted c = 0"
    using assms unfolding ctx_ok_def M_def by auto
  have i: "?i < 64" by simp
  have L: "length ?L = 8" by (simp add: nat_be_def)
  define c1 where "c1 = put_byte 0x80 c"
  have c1: "c1 = c\<lparr>Message_Block := M[?i := 0x80], Message_Block_Index := ?i + 1\<rparr>" using c by (simp add: c1_def put_byte_def M_def)
  have t1: "take (?i + 1) (M[?i := 0x80]) = ?r @ [0x80]" using c by simp
  have pad: "sha_blocks (sha_pad m) IV = sha_blocks (?r @ [0x80] @ replicate ((119 - ?i) mod 64) 0 @ ?L) (sha_blocks m IV)"
    unfolding sha_pad_def by (rule sha_blocks_append)
  have "hash_of (SHA1PadMessage c) = sha_blocks (sha_pad m) IV \<and> length (Intermediate_Hash (SHA1PadMessage c)) = 5 \<and> Corrupted (SHA1PadMessage c) = 0"
  proof (cases "?i > 55")
    case False
    define z where "z = ?r @ [0x80] @ replicate (55 - ?i) 0"
    have z: "length z = 56" using False by (simp add: z_def)
    have "zero_to 56 c1 = c1\<lparr>Message_Block := z @ drop 56 (M[?i := 0x80]), Message_Block_Index := 56\<rparr>"
      using zero_to_fill [of c1 56] False c(2) t1 by (simp add: c1 z_def)
    moreover define c2 where "c2 = zero_to 56 c1"
    ultimately have c2: "Message_Block c2 = z @ drop 56 (M[?i := 0x80])" "bits_of c2 = 8 * length m" "hash_of c2 = sha_blocks m IV" "Corrupted c2 = 0"
      using c by (simp_all add: c1 bits_of_def hash_of_def)
    have l2: "length (Message_Block c2) = 64" "take 56 (Message_Block c2) = z" using c2(1) z c(2) by simp_all
    have p: "SHA1PadMessage c = SHA1ProcessMessageBlock (c2\<lparr>Message_Block := take 56 (Message_Block c2) @ be_bytes (Length_High c2) @ be_bytes (Length_Low c2)\<rparr>)"
      using False c(3) by (simp add: SHA1PadMessage_def c2_def c1_def Let_def)
    have "(119 - ?i) mod 64 = 55 - ?i" using False by (intro pad_count) simp
    then have "sha_blocks (sha_pad m) IV = sha_compress (z @ ?L) (sha_blocks m IV)"
      unfolding pad using one_block(1) [of "z @ ?L"] z L by (simp add: z_def)
    then show ?thesis unfolding p using last_block [OF l2(1) c2(2)] c2(3,4) l2(2) by simp
  next
    case True
    define z where "z = ?r @ [0x80] @ replicate (63 - ?i) 0"
    have z: "length z = 64" using True i by (simp add: z_def)
    have z1: "zero_to 64 c1 = c1\<lparr>Message_Block := z, Message_Block_Index := 64\<rparr>"
      using zero_to_fill [of c1 64] i c(2) t1 by (simp add: c1 z_def)
    define c2 where "c2 = SHA1ProcessMessageBlock (zero_to 64 c1)"
    have l1: "length (Message_Block (zero_to 64 c1)) = 64" using z z1 by simp
    obtain H where "c2 = (zero_to 64 c1)\<lparr>Intermediate_Hash := H, Message_Block_Index := 0\<rparr>" using process_block(2) [OF l1] c2_def by blast
    then have H: "c2 = c1\<lparr>Message_Block := z, Intermediate_Hash := H, Message_Block_Index := 0\<rparr>" unfolding z1 by simp
    have h2: "hash_of c2 = sha_compress z (sha_blocks m IV)"
      using process_block(1) [OF l1] c(1) unfolding c2_def z1 by (simp add: c1 hash_of_def)
    define c3 where "c3 = zero_to 56 c2"
    have "c3 = c2\<lparr>Message_Block := replicate 56 0 @ drop 56 z, Message_Block_Index := 56\<rparr>"
      unfolding c3_def using zero_to_fill [of c2 56] z by (simp add: H)
    then have c3: "Message_Block c3 = replicate 56 0 @ drop 56 z" "bits_of c3 = 8 * length m" "hash_of c3 = sha_compress z (sha_blocks m IV)" "Corrupted c3 = 0"
      using c h2 by (simp_all add: H c1 bits_of_def hash_of_def)
    have l3: "length (Message_Block c3) = 64" "take 56 (Message_Block c3) = replicate 56 0" using c3(1) z by simp_all
    have p: "SHA1PadMessage c = SHA1ProcessMessageBlock (c3\<lparr>Message_Block := take 56 (Message_Block c3) @ be_bytes (Length_High c3) @ be_bytes (Length_Low c3)\<rparr>)"
      using True c(3) by (simp add: SHA1PadMessage_def c3_def c2_def c1_def Let_def)
    have "(119 - ?i) mod 64 = (63 - ?i) + 56" using True i by simp
    then have eq: "?r @ [0x80] @ replicate ((119 - ?i) mod 64) 0 @ ?L = z @ replicate 56 0 @ ?L" by (simp only: z_def replicate_add append_assoc)
    have "sha_blocks (sha_pad m) IV = sha_compress (replicate 56 0 @ ?L) (sha_compress z (sha_blocks m IV))"
      unfolding pad eq using two_blocks [of z "replicate 56 0 @ ?L"] z L by simp
    then show ?thesis unfolding p using last_block [OF l3(1) c3(2)] c3(3,4) l3(2) by simp
  qed
  then show "hash_of (SHA1PadMessage c) = sha_blocks (sha_pad m) IV" "length (Intermediate_Hash (SHA1PadMessage c)) = 5" "Corrupted (SHA1PadMessage c) = 0"
    by blast+
qed

section \<open>The digest\<close>

lemma digest_bytes:
  "map (\<lambda>i. ucast (drop_bit (8 * (3 - i mod 4)) (H ! (i div 4)))) [0..<20] =
   concat (map be_bytes [H ! 0, H ! 1, H ! 2, H ! 3, H ! 4])"
  by (simp add: be_bytes_def upt_rec)

lemma result_ok:
  assumes "ctx_ok c m"
  shows "fst (SHA1Result c) = shaSuccess \<and> fst (snd (SHA1Result c)) = sha1 m"
proof -
  define H where "H = Intermediate_Hash (SHA1PadMessage c)"
  have "sha_blocks (sha_pad m) IV = (H ! 0, H ! 1, H ! 2, H ! 3, H ! 4)"
    using pad_ok(1) [OF assms] by (simp add: hash_of_def H_def Let_def)
  then have "sha1 m = concat (map be_bytes [H ! 0, H ! 1, H ! 2, H ! 3, H ! 4])" by (simp add: sha1_def be_bytes_nat)
  moreover have "SHA1Result c = (shaSuccess, map (\<lambda>i. ucast (drop_bit (8 * (3 - i mod 4)) (H ! (i div 4)))) [0..<20],
      (SHA1PadMessage c)\<lparr>Message_Block := replicate 64 0, Length_Low := 0, Length_High := 0, Computed := True\<rparr>)"
    using assms by (simp add: SHA1Result_def ctx_ok_def H_def Let_def del: upt_rec_numeral)
  ultimately show ?thesis using digest_bytes by simp
qed


lemma length_sha1 [simp]: "length (sha1 m) = 20"
  by (simp add: sha1_def nat_be_4 split: prod.splits)

lemma base16_digest: "length d = 20 \<Longrightarrow> DigestToBase16 d = encode16 d"
proof -
  assume d: "length d = 20"
  then have "d = map (nth d) [0..<20]" using map_nth [of d] by simp
  then have "encode16 d = concat (map (\<lambda>c. [zEncode ! unat (drop_bit 4 c), zEncode ! unat (c AND 0xf)]) (map (nth d) [0..<20]))"
    unfolding encode16_def by simp
  then show ?thesis by (simp only: DigestToBase16_def high_nibble_mask map_map comp_def)
qed

lemma step_text_ok:
  assumes "incrInit s" "ctx_ok (incrCtx s) m" "8 * length (m @ t) < 2 ^ 64"
  shows "incrInit (sha1sum_step_text t (int (length t)) s)" "ctx_ok (incrCtx (sha1sum_step_text t (int (length t)) s)) (m @ t)"
  using assms input_loop_ok [OF assms(2), of t]
  by (auto simp: sha1sum_step_text_def SHA1Input_def ctx_ok_def [of "incrCtx s"])

lemma first_step: "\<not> incrInit s \<Longrightarrow> sha1sum_step_text t n s = sha1sum_step_text t n (s\<lparr>incrCtx := SHA1Reset (incrCtx s), incrInit := True\<rparr>)"
  by (simp add: sha1sum_step_text_def)

lemma steps_ok:
  "incrInit s \<Longrightarrow> ctx_ok (incrCtx s) m \<Longrightarrow> 8 * length (m @ concat texts) < 2 ^ 64 \<Longrightarrow>
   ctx_ok (incrCtx (foldl (\<lambda>s t. sha1sum_step_text t (int (length t)) s) s texts)) (m @ concat texts) \<and>
   incrInit (foldl (\<lambda>s t. sha1sum_step_text t (int (length t)) s) s texts)"
proof (induction texts arbitrary: s m)
  case (Cons t texts)
  then show ?case using step_text_ok [of s m t] Cons.IH [of "sha1sum_step_text t (int (length t)) s" "m @ t"] by simp
qed simp

lemma finish_ok:
  assumes "incrInit s" "ctx_ok (incrCtx s) m"
  shows "fst (sha1sum_finish s) = Some (encode16 (sha1 m)) \<and> \<not> incrInit (snd (sha1sum_finish s)) \<and>
    length (Message_Block (incrCtx (snd (sha1sum_finish s)))) = 64"
proof -
  obtain rc z c where r: "SHA1Result (incrCtx s) = (rc, z, c)" by (cases "SHA1Result (incrCtx s)")
  have "rc = shaSuccess" "z = sha1 m" using result_ok [OF assms(2)] r by auto
  moreover have "length (Message_Block c) = 64"
    using r assms(2) by (auto simp: SHA1Result_def ctx_ok_def Let_def split: if_splits)
  ultimately show ?thesis using assms(1) r by (simp add: sha1sum_finish_def sha1sum_step_text_def base16_digest Let_def)
qed

lemma sha1sum_run:
  assumes "\<not> incrInit s" "length (Message_Block (incrCtx s)) = 64" "8 * length (concat texts) < 2 ^ 64"
  shows "case sha1sum_finish (foldl (\<lambda>s t. sha1sum_step_text t (int (length t)) s) s texts) of
    (r, s') \<Rightarrow> r = Some (encode16 (sha1 (concat texts))) \<and> \<not> incrInit s' \<and> length (Message_Block (incrCtx s')) = 64"
proof -
  let ?step = "\<lambda>s t. sha1sum_step_text t (int (length t)) s"
  let ?s = "s\<lparr>incrCtx := SHA1Reset (incrCtx s), incrInit := True\<rparr>"
  have "ctx_ok (incrCtx ?s) []" using reset_ok [OF assms(2)] by simp
  then have ok: "ctx_ok (incrCtx (foldl ?step ?s texts)) (concat texts)" "incrInit (foldl ?step ?s texts)"
    using steps_ok [of ?s "[]" texts] assms(3) by simp_all
  have "sha1sum_finish (foldl ?step s texts) = sha1sum_finish (foldl ?step ?s texts)"
  proof (cases texts)
    case Nil
    then show ?thesis using assms(1) first_step [of s] by (simp add: sha1sum_finish_def)
  qed (use assms(1) first_step [of s] in simp)
  then show ?thesis using finish_ok [OF ok(2,1)] by (simp add: case_prod_beta)
qed

section \<open>Properties\<close>

text \<open>
  C37: whatever texts are added one after the other, however they are cut, the finished checksum is the
  hexadecimal form of the SHA-1 digest (as in the standard) of their concatenation, as long as it is shorter than
  \<open>2 ^ 64\<close> bits; the generator is then ready for the next computation.
\<close>

theorem sha1sum_correct:
  assumes "\<not> incrInit s" "length (Message_Block (incrCtx s)) = 64" "8 * length (concat texts) < 2 ^ 64"
  shows "case sha1sum_finish (foldl (\<lambda>s t. sha1sum_step_text t (int (length t)) s) s texts) of
    (r, s') \<Rightarrow> r = Some (encode16 (sha1 (concat texts))) \<and> \<not> incrInit s' \<and> length (Message_Block (incrCtx s')) = 64"
  using sha1sum_run [OF assms] .

lemma sha1sum_correct_witness:
  "case sha1sum_finish (sha1sum_step_text [0x62, 0x63] 2 (sha1sum_step_text [0x61] 1
     \<lparr>incrCtx = \<lparr>Intermediate_Hash = [], Length_Low = 0, Length_High = 0, Message_Block_Index = 0,
       Message_Block = replicate 64 0, Computed = False, Corrupted = 0\<rparr>, incrInit = False\<rparr>)) of
    (r, s') \<Rightarrow> r = Some (encode16 (sha1 [0x61, 0x62, 0x63])) \<and> \<not> incrInit s' \<and> length (Message_Block (incrCtx s')) = 64"
  using sha1sum_correct [of "\<lparr>incrCtx = \<lparr>Intermediate_Hash = [], Length_Low = 0, Length_High = 0, Message_Block_Index = 0,
    Message_Block = replicate 64 0, Computed = False, Corrupted = 0\<rparr>, incrInit = False\<rparr>" "[[0x61], [0x62, 0x63]]"] by simp

end
