(* ===== verification/Sheet_Hash.thy ===== *)
theory Sheet_Hash
  imports Csv_Sheet_Correct Sha1_Correct
begin

text \<open>
  The checksum of a sheet, \<open>DataSheet::getHash\<close> (\<^verbatim>\<open>libcoopy_core/DataSheet.cpp\<close>), on CSV sheets, which inherit
  \<open>getRawHash\<close>.  The rows are given to the SHA-1 generator one by one; the result is kept in \<open>hash_cache\<close>.
  Comparisons of sheets take equal checksums for equal sheets.
\<close>

section \<open>The model\<close>

record hash_state =
  hash_cache :: "byte list"
  sha :: sha1_state

definition getRawHash :: "csv_sheet \<Rightarrow> byte list" where
  "getRawHash c = []"

definition cell_hash_text :: "sheet_cell \<Rightarrow> byte list" where
  "cell_hash_text v = (if escaped v then [0x4e] else 0x58 # ctext v)"

definition row_hash_text :: "int \<Rightarrow> csv_sheet \<Rightarrow> byte list option" where
  "row_hash_text y c = map_option (\<lambda>cells. concat (map cell_hash_text cells)) (cells_of_row (nat (width (ts c))) 0 y c)"

definition sha1_add :: "byte list \<Rightarrow> sha1_state \<Rightarrow> sha1_state" where
  "sha1_add str = sha1sum_step_text str (int (length str))"

fun hash_rows :: "nat \<Rightarrow> int \<Rightarrow> csv_sheet \<Rightarrow> sha1_state \<Rightarrow> sha1_state option" where
  "hash_rows 0 y c s = Some s"
| "hash_rows (Suc n) y c s = Option.bind (row_hash_text y c) (\<lambda>t. hash_rows n (y + 1) c (sha1_add t s))"

definition getHash :: "bool \<Rightarrow> csv_sheet \<Rightarrow> hash_state \<Rightarrow> (byte list \<times> hash_state) option" where
  "getHash cache c st =
     (let st = (if \<not> cache then st\<lparr>hash_cache := []\<rparr> else st) in
      if hash_cache st \<noteq> [] then Some (hash_cache st, st)
      else let st = st\<lparr>hash_cache := getRawHash c\<rparr> in
        if hash_cache st \<noteq> [] then Some (hash_cache st, st)
        else Option.bind (hash_rows (nat (height (ts c))) 0 c (sha st)) (\<lambda>s.
          case sha1sum_finish s of
            (None, s) \<Rightarrow> None
          | (Some key, s) \<Rightarrow> Some (key, if cache then st\<lparr>hash_cache := key, sha := s\<rparr> else st\<lparr>sha := s\<rparr>)))"

section \<open>The rows\<close>

definition sheet_bytes :: "(byte list \<times> bool) list list \<Rightarrow> byte list" where
  "sheet_bytes rows = concat (map (\<lambda>x. if snd x then [0x4e] else 0x58 # fst x) (concat rows))"

definition row_bytes :: "(byte list \<times> bool) list \<Rightarrow> byte list" where
  "row_bytes r = concat (map (\<lambda>x. if snd x then [0x4e] else 0x58 # fst x) r)"

lemma sheet_bytes_rows: "sheet_bytes rows = concat (map row_bytes rows)"
  by (induction rows) (simp_all add: sheet_bytes_def row_bytes_def)

lemma row_hash_text_eq:
  assumes "valid c" "sheet_ok (ts c)" "i < length (arr (ts c))"
  shows "row_hash_text (int i) c = Some (row_bytes (arr (ts c) ! i))"
proof -
  let ?r = "arr (ts c) ! i"
  have r: "vec_at (arr (ts c)) (int i) = Some ?r" using assms(3) by simp
  have len: "nat (width (ts c)) = length ?r" using sheet_ok_rows [OF assms(2), of ?r] assms(3) by (simp add: width_def)
  have "cells_of_row (length ?r) 0 (int i) c = Some (map cell_rec ?r)"
    using cells_of_row_eq [OF assms(1) r, of 0 "length ?r"] by simp
  then show ?thesis by (simp add: row_hash_text_def len row_bytes_def cell_hash_text_def cell_rec_def comp_def cong: if_cong)
qed

lemma hash_rows_eq:
  assumes "valid c" "sheet_ok (ts c)" "i + n \<le> length (arr (ts c))"
  shows "hash_rows n (int i) c s = Some (foldl (\<lambda>s t. sha1sum_step_text t (int (length t)) s) s (map row_bytes (take n (drop i (arr (ts c))))))"
  using assms(3)
proof (induction n arbitrary: i s)
  case (Suc n)
  then have i: "i < length (arr (ts c))" by simp
  have "take (Suc n) (drop i (arr (ts c))) = arr (ts c) ! i # take n (drop (Suc i) (arr (ts c)))"
    using i by (subst Cons_nth_drop_Suc [symmetric]) simp_all
  then show ?case using row_hash_text_eq [OF assms(1,2) i] Suc.IH [of "Suc i"] Suc.prems
    by (simp add: sha1_add_def add.commute)
qed simp

definition sha_ready :: "sha1_state \<Rightarrow> bool" where
  "sha_ready s \<longleftrightarrow> \<not> incrInit s \<and> length (Message_Block (incrCtx s)) = 64"

lemma getHash_fresh:
  assumes "valid c" "sheet_ok (ts c)" "sha_ready (sha st)" "8 * length (sheet_bytes (arr (ts c))) < 2 ^ 64" "\<not> cache \<or> hash_cache st = []"
  shows "\<exists>st'. getHash cache c st = Some (encode16 (sha1 (sheet_bytes (arr (ts c)))), st') \<and> sha_ready (sha st') \<and>
    hash_cache st' = (if cache then encode16 (sha1 (sheet_bytes (arr (ts c)))) else [])"
proof -
  let ?f = "foldl (\<lambda>s t. sha1sum_step_text t (int (length t)) s) (sha st) (map row_bytes (arr (ts c)))"
  obtain r s' where fin: "sha1sum_finish ?f = (r, s')" by (cases "sha1sum_finish ?f")
  have r: "r = Some (encode16 (sha1 (sheet_bytes (arr (ts c)))))" "sha_ready s'"
    using sha1sum_run [of "sha st" "map row_bytes (arr (ts c))"] assms(3,4) fin by (simp_all add: sheet_bytes_rows sha_ready_def)
  have "nat (height (ts c)) = length (arr (ts c))" using sheet_okD(1) [OF assms(2)] by (simp add: height_def)
  then have "hash_rows (nat (height (ts c))) 0 c (sha st) = Some ?f"
    using hash_rows_eq [OF assms(1,2), of 0 "length (arr (ts c))" "sha st"] by simp
  then show ?thesis using assms(5) fin r by (auto simp: getHash_def Let_def getRawHash_def)
qed

lemma getHash_cached: "hash_cache st \<noteq> [] \<Longrightarrow> getHash True c st = Some (hash_cache st, st)"
  by (simp add: getHash_def Let_def)

section \<open>Properties\<close>


definition demo_hash_state :: hash_state where
  "demo_hash_state = \<lparr>hash_cache = [], sha = \<lparr>incrCtx = \<lparr>Intermediate_Hash = [], Length_Low = 0, Length_High = 0,
     Message_Block_Index = 0, Message_Block = replicate 64 0, Computed = False, Corrupted = 0\<rparr>, incrInit = False\<rparr>\<rparr>"

definition demo_rows :: "(byte list \<times> bool) list list \<Rightarrow> csv_sheet" where
  "demo_rows rows = new_csv_sheet\<lparr>ts := \<lparr>arr = rows, h = int (length rows), w = int (length (hd rows)), zero = ([], False)\<rparr>\<rparr>"

lemma demo_rows_ok: "\<forall>r \<in> set rows. length r = length (hd rows) \<Longrightarrow> valid (demo_rows rows) \<and> sheet_ok (ts (demo_rows rows)) \<and> arr (ts (demo_rows rows)) = rows"
  by (auto simp: demo_rows_def new_csv_sheet_def sheet_ok_def)


section \<open>Limits\<close>

text \<open>Nothing separates cells or rows: these two sheets have the same checksum.\<close>

lemma getHash_collision:
  "map_option fst (getHash cache (demo_rows [[([0x61, 0x58, 0x62], False)]]) demo_hash_state) =
   map_option fst (getHash cache (demo_rows [[([0x61], False)], [([0x62], False)]]) demo_hash_state)"
  using getHash_fresh [of "demo_rows [[([0x61, 0x58, 0x62], False)]]" demo_hash_state cache]
    getHash_fresh [of "demo_rows [[([0x61], False)], [([0x62], False)]]" demo_hash_state cache]
    demo_rows_ok [of "[[([0x61, 0x58, 0x62], False)]]"] demo_rows_ok [of "[[([0x61], False)], [([0x62], False)]]"]
  by (auto simp: demo_hash_state_def sha_ready_def sheet_bytes_def)

text \<open>No operation on the cells clears the cache.\<close>

lemma getHash_stale:
  assumes "hash_cache st \<noteq> []"
  shows "map_option fst (getHash True c st) = map_option fst (getHash True c' st)"
  using assms by (simp add: getHash_cached)

end
