(* ===== verification/Mover.thy ===== *)
theory Mover
  imports Typed_Sheet
begin

text \<open>
  The search for few moves that reorder columns, \<^verbatim>\<open>libcoopy_core/Mover.cpp\<close> and \<^verbatim>\<open>Mover.h\<close>: each move takes an element
  to its place behind the element that precedes it in the order wanted; no element is moved twice.  The
  search goes depth first, gives up on branches longer than the best solution so far, and stops after a
  hundred improvements.  \<open>Merger::merge\<close> (\<^verbatim>\<open>libcoopy_core/Merger.cpp\<close>) carries the moves out.

  An iterator is the number of elements in front of it; erasing at the end of a vector or inserting
  behind it is an undefined access, \<open>None\<close>.
\<close>

section \<open>The model\<close>

record mover =
  solutions :: nat
  global_solved :: bool
  global_best_order :: "int list"

definition std_find :: "int list \<Rightarrow> int \<Rightarrow> nat" where
  "std_find v x = length (takeWhile (\<lambda>y. y \<noteq> x) v)"

text \<open>Whether the element at an index of \<open>dest\<close> has to move: to the start, or behind another element.\<close>

datatype move_plan = Stay | To_start | Behind int

definition plan_move :: "int list \<Rightarrow> int list \<Rightarrow> nat \<Rightarrow> move_plan" where
  "plan_move src dest i =
     (let it = std_find src (dest ! i) in
      if it = 0 then (if i \<noteq> 0 then Behind (dest ! (i - 1)) else Stay)
      else if i = 0 then To_start
      else if src ! (it - 1) \<noteq> dest ! (i - 1) then Behind (dest ! (i - 1))
      else Stay)"

definition apply_move :: "int \<Rightarrow> move_plan \<Rightarrow> int list \<Rightarrow> int list option" where
  "apply_move x p src = Option.bind (vec_erase src (int (std_find src x))) (\<lambda>nsrc.
     case p of Behind x2 \<Rightarrow> vec_insert nsrc (int (std_find nsrc x2) + 1) x | _ \<Rightarrow> Some (x # nsrc))"

definition note_solution :: "int list \<Rightarrow> mover \<Rightarrow> mover" where
  "note_solution norder m =
     (let m = m\<lparr>solutions := solutions m + 1\<rparr> in
      if length norder < length (global_best_order m) \<or> \<not> global_solved m
      then m\<lparr>global_best_order := norder, global_solved := True\<rparr> else m)"

function move :: "int list \<Rightarrow> int list \<Rightarrow> int list \<Rightarrow> int list \<Rightarrow> nat \<Rightarrow> mover \<Rightarrow> (bool \<times> int list \<times> mover) option"
  and move_loop :: "nat \<Rightarrow> int list \<Rightarrow> int list \<Rightarrow> int list \<Rightarrow> int list \<Rightarrow> nat \<Rightarrow> mover \<Rightarrow> int list \<Rightarrow> bool \<Rightarrow> (bool \<times> mover) option" where
  "move src dest order forbidden depth m0 =
     (let m = (if depth = 0 then m0\<lparr>global_solved := False, solutions := 0\<rparr> else m0) in
      if global_solved m \<and> depth > length (global_best_order m) then Some (False, order, m)
      else if solutions m > 100 then Some (False, order, m)
      else if src = dest then Some (True, order, m)
      else case move_loop 0 src dest order forbidden depth m [] False of
          None \<Rightarrow> None
        | Some (solved, m) \<Rightarrow> if solved then Some (True, global_best_order m, m) else Some (False, order, m))"
| "move_loop i src dest order forbidden depth m best_order solved =
     (if i \<ge> length dest then Some (solved, m)
      else let x = dest ! i; p = plan_move src dest i in
        if x \<in> set forbidden \<or> p = Stay then move_loop (Suc i) src dest order forbidden depth m best_order solved
        else case apply_move x p src of
            None \<Rightarrow> None
          | Some nsrc \<Rightarrow>
             (case move nsrc dest (order @ [x]) (forbidden @ [x]) (depth + 1) m of
                None \<Rightarrow> None
              | Some (ok, norder, m) \<Rightarrow>
                  if ok \<and> (length norder < length best_order \<or> \<not> solved)
                  then move_loop (Suc i) src dest order forbidden depth (note_solution norder m) norder True
                  else move_loop (Suc i) src dest order forbidden depth m best_order solved))"
  by pat_completeness (simp_all only: sum.inject prod.inject sum.distinct)
termination
proof (relation "measures [\<lambda>z. case z of Inl (src, dest, order, forbidden, depth, m) \<Rightarrow> card (set dest - set forbidden)
      | Inr (i, src, dest, order, forbidden, depth, m, best_order, solved) \<Rightarrow> card (set dest - set forbidden),
    \<lambda>z. case z of Inl (src, dest, order, forbidden, depth, m) \<Rightarrow> length dest + 1
      | Inr (i, src, dest, order, forbidden, depth, m, best_order, solved) \<Rightarrow> length dest - i]", goal_cases)
  case (3 i src dest)
  from 3(1) show ?case by simp
next
  case (4 i src dest order forbidden depth m best_order solved x p)
  have "x \<in> set dest" "x \<notin> set forbidden" using 4(1-4) by (simp_all add: not_le)
  then have "set dest - set (forbidden @ [x]) \<subset> set dest - set forbidden" by auto
  then show ?case by (simp add: psubset_card_mono)
next
  case (5 i src dest)
  from 5(1) show ?case by simp
next
  case (6 i src dest)
  from 6(1) show ?case by simp
qed simp_all

declare move.simps [simp del] move_loop.simps [simp del]

text \<open>The first call of a search.\<close>

definition move_columns :: "int list \<Rightarrow> int list \<Rightarrow> int list \<Rightarrow> mover \<Rightarrow> (bool \<times> int list \<times> mover) option" where
  "move_columns src dest order m = move src dest order [] 0 m"

subsection \<open>Carrying the moves out\<close>

datatype order_mode = ORDER_CHANGE_NONE | ORDER_CHANGE_DELETE | ORDER_CHANGE_INSERT | ORDER_CHANGE_MOVE | ORDER_CHANGE_RENAME

record order_change =
  indicesBefore :: "int list"
  namesBefore :: "byte list list"
  indicesAfter :: "int list"
  namesAfter :: "byte list list"
  subject :: int
  object_ :: int
  omode :: order_mode

text \<open>A column that is in neither order ends the program.\<close>

definition merge_move :: "int list \<Rightarrow> int \<Rightarrow> int list \<times> byte list list \<times> order_change list \<Rightarrow> (int list \<times> byte list list \<times> order_change list) option" where
  "merge_move shuffled_cols a = (\<lambda>(local_cols, local_col_names, cc).
     let idx = std_find local_cols a; idx2 = std_find shuffled_cols a in
     if idx = length local_cols \<or> idx2 = length shuffled_cols then None
     else Option.bind (vec_at local_col_names (int idx)) (\<lambda>name.
       Option.bind (Option.bind (vec_erase local_cols (int idx)) (\<lambda>v. vec_insert v (int idx2) a)) (\<lambda>cols.
       Option.bind (Option.bind (vec_erase local_col_names (int idx)) (\<lambda>v. vec_insert v (int idx2) name)) (\<lambda>names.
       let change = \<lparr>indicesBefore = local_cols, namesBefore = local_col_names, indicesAfter = cols, namesAfter = names,
                    subject = local_cols ! idx, object_ = shuffled_cols ! idx2, omode = ORDER_CHANGE_MOVE\<rparr>
       in Some (cols, names, if namesBefore change \<noteq> namesAfter change then cc @ [change] else cc)))))"

fun merge_moves :: "int list \<Rightarrow> int list \<Rightarrow> int list \<times> byte list list \<times> order_change list \<Rightarrow> (int list \<times> byte list list \<times> order_change list) option" where
  "merge_moves shuffled_cols [] st = Some st"
| "merge_moves shuffled_cols (a # move_order) st = Option.bind (merge_move shuffled_cols a st) (merge_moves shuffled_cols move_order)"

section \<open>Moving behind a predecessor\<close>

fun insert_behind :: "int \<Rightarrow> int \<Rightarrow> int list \<Rightarrow> int list" where
  "insert_behind p a [] = [a]"
| "insert_behind p a (y # ys) = (if y = p then y # a # ys else y # insert_behind p a ys)"

definition place :: "int list \<Rightarrow> int \<Rightarrow> int list \<Rightarrow> int list" where
  "place dest a src = (let i = std_find dest a in
     if i = 0 then a # remove1 a src else insert_behind (dest ! (i - 1)) a (remove1 a src))"

fun carry_out :: "int list \<Rightarrow> int list \<Rightarrow> int list \<Rightarrow> int list" where
  "carry_out dest [] src = src"
| "carry_out dest (a # as) src = carry_out dest as (place dest a src)"

lemma carry_out_snoc [simp]: "carry_out dest (as @ [a]) src = place dest a (carry_out dest as src)"
  by (induction as arbitrary: src) simp_all

lemma mset_insert_behind [simp]: "mset (insert_behind p a xs) = add_mset a (mset xs)"
  by (induction xs) auto

lemma mset_place: "a \<in> set src \<Longrightarrow> mset (place dest a src) = mset src"
  by (simp add: place_def Let_def)

lemma std_find_nth: "distinct v \<Longrightarrow> i < length v \<Longrightarrow> std_find v (v ! i) = i"
proof (induction v arbitrary: i)
  case (Cons y ys)
  then show ?case by (cases i) (auto simp: std_find_def)
qed simp

lemma std_find_less: "x \<in> set v \<longleftrightarrow> std_find v x < length v"
  by (induction v) (auto simp: std_find_def)

lemma std_find_at: "x \<in> set v \<Longrightarrow> v ! std_find v x = x"
  by (induction v) (auto simp: std_find_def)

lemma erase_first: "x \<in> set v \<Longrightarrow> vec_erase v (int (std_find v x)) = Some (remove1 x v)"
proof (induction v)
  case (Cons y ys)
  then show ?case by (auto simp: vec_erase_def std_find_def split: if_splits)
qed simp

lemma insert_first: "p \<in> set v \<Longrightarrow> vec_insert v (int (std_find v p) + 1) x = Some (insert_behind p x v)"
proof (induction v)
  case (Cons y ys)
  then show ?case by (auto simp: vec_insert_def std_find_def nat_add_distrib split: if_splits)
qed simp

lemma apply_move_place:
  assumes "distinct dest" "mset src = mset dest" "i < length dest" "plan_move src dest i \<noteq> Stay"
  shows "apply_move (dest ! i) (plan_move src dest i) src = Some (place dest (dest ! i) src)"
proof -
  let ?x = "dest ! i"
  have x: "?x \<in> set src" using assms(2,3) by (metis mset_eq_setD nth_mem)
  have i: "std_find dest ?x = i" using std_find_nth [OF assms(1,3)] .
  have pred: "dest ! (i - 1) \<in> set (remove1 ?x src)" if "i \<noteq> 0"
  proof -
    have "dest ! (i - 1) \<noteq> ?x" "dest ! (i - 1) \<in> set src"
      using that assms by (auto simp: nth_eq_iff_index_eq dest: mset_eq_setD)
    then show ?thesis by simp
  qed
  have "plan_move src dest i = (if i = 0 then To_start else Behind (dest ! (i - 1)))"
    using assms(4) by (auto simp: plan_move_def Let_def split: if_splits)
  then show ?thesis using erase_first [OF x] insert_first [OF pred] by (simp add: apply_move_def place_def i)
qed

end
