(* ===== verification/Sparse_Sheet.thy ===== *)
theory Sparse_Sheet
  imports Main
begin

text \<open>
  The sparse sheet of \<^verbatim>\<open>libcoopy_core/include/coopy/SparseSheet.h\<close>: a hash table from \<open>y * w + x\<close> to the cells
  that were touched, and for every row and column the set of the cells touched there.  A reference to
  a cell (the non-constant \<open>cell\<close>) creates it; reading through it is \<open>cell_const\<close> after \<open>cell_touch\<close>, and
  an assignment to it is \<open>cell_assign\<close>.  The hash tables are maps.
\<close>

section \<open>The model\<close>

record 'a SparseSheet =
  sp_zero :: 'a
  sp_data :: "int \<rightharpoonup> 'a"
  sp_row :: "int \<rightharpoonup> int set"
  sp_col :: "int \<rightharpoonup> int set"
  sp_h :: int
  sp_w :: int

text \<open>The member \<open>zero\<close> of a new sheet is not initialized: it is an argument.\<close>

definition new_SparseSheet :: "'a \<Rightarrow> 'a SparseSheet" where
  "new_SparseSheet z = \<lparr>sp_zero = z, sp_data = Map.empty, sp_row = Map.empty, sp_col = Map.empty, sp_h = 0, sp_w = 0\<rparr>"

definition sparse_resize :: "int \<Rightarrow> int \<Rightarrow> 'a \<Rightarrow> 'a SparseSheet \<Rightarrow> 'a SparseSheet" where
  "sparse_resize w h z s = s\<lparr>sp_data := Map.empty, sp_row := Map.empty, sp_col := Map.empty, sp_zero := z, sp_h := h, sp_w := w\<rparr>"

definition sparse_grow :: "int \<Rightarrow> int \<Rightarrow> 'a \<Rightarrow> 'a SparseSheet \<Rightarrow> 'a SparseSheet" where
  "sparse_grow w h z s = s\<lparr>sp_zero := z, sp_h := h, sp_w := w\<rparr>"

definition reheight :: "int \<Rightarrow> 'a SparseSheet \<Rightarrow> 'a SparseSheet" where
  "reheight h s = (if h \<ge> sp_h s then s\<lparr>sp_h := h\<rparr> else s)"

definition sparse_clear :: "'a SparseSheet \<Rightarrow> 'a SparseSheet" where
  "sparse_clear s = s\<lparr>sp_data := Map.empty, sp_row := Map.empty, sp_col := Map.empty\<rparr>"

definition cell_key :: "int \<Rightarrow> int \<Rightarrow> 'a SparseSheet \<Rightarrow> int" where
  "cell_key x y s = y * sp_w s + x"

definition pcell :: "int \<Rightarrow> int \<Rightarrow> 'a SparseSheet \<Rightarrow> 'a option" where
  "pcell x y s = sp_data s (cell_key x y s)"

definition cell_const :: "int \<Rightarrow> int \<Rightarrow> 'a SparseSheet \<Rightarrow> 'a" where
  "cell_const x y s = (case sp_data s (cell_key x y s) of None \<Rightarrow> sp_zero s | Some v \<Rightarrow> v)"

definition set_insert_at :: "int \<Rightarrow> int \<Rightarrow> (int \<rightharpoonup> int set) \<Rightarrow> int \<rightharpoonup> int set" where
  "set_insert_at k x m = m(k \<mapsto> insert x (case m k of None \<Rightarrow> {} | Some A \<Rightarrow> A))"

definition cell_touch :: "int \<Rightarrow> int \<Rightarrow> 'a SparseSheet \<Rightarrow> 'a SparseSheet" where
  "cell_touch x y s =
     (case sp_data s (cell_key x y s) of
        None \<Rightarrow> s\<lparr>sp_data := (sp_data s)(cell_key x y s \<mapsto> sp_zero s),
                 sp_row := set_insert_at y x (sp_row s), sp_col := set_insert_at x y (sp_col s)\<rparr>
      | Some v \<Rightarrow> s)"

definition cell_assign :: "int \<Rightarrow> int \<Rightarrow> 'a \<Rightarrow> 'a SparseSheet \<Rightarrow> 'a SparseSheet" where
  "cell_assign x y v s = (let s = cell_touch x y s in s\<lparr>sp_data := (sp_data s)(cell_key x y s \<mapsto> v)\<rparr>)"

definition sparse_remove :: "int \<Rightarrow> int \<Rightarrow> 'a SparseSheet \<Rightarrow> bool \<times> 'a SparseSheet" where
  "sparse_remove x y s =
     (if sp_data s (cell_key x y s) \<noteq> None then (True, s\<lparr>sp_data := (sp_data s)(cell_key x y s := None)\<rparr>) else (False, s))"

definition getCellsInRow :: "int \<Rightarrow> 'a SparseSheet \<Rightarrow> int set" where
  "getCellsInRow y s = (case sp_row s y of None \<Rightarrow> {} | Some A \<Rightarrow> A)"

definition getCellsInCol :: "int \<Rightarrow> 'a SparseSheet \<Rightarrow> int set" where
  "getCellsInCol x s = (case sp_col s x of None \<Rightarrow> {} | Some A \<Rightarrow> A)"

section \<open>Cells\<close>

lemma sp_w_simps [simp]:
  "sp_w (cell_touch x y s) = sp_w s" "sp_w (cell_assign x y v s) = sp_w s"
  "sp_w (sparse_resize w h z s) = w" "sp_w (sparse_grow w h z s) = w"
  "sp_zero (cell_touch x y s) = sp_zero s" "sp_zero (cell_assign x y v s) = sp_zero s"
  "sp_zero (sparse_resize w h z s) = z" "sp_zero (sparse_grow w h z s) = z"
  by (simp_all add: cell_touch_def cell_assign_def sparse_resize_def sparse_grow_def Let_def split: option.split)

lemma cell_const_touch [simp]: "cell_const x y (cell_touch a b s) = cell_const x y s"
  by (auto simp: cell_const_def cell_touch_def cell_key_def split: option.split)

lemma cell_const_resize [simp]: "cell_const x y (sparse_resize w h z s) = z"
  by (simp add: cell_const_def sparse_resize_def)

text \<open>Keeping the width keeps the cells.\<close>

lemma cell_const_grow [simp]:
  "w = sp_w s \<Longrightarrow> z = sp_zero s \<Longrightarrow> cell_const x y (sparse_grow w h z s) = cell_const x y s"
  by (simp add: cell_const_def sparse_grow_def cell_key_def split: option.split)

lemma key_unique:
  fixes w :: int
  assumes "0 \<le> x" "x < w" "0 \<le> x'" "x' < w" "y * w + x = y' * w + x'"
  shows "x = x' \<and> y = y'"
proof -
  have "x = (y * w + x) mod w" "x' = (y' * w + x') mod w" "y = (y * w + x) div w" "y' = (y' * w + x') div w"
    using assms(1-4) by simp_all
  then show ?thesis unfolding assms(5) by simp
qed

lemma sp_data_assign: "sp_data (cell_assign a b v s) = (sp_data s)(cell_key a b s \<mapsto> v)"
  by (cases "sp_data s (cell_key a b s)") (simp_all add: cell_assign_def cell_touch_def cell_key_def)

lemma cell_const_assign [simp]:
  assumes "0 \<le> x" "x < sp_w s" "0 \<le> a" "a < sp_w s"
  shows "cell_const x y (cell_assign a b v s) = (if x = a \<and> y = b then v else cell_const x y s)"
  using key_unique [OF assms, of y b] by (simp add: cell_const_def sp_data_assign cell_key_def split: option.split)

section \<open>Rows and columns\<close>

text \<open>The sets of touched cells agree with the table.\<close>

definition index_ok :: "'a SparseSheet \<Rightarrow> bool" where
  "index_ok s \<longleftrightarrow> (\<forall>x y. (x \<in> getCellsInRow y s \<longleftrightarrow> 0 \<le> x \<and> x < sp_w s \<and> pcell x y s \<noteq> None) \<and>
     (y \<in> getCellsInCol x s \<longleftrightarrow> 0 \<le> x \<and> x < sp_w s \<and> pcell x y s \<noteq> None))"

lemma index_ok_resize: "index_ok (sparse_resize w h z s)" "index_ok (sparse_clear s)"
  by (simp_all add: index_ok_def sparse_resize_def sparse_clear_def getCellsInRow_def getCellsInCol_def pcell_def)

lemma cells_touch:
  assumes "sp_data s (cell_key a b s) = None"
  shows "getCellsInRow y (cell_touch a b s) = (if y = b then insert a (getCellsInRow y s) else getCellsInRow y s)"
    "getCellsInCol x (cell_touch a b s) = (if x = a then insert b (getCellsInCol x s) else getCellsInCol x s)"
  using assms by (simp_all add: cell_touch_def getCellsInRow_def getCellsInCol_def set_insert_at_def split: option.split)

lemma pcell_touch:
  assumes "0 \<le> x" "x < sp_w s" "0 \<le> a" "a < sp_w s"
  shows "pcell x y (cell_touch a b s) = None \<longleftrightarrow> pcell x y s = None \<and> \<not> (x = a \<and> y = b)"
  using key_unique [OF assms, of y b] by (auto simp: pcell_def cell_touch_def cell_key_def split: option.split)

lemma index_ok_touch:
  assumes "index_ok s" "0 \<le> a" "a < sp_w s"
  shows "index_ok (cell_touch a b s)"
proof (cases "sp_data s (cell_key a b s)")
  case None
  show ?thesis unfolding index_ok_def
  proof (intro allI)
    fix x y
    have ok: "x \<in> getCellsInRow y s \<longleftrightarrow> 0 \<le> x \<and> x < sp_w s \<and> pcell x y s \<noteq> None"
        "y \<in> getCellsInCol x s \<longleftrightarrow> 0 \<le> x \<and> x < sp_w s \<and> pcell x y s \<noteq> None"
      using assms(1) by (simp_all add: index_ok_def)
    show "(x \<in> getCellsInRow y (cell_touch a b s) \<longleftrightarrow> 0 \<le> x \<and> x < sp_w (cell_touch a b s) \<and> pcell x y (cell_touch a b s) \<noteq> None) \<and>
        (y \<in> getCellsInCol x (cell_touch a b s) \<longleftrightarrow> 0 \<le> x \<and> x < sp_w (cell_touch a b s) \<and> pcell x y (cell_touch a b s) \<noteq> None)"
      using ok pcell_touch [OF _ _ assms(2,3), of x y b] assms(2,3) by (auto simp: cells_touch [OF None])
  qed
next
  case (Some v)
  then show ?thesis using assms(1) by (simp add: cell_touch_def)
qed

lemma index_ok_assign:
  assumes "index_ok s" "0 \<le> a" "a < sp_w s"
  shows "index_ok (cell_assign a b v s)"
proof -
  let ?t = "cell_touch a b s"
  have present: "sp_data ?t (cell_key a b ?t) \<noteq> None"
    by (simp add: cell_touch_def cell_key_def split: option.split)
  have "cell_assign a b v s = ?t\<lparr>sp_data := (sp_data ?t)(cell_key a b ?t \<mapsto> v)\<rparr>" by (simp add: cell_assign_def Let_def)
  moreover have "pcell x y (?t\<lparr>sp_data := (sp_data ?t)(cell_key a b ?t \<mapsto> v)\<rparr>) = None \<longleftrightarrow> pcell x y ?t = None" for x y
    using present by (auto simp: pcell_def cell_key_def)
  ultimately show ?thesis using index_ok_touch [OF assms, of b]
    by (simp add: index_ok_def getCellsInRow_def getCellsInCol_def)
qed

text \<open>Removing a cell leaves it in the sets of its row and column, and a new width moves the cells.\<close>

lemma remove_leaves_index:
  "let s = snd (sparse_remove 1 0 (cell_assign 1 0 (5 :: int) (sparse_resize 2 1 0 s)))
   in pcell 1 0 s = None \<and> getCellsInRow 0 s = {1}"
  by (simp add: sparse_remove_def pcell_def cell_assign_def cell_touch_def cell_key_def getCellsInRow_def set_insert_at_def
      sparse_resize_def Let_def)

lemma resize_moves_cells:
  "let s = sparse_grow 3 2 0 (cell_assign 1 1 (5 :: int) (sparse_resize 2 2 0 s))
   in cell_const 1 1 s = 0 \<and> cell_const 0 1 s = 5"
  by (simp add: cell_const_def sp_data_assign cell_key_def sparse_resize_def sparse_grow_def Let_def)

end
