(* ===== verification/Viterbi_Search.thy ===== *)
theory Viterbi_Search
  imports Sparse_Sheet C_Float
begin

text \<open>
  The search for the cheapest path through a lattice of \<^verbatim>\<open>libcoopy_core/Viterbi.cpp\<close> and \<^verbatim>\<open>Viterbi.h\<close>, with which
  rows and columns of two tables are matched.  Transitions are added layer by layer; the sheets \<open>cost\<close>
  and \<open>src\<close> hold, for every state and layer, the cost of the cheapest way there and where it comes
  from (\<open>-1\<close> for a state not reached).  A failed assertion ends the program: \<open>None\<close>.  State and layer
  numbers are integers, which the C \<open>int\<close>s hold; costs are \<open>float\<close>s.  \<open>showPath\<close>, which prints, is left out.
\<close>

section \<open>The model\<close>

record Viterbi =
  vK :: int
  vT :: int
  v_index :: int
  v_mode :: int
  path_valid :: bool
  best_cost :: rat
  v_cost :: "rat SparseSheet"
  v_src :: "int SparseSheet"
  v_path :: "int SparseSheet"

definition viterbi_reset :: "Viterbi \<Rightarrow> Viterbi" where
  "viterbi_reset v = v\<lparr>v_index := 0, v_mode := 0, path_valid := False, best_cost := 0\<rparr>"

definition new_Viterbi :: "rat \<Rightarrow> int \<Rightarrow> int \<Rightarrow> Viterbi" where
  "new_Viterbi zc zs zp = viterbi_reset \<lparr>vK = 0, vT = 0, v_index = 0, v_mode = 0, path_valid = False, best_cost = 0,
     v_cost = new_SparseSheet zc, v_src = new_SparseSheet zs, v_path = new_SparseSheet zp\<rparr>"

definition viterbi_setSize :: "int \<Rightarrow> int \<Rightarrow> Viterbi \<Rightarrow> Viterbi" where
  "viterbi_setSize states sequence_length v =
     viterbi_reset (v\<lparr>vK := states, vT := sequence_length, v_cost := sparse_resize states sequence_length 0 (v_cost v),
       v_src := sparse_resize states sequence_length (- 1) (v_src v), v_path := sparse_resize 1 sequence_length (- 1) (v_path v)\<rparr>)"

definition assertMode :: "int \<Rightarrow> Viterbi \<Rightarrow> Viterbi" where
  "assertMode n_mode v =
     (if n_mode = 0 then (if v_mode v = 1 then v\<lparr>v_index := v_index v + 1\<rparr> else v)\<lparr>v_mode := 0\<rparr> else v\<lparr>v_mode := n_mode\<rparr>)"

definition endTransitions :: "Viterbi \<Rightarrow> Viterbi" where
  "endTransitions v = assertMode 0 (v\<lparr>path_valid := False\<rparr>)"

definition beginTransitions :: "Viterbi \<Rightarrow> Viterbi" where
  "beginTransitions v = assertMode 1 (v\<lparr>path_valid := False\<rparr>)"

definition grow_sheets :: "Viterbi \<Rightarrow> Viterbi" where
  "grow_sheets v = v\<lparr>v_cost := sparse_grow (vK v) (vT v) 0 (v_cost v),
     v_src := sparse_grow (vK v) (vT v) (- 1) (v_src v), v_path := sparse_grow 1 (vT v) (- 1) (v_path v)\<rparr>"

definition grow_states :: "int \<Rightarrow> int \<Rightarrow> Viterbi \<Rightarrow> Viterbi" where
  "grow_states s0 s1 v =
     (let v1 = (if s0 \<ge> vK v then v\<lparr>vK := s0 + 1\<rparr> else v);
          v2 = (if s1 \<ge> vK v1 then v1\<lparr>vK := s1 + 1\<rparr> else v1)
      in if s0 \<ge> vK v \<or> s1 \<ge> vK v1 then grow_sheets v2 else v2)"

definition grow_length :: "Viterbi \<Rightarrow> Viterbi" where
  "grow_length v = (if v_index v \<ge> vT v then grow_sheets (v\<lparr>vT := v_index v + 1\<rparr>) else v)"

text \<open>The cost at the end of a transition from \<open>s0\<close>, and whether \<open>s0\<close> has been reached.\<close>

definition transition_cost :: "int \<Rightarrow> rat \<Rightarrow> Viterbi \<Rightarrow> rat \<times> bool \<times> Viterbi" where
  "transition_cost s0 c v =
     (if v_index v > 0
      then (float_add c (cell_const s0 (v_index v - 1) (v_cost v)), cell_const s0 (v_index v - 1) (v_src v) \<noteq> - 1,
            v\<lparr>v_cost := cell_touch s0 (v_index v - 1) (v_cost v), v_src := cell_touch s0 (v_index v - 1) (v_src v)\<rparr>)
      else (c, True, v))"

definition record_transition :: "int \<Rightarrow> int \<Rightarrow> rat \<Rightarrow> Viterbi \<Rightarrow> Viterbi" where
  "record_transition s0 s1 c v =
     (let i = v_index v; less = c < cell_const s1 i (v_cost v);
          v = v\<lparr>v_cost := cell_touch s1 i (v_cost v)\<rparr>;
          unset = cell_const s1 i (v_src v) = - 1;
          v = (if less then v else v\<lparr>v_src := cell_touch s1 i (v_src v)\<rparr>)
      in if less \<or> unset
         then v\<lparr>v_cost := cell_assign s1 i c (v_cost v), v_src := cell_assign s1 i s0 (v_src v)\<rparr>
         else v)"

definition addTransition :: "int \<Rightarrow> int \<Rightarrow> rat \<Rightarrow> Viterbi \<Rightarrow> Viterbi" where
  "addTransition s0 s1 c v =
     (let v = grow_length (assertMode 1 ((grow_states s0 s1 v)\<lparr>path_valid := False\<rparr>));
          (c, sourced, v) = transition_cost s0 c v
      in if sourced then record_transition s0 s1 c v else v)"

subsection \<open>The path\<close>

definition best_step :: "int \<Rightarrow> rat \<times> int \<times> Viterbi \<Rightarrow> rat \<times> int \<times> Viterbi" where
  "best_step j = (\<lambda>(best, bestj, v).
     let i = v_index v - 1; cheaper = cell_const j i (v_cost v) < best \<or> bestj = - 1;
         v = v\<lparr>v_cost := cell_touch j i (v_cost v)\<rparr>;
         reached = cell_const j i (v_src v) \<noteq> - 1;
         v = (if cheaper then v\<lparr>v_src := cell_touch j i (v_src v)\<rparr> else v)
     in if cheaper \<and> reached then (cell_const j i (v_cost v), j, v) else (best, bestj, v))"

fun path_loop :: "nat \<Rightarrow> int \<Rightarrow> Viterbi \<Rightarrow> Viterbi option" where
  "path_loop 0 bestj v = Some v"
| "path_loop (Suc i) bestj v =
     (let v = v\<lparr>v_path := cell_assign 0 (int i) bestj (v_path v)\<rparr>
      in if bestj = - 1 \<or> \<not> (0 \<le> bestj \<and> bestj < vK v) then None
         else path_loop i (cell_const bestj (int i) (v_src v)) (v\<lparr>v_src := cell_touch bestj (int i) (v_src v)\<rparr>))"

definition calculatePath :: "Viterbi \<Rightarrow> Viterbi option" where
  "calculatePath v =
     (if path_valid v then Some v
      else let v = endTransitions v in
        if v_index v \<le> 0 then Some (v\<lparr>path_valid := True\<rparr>)
        else case foldl (\<lambda>st j. best_step j st) (0, - 1, v) [0..vK v - 1] of
          (best, bestj, v) \<Rightarrow> map_option (\<lambda>v. v\<lparr>path_valid := True\<rparr>) (path_loop (nat (v_index v)) bestj (v\<lparr>best_cost := best\<rparr>)))"

definition viterbi_length :: "Viterbi \<Rightarrow> (int \<times> Viterbi) option" where
  "viterbi_length v = map_option (\<lambda>v. (v_index v, v)) (if v_index v > 0 then calculatePath v else Some v)"

definition getPath :: "int \<Rightarrow> Viterbi \<Rightarrow> (int \<times> Viterbi) option" where
  "getPath i v =
     (case calculatePath v of None \<Rightarrow> None
      | Some v \<Rightarrow> if i < v_index v then Some (cell_const 0 i (v_path v), v\<lparr>v_path := cell_touch 0 i (v_path v)\<rparr>) else None)"

definition getCost :: "Viterbi \<Rightarrow> (rat \<times> Viterbi) option" where
  "getCost v = map_option (\<lambda>v. (best_cost v, v)) (calculatePath v)"

subsection \<open>Use\<close>

text \<open>The callers add the transitions of one layer after the other.\<close>

definition run_layer :: "(int \<times> int \<times> rat) list \<Rightarrow> Viterbi \<Rightarrow> Viterbi" where
  "run_layer L v = endTransitions (foldl (\<lambda>v (s0, s1, c). addTransition s0 s1 c v) (beginTransitions v) L)"

definition run_layers :: "(int \<times> int \<times> rat) list list \<Rightarrow> Viterbi \<Rightarrow> Viterbi" where
  "run_layers Ls v = foldl (\<lambda>v L. run_layer L v) v Ls"

end
