(* ===== verification/Order_Merge.thy ===== *)
theory Order_Merge
  imports Viterbi_Search
begin

text \<open>
  Merging the orders of rows or columns of three tables, \<^verbatim>\<open>libcoopy_core/OrderMerge.cpp\<close>.  The matching of pivot and
  local, and of pivot and remote, is given as an \<open>OrderResult\<close> (\<^verbatim>\<open>OrderResult.h\<close>): for every unit the number of
  its partner, \<open>-1\<close> if it has none, \<open>-2\<close> if that was not looked at.  \<open>process\<close> collects the units of the merged
  table, and \<open>merge\<close> puts them in order with the Viterbi search.

  An \<open>IntSheet\<close> of one column is the list of its cells; a cell outside of it is \<open>None\<close>.  A \<open>std::set\<close> is the
  sorted list of its elements, a hash table a map.  Of \<open>CompareFlags\<close> the fields read here are modelled; the members
  \<open>start_local\<close> and \<open>start_remote\<close>, which are never read, are left out.
\<close>

section \<open>Orders and units\<close>

record order_result =
  a2b_cells :: "int list"
  b2a_cells :: "int list"

definition order_cell :: "int list \<Rightarrow> int \<Rightarrow> int" where
  "order_cell v x = (if x = - 2 then - 2 else if x < 0 \<or> x \<ge> int (length v) then - 1 else v ! nat x)"

definition a2b :: "order_result \<Rightarrow> int \<Rightarrow> int" where
  "a2b ord x = order_cell (a2b_cells ord) x"

definition b2a :: "order_result \<Rightarrow> int \<Rightarrow> int" where
  "b2a ord x = order_cell (b2a_cells ord) x"

definition alen :: "order_result \<Rightarrow> nat" where
  "alen ord = length (a2b_cells ord)"

definition blen :: "order_result \<Rightarrow> nat" where
  "blen ord = length (b2a_cells ord)"

fun trim_front :: "int \<Rightarrow> int \<Rightarrow> int list \<Rightarrow> int list" where
  "trim_front pre post [] = []"
| "trim_front pre post (x # xs) = (if x = pre then post # trim_front pre post xs else x # xs)"

definition trimHead :: "int \<Rightarrow> int \<Rightarrow> order_result \<Rightarrow> order_result" where
  "trimHead pre post ord = ord\<lparr>a2b_cells := trim_front pre post (a2b_cells ord), b2a_cells := trim_front pre post (b2a_cells ord)\<rparr>"

definition trimTail :: "int \<Rightarrow> int \<Rightarrow> order_result \<Rightarrow> order_result" where
  "trimTail pre post ord = ord\<lparr>a2b_cells := rev (trim_front pre post (rev (a2b_cells ord))),
     b2a_cells := rev (trim_front pre post (rev (b2a_cells ord)))\<rparr>"

datatype unit_status = MATCH_UNIT_NONE | MATCH_UNIT_INSERT | MATCH_UNIT_DELETE | MATCH_UNIT_PRESERVE

record match_unit =
  pivotUnit :: int
  localUnit :: int
  remoteUnit :: int
  deleted :: bool
  mstatus :: unit_status

definition MatchUnit :: "int \<Rightarrow> int \<Rightarrow> int \<Rightarrow> bool \<Rightarrow> unit_status \<Rightarrow> match_unit" where
  "MatchUnit pivot loc remote del st = \<lparr>pivotUnit = pivot, localUnit = loc, remoteUnit = remote, deleted = del, mstatus = st\<rparr>"

section \<open>Collecting the units\<close>

record process_state =
  accum :: "match_unit list"
  xlocal :: "int list"
  xremote :: "int list"
  base_local :: nat
  base_remote :: nat

definition accum_push :: "match_unit \<Rightarrow> process_state \<Rightarrow> process_state" where
  "accum_push u st = st\<lparr>accum := accum st @ [u]\<rparr>"

text \<open>A unit found on all three sides.\<close>

definition keep_unit :: "int \<Rightarrow> nat \<Rightarrow> int \<Rightarrow> process_state \<Rightarrow> process_state option" where
  "keep_unit lp l lpr st =
     (let st = accum_push (MatchUnit lp (int l) lpr False MATCH_UNIT_PRESERVE) st in
      if lpr \<ge> int (length (xremote st)) then None
      else Some (let st = (if lpr \<ge> 0 then st\<lparr>xremote := (xremote st)[nat lpr := 1]\<rparr> else st)
                 in st\<lparr>xlocal := (xlocal st)[l := 1]\<rparr>))"

definition local_only :: "int \<Rightarrow> nat \<Rightarrow> process_state \<Rightarrow> process_state" where
  "local_only lp l st =
     (let st = accum_push (if lp \<noteq> - 1 then MatchUnit lp (int l) (- 1) True MATCH_UNIT_DELETE
                           else MatchUnit (- 1) (int l) (- 1) False MATCH_UNIT_PRESERVE) st
      in st\<lparr>xlocal := (xlocal st)[l := 1]\<rparr>)"

definition remote_step :: "order_result \<Rightarrow> nat \<Rightarrow> process_state \<Rightarrow> process_state" where
  "remote_step order_remote r st =
     (if r < length (xremote st) \<and> xremote st ! r = 0 \<and> b2a order_remote (int r) = - 1
      then (accum_push (MatchUnit (- 1) (- 1) (int r) False MATCH_UNIT_INSERT) st)\<lparr>xremote := (xremote st)[r := 1]\<rparr>
      else st)"

function process :: "order_result \<Rightarrow> order_result \<Rightarrow> nat \<Rightarrow> nat \<Rightarrow> nat \<Rightarrow> int \<Rightarrow> process_state \<Rightarrow> process_state option" where
  "process order_local order_remote ilocal iremote stop_local stop_remote st =
     (if ilocal \<ge> stop_local \<and> int iremote \<ge> stop_remote then Some st
      else if ilocal < stop_local
      then Option.bind
        (if ilocal < length (xlocal st) \<and> xlocal st ! ilocal = 0
         then let lp = b2a order_local (int ilocal); lpr = a2b order_remote lp in
           if lp \<noteq> - 1 \<and> lpr \<noteq> - 1
           then Option.bind (process order_local order_remote (base_local st) (base_remote st) ilocal lpr st) (keep_unit lp ilocal lpr)
           else Some (local_only lp ilocal st)
         else Some st)
        (\<lambda>st. process order_local order_remote (Suc ilocal) iremote stop_local stop_remote (st\<lparr>base_local := base_local st + 1\<rparr>))
      else let st = remote_step order_remote iremote st
        in process order_local order_remote ilocal (Suc iremote) stop_local stop_remote (st\<lparr>base_remote := base_remote st + 1\<rparr>))"
  by pat_completeness auto
termination
  by (relation "measures [\<lambda>(ol, orr, il, ir, sl, sr, st). sl, \<lambda>(ol, orr, il, ir, sl, sr, st). sl - il + nat (sr - int ir)]") auto

declare process.simps [simp del]

section \<open>Putting the units in order\<close>

text \<open>The units that are not deleted are numbered; the tables find a unit by its number on each side.\<close>

record unit_tables =
  l2k :: "int \<rightharpoonup> int"
  r2k :: "int \<rightharpoonup> int"
  p2k :: "int \<rightharpoonup> int"
  availableP :: "int list"
  availableL :: "int list"
  availableR :: "int list"
  lowestL :: int
  lowestR :: int

definition set_add :: "int \<Rightarrow> int list \<Rightarrow> int list" where
  "set_add x s = insort_insert x s"

definition lowest :: "int \<Rightarrow> int \<Rightarrow> int" where
  "lowest col low = (if col < low \<and> col \<ge> 0 \<or> low = - 2 then col else low)"

definition table_unit :: "int \<times> match_unit \<Rightarrow> unit_tables \<Rightarrow> unit_tables" where
  "table_unit = (\<lambda>(ct, unit) t.
     let pCol = pivotUnit unit; lCol = localUnit unit; rCol = remoteUnit unit in
     t\<lparr>lowestL := lowest lCol (lowestL t), availableL := (if lCol \<noteq> - 1 then set_add lCol (availableL t) else availableL t),
       lowestR := lowest rCol (lowestR t), availableR := (if rCol \<noteq> - 1 then set_add rCol (availableR t) else availableR t),
       availableP := (if pCol \<noteq> - 1 then set_add pCol (availableP t) else availableP t),
       p2k := (if pCol \<ge> 0 then (p2k t)(pCol \<mapsto> ct) else p2k t), l2k := (if lCol \<ge> 0 then (l2k t)(lCol \<mapsto> ct) else l2k t),
       r2k := (if rCol \<ge> 0 then (r2k t)(rCol \<mapsto> ct) else r2k t)\<rparr>)"

definition tables_of :: "match_unit list \<Rightarrow> unit_tables" where
  "tables_of us = foldl (\<lambda>t x. table_unit x t)
     \<lparr>l2k = Map.empty, r2k = Map.empty, p2k = Map.empty, availableP = [], availableL = [], availableR = [], lowestL = - 2, lowestR = - 2\<rparr>
     (map (\<lambda>i. (int i, us ! i)) [0..<length us])"

definition safe_next :: "(int \<rightharpoonup> int) \<Rightarrow> int \<Rightarrow> int \<Rightarrow> int" where
  "safe_next m val def = (case m val of None \<Rightarrow> def | Some k \<Rightarrow> k)"

definition next_avail :: "int list \<Rightarrow> int \<Rightarrow> int" where
  "next_avail s val = (case dropWhile (\<lambda>y. y \<noteq> val) s of _ # y # _ \<Rightarrow> y | _ \<Rightarrow> - 2)"

text \<open>The units that may follow a unit: the next one on each side, where that differs from the pivot.\<close>

definition draw_next :: "unit_tables \<Rightarrow> int \<Rightarrow> match_unit \<Rightarrow> int list" where
  "draw_next t dud unit =
     (let pCol = pivotUnit unit; lCol = localUnit unit; rCol = remoteUnit unit;
          pnext = safe_next (p2k t) (next_avail (availableP t) pCol) dud;
          lnext = safe_next (l2k t) (next_avail (availableL t) lCol) dud;
          rnext = safe_next (r2k t) (next_avail (availableR t) rCol) dud
      in if lCol = - 1 \<and> rCol = - 1 then [pnext]
         else if rCol = - 1 then [lnext]
         else if lCol = - 1 then [rnext]
         else (if lnext \<noteq> pnext then [lnext] else []) @ (if rnext \<noteq> pnext then [rnext] else []) @
              (if rnext = pnext \<and> lnext = pnext then [pnext] else []))"

definition first_layer :: "unit_tables \<Rightarrow> int \<Rightarrow> (int \<times> int \<times> rat) list" where
  "first_layer t dud =
     (if lowestL t \<ge> 0 then let k = (case l2k t (lowestL t) of None \<Rightarrow> 0 | Some k \<Rightarrow> k) in [(k, k, 0)] else []) @
     (if lowestR t \<ge> 0 then let k = (case r2k t (lowestR t) of None \<Rightarrow> 0 | Some k \<Rightarrow> k) in [(k, k, 0)] else []) @ [(dud, dud, 1)]"

text \<open>The layers of the draws from the units reached (\<open>idx\<close>).  A number without a unit would be a null pointer.\<close>

fun draw_layers :: "nat \<Rightarrow> unit_tables \<Rightarrow> int \<Rightarrow> match_unit list \<Rightarrow> int list \<Rightarrow> (int \<times> int \<times> rat) list list option" where
  "draw_layers 0 t dud us idx = Some []"
| "draw_layers (Suc n) t dud us idx =
     (let ks = filter (\<lambda>k. k \<noteq> dud) idx in
      if \<exists>k \<in> set ks. k < 0 \<or> k \<ge> int (length us) then None
      else let ds = concat (map (\<lambda>k. map (\<lambda>n. (k, n, 0)) (draw_next t dud (us ! nat k))) ks);
               idx2 = foldl (\<lambda>s d. set_add (fst (snd d)) s) [] ds
           in map_option (Cons (ds @ [(dud, dud, 1)])) (draw_layers n t dud us idx2))"

definition last_layer :: "nat \<Rightarrow> (int \<times> int \<times> rat) list" where
  "last_layer units = map (\<lambda>draw. (int draw, int draw, if draw = units then 1 else 0)) [0..<units + 1]"

definition unit_layers :: "match_unit list \<Rightarrow> (int \<times> int \<times> rat) list list option" where
  "unit_layers us =
     (let t = tables_of us; dud = int (length us); l1 = first_layer t dud;
          idx = foldl (\<lambda>s d. set_add (fst (snd d)) s) [] (butlast l1)
      in map_option (\<lambda>ls. l1 # ls @ [last_layer (length us)]) (draw_layers (length us - 1) t dud us idx))"

text \<open>The units on the path are taken as long as none comes twice.\<close>

fun accept_units :: "nat \<Rightarrow> int \<Rightarrow> int \<Rightarrow> match_unit list \<Rightarrow> Viterbi \<Rightarrow> int set \<Rightarrow> int list \<Rightarrow> (bool \<times> int list) option" where
  "accept_units 0 i q us v dups accepted = Some (True, accepted)"
| "accept_units (Suc n) i q us v dups accepted =
     Option.bind (getPath i v) (\<lambda>(k, v).
     Option.bind (if i < q - 1 then getPath (i + 1) v else Some (k, v)) (\<lambda>(k2, v).
       if k \<notin> dups \<and> k2 \<notin> dups
       then if k < 0 \<or> k \<ge> int (length us) then None
            else accept_units n (i + 1) q us v (insert k dups) (accepted @ [k])
       else Some (False, accepted)))"

text \<open>One round: the accepted units, the units left over, whether there is more to do.\<close>

definition merge_round :: "match_unit list \<Rightarrow> Viterbi \<Rightarrow> (match_unit list \<times> match_unit list \<times> bool) option" where
  "merge_round canon_src v0 =
     (let us = filter (\<lambda>u. \<not> deleted u) canon_src; units = length us in
      Option.bind (unit_layers us) (\<lambda>layers.
      Option.bind (viterbi_length (run_layers layers (viterbi_setSize (int units + 1) (int units + 2) v0))) (\<lambda>(len, v).
      let q = len - 1 in
      Option.bind (accept_units (nat q) 0 q us v {int units} []) (\<lambda>(good, accepted).
      let left = filter (\<lambda>i. int i \<notin> set accepted) [0..<units]; omit = units - length left
      in Some (map (\<lambda>k. us ! nat k) accepted, map (\<lambda>i. us ! i) left, \<not> good \<and> omit \<noteq> 0)))))"

lemma merge_round_less:
  assumes "merge_round src v0 = Some (chosen, rest, True)"
  shows "length (filter (\<lambda>u. \<not> deleted u) rest) < length (filter (\<lambda>u. \<not> deleted u) src)"
proof -
  let ?us = "filter (\<lambda>u. \<not> deleted u) src"
  obtain acc where "rest = map (\<lambda>i. ?us ! i) (filter (\<lambda>i. int i \<notin> set acc) [0..<length ?us])"
      "length ?us - length (filter (\<lambda>i. int i \<notin> set acc) [0..<length ?us]) \<noteq> 0"
    using assms by (auto simp: merge_round_def Let_def bind_eq_Some_conv split: prod.splits)
  then have "length rest < length ?us" by simp
  then show ?thesis using length_filter_le [of "\<lambda>u. \<not> deleted u" rest] by linarith
qed

function merge_rounds :: "match_unit list \<Rightarrow> match_unit list \<Rightarrow> Viterbi \<Rightarrow> (match_unit list \<times> match_unit list) option" where
  "merge_rounds canon_src canon v0 =
     (case merge_round canon_src v0 of None \<Rightarrow> None
      | Some (chosen, rest, again) \<Rightarrow> if again then merge_rounds rest (canon @ chosen) v0 else Some (canon @ chosen, rest))"
  by pat_completeness auto
termination
  by (relation "measure (\<lambda>(src, canon, v). length (filter (\<lambda>u. \<not> deleted u) src))") (auto simp: merge_round_less)

declare merge_rounds.simps [simp del]

record compare_flags =
  head_trimmed :: bool
  tail_trimmed :: bool
  use_order :: bool

definition trim_order :: "compare_flags \<Rightarrow> order_result \<Rightarrow> order_result" where
  "trim_order flags ord =
     (let ord = (if head_trimmed flags then trimHead (- 1) (- 2) ord else ord)
      in if tail_trimmed flags then trimTail (- 1) (- 2) ord else ord)"

definition collect_units :: "order_result \<Rightarrow> order_result \<Rightarrow> match_unit list \<Rightarrow> match_unit list option" where
  "collect_units ol orr acc = map_option accum (process ol orr 0 0 (blen ol) (int (blen orr))
     \<lparr>accum = acc, xlocal = replicate (blen ol) 0, xremote = replicate (blen orr) 0, base_local = 0, base_remote = 0\<rparr>)"

definition order_merge :: "order_result \<Rightarrow> order_result \<Rightarrow> compare_flags \<Rightarrow> bool \<Rightarrow> match_unit list \<Rightarrow> Viterbi \<Rightarrow> (match_unit list \<times> nat) option" where
  "order_merge nlocal nremote flags columnar acc v0 =
     Option.bind (collect_units (trim_order flags nlocal) (trim_order flags nremote) acc) (\<lambda>acc.
     Option.bind
       (if use_order flags \<or> columnar
        then map_option (\<lambda>(canon, rest). canon @ filter (\<lambda>u. \<not> deleted u) rest @ filter deleted acc) (merge_rounds acc [] v0)
        else Some acc) (\<lambda>acc.
     Some (acc, length (filter (\<lambda>u. localUnit u \<noteq> - 1 \<and> remoteUnit u \<noteq> - 1) acc))))"

end
