(* ===== verification/Merger.thy ===== *)
theory Merger
  imports Csv_Sheet Mover Order_Merge "HOL-Library.AList"
begin

text \<open>
  The merger of \<^verbatim>\<open>libcoopy_core/Merger.cpp\<close>: from three tables and the matching of their rows and columns it
  produces the changes that turn the local table into the merged one, and hands them to a sink (\<open>Patcher\<close>).
  \<open>mergeRow\<close> merges the cells of one row and decides which changes that gives; \<open>merge\<close> puts the columns and rows
  in order, then signals the changes of columns and of rows.

  A sheet is what the interface \<open>DataSheet\<close> shows of it: its cells (without their metadata), its width and height.
  The names \<open>NameSniffer\<close> suggests for the columns and the key columns \<open>IndexSniffer\<close> suggests are parameters.  A
  \<open>std::map\<close> is an association list that is updated in place.  The calls of the sink are recorded in order; what
  they return is not used by the code.  \<open>None\<close> stands for an access outside of a vector and for the calls of \<open>exit\<close>.
  The address and action strings of a row, the copies of a row that get a number in front, and the counters that only
  enter them (\<open>last_row\<close>, \<open>current_row\<close>, \<open>addition\<close>) are never read by anything else and left out, and so is what is
  printed.
\<close>

section \<open>Data\<close>

type_synonym cells = "(byte list \<times> sheet_cell) list"

record data_sheet =
  cell_at :: "int \<Rightarrow> int \<Rightarrow> sheet_cell"
  sheet_width :: int
  sheet_height :: int

record merge_flags =
  order_flags :: compare_flags
  ignore_case :: bool
  resolve :: "byte list"
  fixed_columns :: bool
  assume_header :: bool
  acts :: "byte list list"
  include_columns :: "byte list list"
  exclude_columns :: "byte list list"

definition can_act :: "string \<Rightarrow> merge_flags \<Rightarrow> bool" where
  "can_act act flags \<longleftrightarrow> acts flags = [] \<or> chars_of act \<in> set (acts flags)"

datatype row_mode = ROW_CHANGE_NONE | ROW_CHANGE_DELETE | ROW_CHANGE_INSERT | ROW_CHANGE_UPDATE | ROW_CHANGE_CONTEXT | ROW_CHANGE_MOVE

record row_change =
  rmode :: row_mode
  cond :: cells
  rval :: cells
  conflictingVal :: cells
  conflictingParentVal :: cells
  rnames :: "byte list list"
  allNames :: "byte list list"
  indexes :: "(byte list \<times> bool) list"
  conflicted :: bool
  pRow :: int
  lRow :: int
  rRow :: int

definition new_RowChange :: row_change where
  "new_RowChange = \<lparr>rmode = ROW_CHANGE_NONE, cond = [], rval = [], conflictingVal = [], conflictingParentVal = [], rnames = [],
     allNames = [], indexes = [], conflicted = False, pRow = - 2, lRow = - 2, rRow = - 2\<rparr>"

record link_declare =
  lcolumn :: bool
  rc_id_pivot :: int
  rc_id_local :: int
  rc_id_remote :: int
  rc_deleted :: bool
  rc_str_local :: "byte list"
  rc_str_remote :: "byte list"

datatype patch_call =
    Change_name bool bool "byte list list"
  | Change_column order_change
  | Change_row row_change
  | Declare_link link_declare
  | Add_pools
  | Add_header "byte list list"
  | Set_conflicted
  | Merge_done
  | Strip_markup

text \<open>What the merger is given (\<open>MergerState\<close>) and what it keeps (\<open>Merger\<close>).\<close>

record merger_state =
  pivot_sheet :: data_sheet
  local_sheet :: data_sheet
  remote_sheet :: data_sheet
  nrow_local :: order_result
  nrow_remote :: order_result
  ncol_local :: order_result
  ncol_remote :: order_result
  mflags :: merge_flags
  local_names :: "int \<Rightarrow> byte list"
  remote_names :: "int \<Rightarrow> byte list"
  index_flags :: "int list"
  wantDiff :: bool
  wantLinks :: bool
  allIdentical :: bool

record merger =
  conflicts :: nat
  col_units :: "match_unit list"
  names :: "byte list list"
  filtered_names :: "byte list list"
  last_local_row :: int
  last_local_row_marked :: int
  bottom_local_row :: int
  lastRowChange :: row_change
  had_row :: bool
  had_foreign_row :: bool
  allGone :: bool
  calls :: "patch_call list"

definition call :: "patch_call \<Rightarrow> merger \<Rightarrow> merger" where
  "call c m = m\<lparr>calls := calls m @ [c]\<rparr>"

section \<open>Cells\<close>

definition blank :: "byte list" where
  "blank = chars_of ''__NOT_SET__CSVCOMPARE_SSFOSSIL''"

definition blankCell :: sheet_cell where
  "blankCell = \<lparr>ctext = blank, escaped = True\<rparr>"

definition tolower :: "byte \<Rightarrow> byte" where
  "tolower c = (if 0x41 \<le> c \<and> c \<le> 0x5A then c + 0x20 else c)"

definition normalize_string :: "byte list \<Rightarrow> merge_flags \<Rightarrow> byte list" where
  "normalize_string low flags = (if ignore_case flags then map tolower low else low)"

definition compare_string :: "merge_flags \<Rightarrow> sheet_cell \<Rightarrow> sheet_cell \<Rightarrow> bool option" where
  "compare_string flags a b =
     (let null = (\<lambda>c. ctext c = chars_of ''NULL'' \<or> ctext c = blank) in
      if escaped a \<and> escaped b \<and> \<not> (null a \<and> null b) then None
      else Some (if \<not> ignore_case flags then a = b
                 else if escaped a \<noteq> escaped b then False
                 else normalize_string (ctext a) flags = normalize_string (ctext b) flags))"

text \<open>The merged cell, whether it is news to the local table, and whether there is a conflict.\<close>

definition resolve_conflict :: "merge_flags \<Rightarrow> sheet_cell \<Rightarrow> sheet_cell \<Rightarrow> sheet_cell \<Rightarrow> sheet_cell \<times> bool \<times> bool" where
  "resolve_conflict flags l r p =
     (if resolve flags = [] then (l, True, True)
      else if resolve flags = chars_of ''ours'' then (l, False, False)
      else if resolve flags = chars_of ''theirs'' then (r, True, False)
      else if resolve flags = chars_of ''neither'' then (p, True, False)
      else (l, False, False))"

definition merge_cell :: "merge_flags \<Rightarrow> sheet_cell \<Rightarrow> sheet_cell \<Rightarrow> sheet_cell \<Rightarrow> (sheet_cell \<times> bool \<times> bool) option" where
  "merge_cell flags l r p = Option.bind (compare_string flags l r) (\<lambda>same.
     if same then Some (l, False, False)
     else if l = blankCell then Some (if \<not> escaped r then (r, True, False) else (l, False, False))
     else if r = blankCell then Some (l, False, False)
     else Option.bind (compare_string flags p l) (\<lambda>pl. Option.bind (if pl then Some True else compare_string flags p r) (\<lambda>either.
       Some (if either then (if pl then (r, True, False) else (l, False, False)) else resolve_conflict flags l r p))))"

section \<open>One row\<close>

record row_cell =
  expandDel :: bool
  existsLocally :: bool
  expandLocal :: sheet_cell
  expandRemote :: sheet_cell
  expandPivot :: sheet_cell

definition expand_cell :: "data_sheet \<Rightarrow> int \<Rightarrow> int \<Rightarrow> sheet_cell" where
  "expand_cell s row col = (if row \<ge> 0 \<and> col \<ge> 0 then cell_at s col row else blankCell)"

definition name_at :: "byte list list \<Rightarrow> nat \<Rightarrow> byte list" where
  "name_at ns k = (if length ns > k then ns ! k else [])"

fun expand_row :: "merger_state \<Rightarrow> byte list list \<Rightarrow> match_unit \<Rightarrow> nat \<Rightarrow> row_cell list \<times> cells \<Rightarrow> match_unit list \<Rightarrow> row_cell list \<times> cells" where
  "expand_row s ns row k acc [] = acc"
| "expand_row s ns row k acc (u # us) =
     (let cs = (if wantDiff s \<or> \<not> deleted u
            then fst acc @ [\<lparr>expandDel = deleted u, existsLocally = (localUnit u \<noteq> - 1),
              expandLocal = expand_cell (local_sheet s) (localUnit row) (localUnit u),
              expandRemote = expand_cell (remote_sheet s) (remoteUnit row) (remoteUnit u),
              expandPivot = expand_cell (pivot_sheet s) (pivotUnit row) (pivotUnit u)\<rparr>] else fst acc);
          n = name_at ns k;
          cd = (if localUnit row \<ge> 0 \<and> localUnit u \<ge> 0 \<and> \<not> deleted u \<and>
              (wantDiff s \<or> n \<in> set (include_columns (mflags s))) \<and> n \<notin> set (exclude_columns (mflags s))
            then AList.update n (cell_at (local_sheet s) (localUnit u) (localUnit row)) (snd acc) else snd acc)
      in expand_row s ns row (if deleted u then k else k + 1) (cs, cd) us)"

record row_diff =
  novel_value :: cells
  conflicted_value :: cells
  conflicted_parent_value :: cells
  conflict :: bool
  rpos :: nat
  rcalls :: "patch_call list"

definition note_cell :: "merger_state \<Rightarrow> byte list list \<Rightarrow> row_cell \<Rightarrow> sheet_cell \<times> bool \<times> bool \<Rightarrow> row_diff \<Rightarrow> row_diff" where
  "note_cell s ns c = (\<lambda>(l, novel, conflicted1) d.
     let n = name_at ns (rpos d);
         d = (if conflicted1 then d\<lparr>conflict := True, rcalls := rcalls d @ [Set_conflicted]\<rparr> else d);
         d = (if wantDiff s \<and> \<not> expandDel c \<and> novel \<and> n \<notin> set (exclude_columns (mflags s))
              then let d = d\<lparr>novel_value := AList.update n l (novel_value d)\<rparr> in
                if conflicted1 then d\<lparr>conflicted_value := AList.update n (expandRemote c) (conflicted_value d),
                  conflicted_parent_value := AList.update n (expandPivot c) (conflicted_parent_value d)\<rparr> else d
              else d)
     in if wantDiff s \<and> \<not> expandDel c then d\<lparr>rpos := rpos d + 1\<rparr> else d)"

fun merge_cells :: "merger_state \<Rightarrow> byte list list \<Rightarrow> byte list list \<Rightarrow> row_cell list \<Rightarrow> row_diff \<Rightarrow> row_diff option" where
  "merge_cells s ns filtered [] d = Some d"
| "merge_cells s ns filtered (c # cs) d =
     (if fixed_columns (mflags s) \<and> \<not> existsLocally c then merge_cells s ns filtered cs d
      else Option.bind (if \<not> expandDel c \<and> filtered \<noteq> [] then map_option (\<lambda>n. n \<notin> set filtered) (vec_at ns (int (rpos d))) else Some False) (\<lambda>ignored.
        Option.bind (if ignored then Some (expandLocal c, False, False) else merge_cell (mflags s) (expandLocal c) (expandRemote c) (expandPivot c)) (\<lambda>res.
        merge_cells s ns filtered cs (note_cell s ns c res d))))"

text \<open>The changes a merged row gives: the row itself, moved, inserted, deleted or updated, and before it the row it follows.\<close>

definition context_change :: "merger_state \<Rightarrow> row_change \<Rightarrow> row_change list" where
  "context_change s alt = (if use_order (order_flags (mflags s)) \<and> sheet_height (pivot_sheet s) > 0 then [alt\<lparr>rmode := ROW_CHANGE_CONTEXT\<rparr>] else [])"

definition mark_move :: "merger_state \<Rightarrow> match_unit \<Rightarrow> bool \<Rightarrow> row_change \<Rightarrow> merger \<Rightarrow> row_change list \<times> row_change option \<times> merger" where
  "mark_move s row prev_had_row rowChange m =
     (if \<not> deleted row \<and> localUnit row \<noteq> - 1 \<and> (had_row m \<or> had_foreign_row m) \<and> (localUnit row < bottom_local_row m \<or> had_foreign_row m)
      then (if last_local_row m \<ge> 0 \<and> last_local_row_marked m \<noteq> last_local_row m then context_change s (lastRowChange m) else [],
            if (prev_had_row \<or> localUnit row \<noteq> 0) \<and> use_order (order_flags (mflags s)) then Some (rowChange\<lparr>rmode := ROW_CHANGE_MOVE\<rparr>) else None,
            m\<lparr>last_local_row_marked := localUnit row\<rparr>)
      else ([], None, m))"

definition insert_context :: "merger_state \<Rightarrow> bool \<Rightarrow> merger \<Rightarrow> row_change list" where
  "insert_context s prev_had_row m =
     (if last_local_row m \<ge> 0
      then (if last_local_row_marked m \<noteq> last_local_row m then context_change s (lastRowChange m) else [])
      else if \<not> (prev_had_row \<or> had_foreign_row m \<or> allGone m) then context_change s new_RowChange else [])"

definition pending :: "row_change option \<Rightarrow> row_change list" where
  "pending mv = (case mv of None \<Rightarrow> [] | Some c \<Rightarrow> [c])"

text \<open>The changes for the row, its change with its mode, and the merger.\<close>

definition act_on_row :: "merger_state \<Rightarrow> match_unit \<Rightarrow> bool \<Rightarrow> row_change option \<Rightarrow> row_change \<Rightarrow> merger \<Rightarrow> row_change list \<times> row_change \<times> merger" where
  "act_on_row s row prev_had_row mv rowChange m =
     (if localUnit row = - 1
      then if can_act ''insert'' (mflags s)
        then let c = rowChange\<lparr>rmode := ROW_CHANGE_INSERT\<rparr>; m' = (if last_local_row m < 0 then m\<lparr>had_foreign_row := True\<rparr> else m)
          in (pending mv @ insert_context s prev_had_row m @ [c], c, m'\<lparr>last_local_row_marked := localUnit row\<rparr>)
        else (pending mv, rowChange, m)
      else if remoteUnit row = - 1
      then if can_act ''delete'' (mflags s) \<and> pivotUnit row \<noteq> - 1
        then let c = rowChange\<lparr>rmode := ROW_CHANGE_DELETE\<rparr> in (pending mv @ [c], c, m\<lparr>last_local_row_marked := localUnit row\<rparr>)
        else (pending mv, rowChange, m)
      else if can_act ''update'' (mflags s) \<and> rval rowChange \<noteq> []
      then let c = rowChange\<lparr>rmode := (if mv \<noteq> None then ROW_CHANGE_MOVE else ROW_CHANGE_UPDATE)\<rparr>
        in ([c], c, m\<lparr>last_local_row_marked := localUnit row\<rparr>)
      else (pending mv, rowChange, m))"

definition emit_row :: "merger_state \<Rightarrow> match_unit \<Rightarrow> row_change \<Rightarrow> merger \<Rightarrow> row_change list \<times> merger" where
  "emit_row s row rowChange m =
     (let prev_had_row = had_row m;
          m = (if last_local_row m \<noteq> - 1 then m\<lparr>had_row := True, had_foreign_row := False\<rparr> else m);
          (ctx, mv, m) = mark_move s row prev_had_row rowChange m;
          (cs, rowChange, m) = act_on_row s row prev_had_row mv rowChange m
      in (ctx @ cs, m\<lparr>last_local_row := localUnit row, lastRowChange := rowChange,
            bottom_local_row := (if localUnit row \<ge> bottom_local_row m then localUnit row else bottom_local_row m)\<rparr>))"

definition mergeRow :: "merger_state \<Rightarrow> match_unit \<Rightarrow> merger \<Rightarrow> (row_change list \<times> merger) option" where
  "mergeRow s row m =
     (let (cs, cd) = expand_row s (names m) row 0 ([], []) (col_units m) in
      Option.bind (merge_cells s (names m) (filtered_names m) cs
        \<lparr>novel_value = [], conflicted_value = [], conflicted_parent_value = [], conflict = False, rpos = 0, rcalls = []\<rparr>) (\<lambda>d.
      let m = m\<lparr>calls := calls m @ rcalls d\<rparr> in
      Some (if \<not> wantDiff s then ([], if conflict d then m\<lparr>conflicts := conflicts m + 1\<rparr> else m)
        else emit_row s row (new_RowChange\<lparr>cond := cd, rval := novel_value d, conflictingVal := conflicted_value d,
          conflictingParentVal := conflicted_parent_value d, rnames := names m, conflicted := conflict d,
          pRow := pivotUnit row, lRow := localUnit row, rRow := remoteUnit row\<rparr>) m)))"

section \<open>The columns\<close>

record col_state =
  local_cols :: "int list"
  local_col_names :: "byte list list"
  cc :: "order_change list"
  constantIndex :: bool
  cols_gone :: bool

definition new_OrderChange :: order_change where
  "new_OrderChange = \<lparr>indicesBefore = [], namesBefore = [], indicesAfter = [], namesAfter = [], subject = - 1, object_ = - 1, omode = ORDER_CHANGE_NONE\<rparr>"

text \<open>Which columns identify a row.\<close>

fun name_indexes :: "merge_flags \<Rightarrow> int list \<Rightarrow> byte list list \<Rightarrow> (byte list \<times> bool) list \<times> bool \<Rightarrow> ((byte list \<times> bool) list \<times> bool) option" where
  "name_indexes flags fs [] acc = Some acc"
| "name_indexes flags [] (n # ns) acc = None"
| "name_indexes flags (f # fs) (n # ns) acc =
     (let b = (f > 0 \<or> n \<in> set (include_columns flags)) \<and> n \<notin> set (exclude_columns flags)
      in name_indexes flags fs ns (AList.update n b (fst acc), snd acc \<or> b))"

definition column_indexes :: "merge_flags \<Rightarrow> int list \<Rightarrow> byte list list \<Rightarrow> (byte list \<times> bool) list option" where
  "column_indexes flags fs ns = map_option (\<lambda>(ix, some). if some then ix else []) (name_indexes flags fs ns ([], False))"

text \<open>Pass 1: deletions.  The number of the column in the pivot is looked for among the local columns.\<close>

definition delete_column :: "(byte list \<times> bool) list \<Rightarrow> match_unit \<Rightarrow> col_state \<Rightarrow> col_state option" where
  "delete_column ix u c =
     (let col = pivotUnit u; k = std_find (local_cols c) col in
      if \<not> (col \<noteq> - 1 \<and> deleted u) then Some c
      else if k = length (local_cols c) then None
      else Option.bind (vec_at (local_col_names c) (int k)) (\<lambda>name.
        Option.bind (vec_erase (local_cols c) (int k)) (\<lambda>cs. Option.bind (vec_erase (local_col_names c) (int k)) (\<lambda>ns.
        Some (c\<lparr>constantIndex := (if map_of ix name = Some True then False else constantIndex c), local_cols := cs, local_col_names := ns,
          cc := cc c @ [new_OrderChange\<lparr>indicesBefore := local_cols c, namesBefore := local_col_names c, indicesAfter := cs, namesAfter := ns,
            subject := col, omode := ORDER_CHANGE_DELETE\<rparr>], cols_gone := (cols_gone c \<or> cs = [])\<rparr>)))))"

fun delete_columns :: "(byte list \<times> bool) list \<Rightarrow> match_unit list \<Rightarrow> col_state \<Rightarrow> col_state option" where
  "delete_columns ix [] c = Some c"
| "delete_columns ix (u # us) c = Option.bind (delete_column ix u c) (delete_columns ix us)"

text \<open>Pass 2: moves.\<close>

definition shuffle_columns :: "match_unit list \<Rightarrow> col_state \<Rightarrow> col_state option" where
  "shuffle_columns us c =
     (let shuffled = map localUnit (filter (\<lambda>u. localUnit u \<noteq> - 1 \<and> \<not> deleted u) us) in
      if length (local_cols c) \<noteq> length shuffled then None
      else Option.bind (move_columns (local_cols c) shuffled [] \<lparr>solutions = 0, global_solved = False, global_best_order = []\<rparr>) (\<lambda>(_, order, _).
        map_option (\<lambda>(cs, ns, ch). c\<lparr>local_cols := cs, local_col_names := ns, cc := ch\<rparr>) (merge_moves shuffled order (local_cols c, local_col_names c, cc c))))"

text \<open>Pass 3: insertions, under a name that is not yet taken.\<close>

function free_name :: "byte list list \<Rightarrow> byte list \<Rightarrow> byte list" where
  "free_name ns name = (if name \<in> set ns then free_name ns (name @ chars_of ''_'') else name)"
  by pat_completeness auto
termination
proof (relation "measure (\<lambda>(ns, name). Suc (sum_list (map length ns)) - length name)", goal_cases)
  case (2 ns name)
  have "length name \<le> sum_list (map length ns)" using 2 by (intro member_le_sum_list) auto
  then show ?case by (simp add: chars_of_def)
qed simp

declare free_name.simps [simp del]

definition insert_name :: "byte list list \<Rightarrow> byte list \<Rightarrow> byte list" where
  "insert_name ns name = free_name ns (case name of c # _ \<Rightarrow> if 0x30 \<le> c \<and> c \<le> 0x39 then chars_of ''{'' @ name @ chars_of ''}'' else name | [] \<Rightarrow> name)"

fun insert_columns :: "(int \<Rightarrow> byte list) \<Rightarrow> nat \<Rightarrow> match_unit list \<Rightarrow> col_state \<Rightarrow> col_state option" where
  "insert_columns rname k [] c = Some c"
| "insert_columns rname k (u # us) c =
     (if pivotUnit u = - 1 \<and> remoteUnit u \<noteq> - 1 \<and> \<not> deleted u
      then let name = insert_name (local_col_names c) (rname (remoteUnit u)); id = - remoteUnit u - 1 in
        Option.bind (vec_insert (local_cols c) (int k) id) (\<lambda>cs. Option.bind (vec_insert (local_col_names c) (int k) name) (\<lambda>ns.
        insert_columns rname (k + 1 + (if localUnit u \<noteq> - 1 then 1 else 0)) us
          (c\<lparr>local_cols := cs, local_col_names := ns, cc := cc c @ [new_OrderChange\<lparr>indicesBefore := local_cols c, namesBefore := local_col_names c,
             indicesAfter := cs, namesAfter := ns, subject := id, omode := ORDER_CHANGE_INSERT\<rparr>]\<rparr>)))
      else insert_columns rname (k + (if localUnit u \<noteq> - 1 \<and> \<not> deleted u then 1 else 0)) us c)"

text \<open>Pass 4: renamings.  The column is looked for under its name.\<close>

definition find_name :: "byte list list \<Rightarrow> byte list \<Rightarrow> nat" where
  "find_name v x = length (takeWhile (\<lambda>y. y \<noteq> x) v)"

definition rename_column :: "(int \<Rightarrow> byte list) \<Rightarrow> (int \<Rightarrow> byte list) \<Rightarrow> match_unit \<Rightarrow> col_state \<Rightarrow> col_state option" where
  "rename_column lname rname u c =
     (let l = lname (pivotUnit u); r = rname (remoteUnit u); k = find_name (local_col_names c) l in
      if \<not> (pivotUnit u \<noteq> - 1 \<and> remoteUnit u \<noteq> - 1 \<and> \<not> deleted u) \<or> l = r \<or> k = length (local_col_names c) then Some c
      else Option.bind (vec_at (local_cols c) (int k)) (\<lambda>subj.
        let ns = (local_col_names c)[k := r] in
        Some (c\<lparr>local_col_names := ns, cc := cc c @ [new_OrderChange\<lparr>indicesBefore := local_cols c, namesBefore := local_col_names c,
          indicesAfter := local_cols c, namesAfter := ns, subject := subj, omode := ORDER_CHANGE_RENAME\<rparr>]\<rparr>)))"

fun rename_columns :: "(int \<Rightarrow> byte list) \<Rightarrow> (int \<Rightarrow> byte list) \<Rightarrow> match_unit list \<Rightarrow> col_state \<Rightarrow> col_state option" where
  "rename_columns lname rname [] c = Some c"
| "rename_columns lname rname (u # us) c = Option.bind (rename_column lname rname u c) (rename_columns lname rname us)"

definition original_names :: "merger_state \<Rightarrow> byte list list" where
  "original_names s = map (\<lambda>i. local_names s (int i)) [0..<nat (sheet_width (local_sheet s))]"

definition change_columns :: "merger_state \<Rightarrow> (byte list \<times> bool) list \<Rightarrow> match_unit list \<Rightarrow> col_state option" where
  "change_columns s ix us =
     Option.bind (delete_columns ix us \<lparr>local_cols = map int [0..<nat (sheet_width (local_sheet s))], local_col_names = original_names s, cc = [],
       constantIndex = True, cols_gone = False\<rparr>) (\<lambda>c.
     Option.bind (shuffle_columns us c) (\<lambda>c.
     Option.bind (insert_columns (remote_names s) 0 us c) (\<lambda>c.
     if assume_header (mflags s) then rename_columns (local_names s) (remote_names s) us c else Some c)))"

section \<open>The merge\<close>

definition link_unit :: "merger_state \<Rightarrow> bool \<Rightarrow> match_unit \<Rightarrow> patch_call" where
  "link_unit s column u = Declare_link \<lparr>lcolumn = column, rc_id_pivot = pivotUnit u, rc_id_local = localUnit u, rc_id_remote = remoteUnit u,
     rc_deleted = deleted u, rc_str_local = (if column \<and> localUnit u \<noteq> - 1 then local_names s (localUnit u) else []),
     rc_str_remote = (if column \<and> remoteUnit u \<noteq> - 1 then remote_names s (remoteUnit u) else [])\<rparr>"

definition gone_unit :: "bool \<Rightarrow> match_unit \<Rightarrow> match_unit" where
  "gone_unit gone u = (if gone then u\<lparr>localUnit := - 1, pivotUnit := - 1\<rparr> else u)"

fun diff_rows :: "merger_state \<Rightarrow> match_unit list \<Rightarrow> row_change list \<Rightarrow> merger \<Rightarrow> (row_change list \<times> merger) option" where
  "diff_rows s [] rc m = Some (rc, m)"
| "diff_rows s (u # us) rc m =
     (let u = gone_unit (allGone m) u; m = (if wantLinks s then call (link_unit s False u) m else m) in
      Option.bind (if remoteUnit u \<noteq> - 1 \<or> \<not> allGone m then mergeRow s u m else Some ([], m)) (\<lambda>(ch, m).
      diff_rows s us (rc @ ch) m))"

definition final_indexes :: "bool \<Rightarrow> byte list list \<Rightarrow> (byte list \<times> bool) list \<Rightarrow> (byte list \<times> bool) list" where
  "final_indexes constant ns ix = (if constant then ix else foldl (\<lambda>ix n. AList.update n True ix) ix ns)"

definition merge_diff :: "merger_state \<Rightarrow> match_unit list \<Rightarrow> merger \<Rightarrow> merger option" where
  "merge_diff s rows m =
     (let flags = mflags s; orig = original_names s in
      Option.bind (column_indexes flags (index_flags s) orig) (\<lambda>ix.
      Option.bind (change_columns s ix (col_units m)) (\<lambda>c.
      let constant = (cc c = []);
          m = m\<lparr>allGone := cols_gone c, names := local_col_names c, filtered_names := (if fixed_columns flags then orig else [])\<rparr>;
          final = (if fixed_columns flags then orig else local_col_names c);
          m = (if wantLinks s \<and> final \<noteq> orig then m\<lparr>calls := calls m @ map (link_unit s True) (col_units m)\<rparr> else m)
      in Option.bind (if allIdentical s then Some ([], m) else diff_rows s rows [] m) (\<lambda>(rc, m).
      Some (m\<lparr>calls := calls m @
        (if fixed_columns flags then [] else Change_name False constant orig # map Change_column (cc c)) @ [Change_name True constant final] @
        (if rc \<noteq> [] then [Add_pools] else []) @
        map (\<lambda>ch. Change_row (ch\<lparr>indexes := final_indexes (constantIndex c) orig ix, allNames := final\<rparr>)) rc @ [Merge_done]\<rparr>)))))"

fun merge_rows :: "merger_state \<Rightarrow> match_unit list \<Rightarrow> merger \<Rightarrow> merger option" where
  "merge_rows s [] m = Some m"
| "merge_rows s (u # us) m =
     (let m = (if wantLinks s then call (link_unit s False u) m else m) in
      Option.bind (if \<not> deleted u then mergeRow s u m else Some ([], m)) (\<lambda>(rc, m).
      merge_rows s us (m\<lparr>calls := calls m @ map Change_row rc\<rparr>)))"

definition header_mark :: "match_unit \<Rightarrow> byte list" where
  "header_mark u = (if pivotUnit u \<noteq> - 1 then [] else if remoteUnit u \<noteq> - 1 then chars_of ''[add]'' else chars_of ''[float]'')"

definition merge_plain :: "merger_state \<Rightarrow> match_unit list \<Rightarrow> merger \<Rightarrow> merger option" where
  "merge_plain s rows m =
     (let us = col_units m; changed = (\<exists>u \<in> set us. pivotUnit u \<noteq> localUnit u \<or> pivotUnit u \<noteq> remoteUnit u \<or> deleted u);
          m = (if wantLinks s \<and> changed then m\<lparr>calls := calls m @ map (link_unit s True) us\<rparr> else m);
          m = call (Add_header (map header_mark (filter (\<lambda>u. \<not> deleted u) us))) m
      in Option.bind (merge_rows s rows m) (\<lambda>m.
      let m = call Merge_done m in Some (if conflicts m = 0 then call Strip_markup m else m)))"

definition new_Merger :: merger where
  "new_Merger = \<lparr>conflicts = 0, col_units = [], names = [], filtered_names = [], last_local_row = - 1, last_local_row_marked = - 1, bottom_local_row = - 1,
     lastRowChange = new_RowChange, had_row = False, had_foreign_row = False, allGone = False, calls = []\<rparr>"

definition merger_merge :: "merger_state \<Rightarrow> Viterbi \<Rightarrow> merger option" where
  "merger_merge s v0 =
     (if allIdentical s \<and> \<not> wantLinks s then Some new_Merger
      else let flags = order_flags (mflags s) in
        Option.bind (order_merge (ncol_local s) (ncol_remote s) (flags\<lparr>head_trimmed := False, tail_trimmed := False\<rparr>) True [] v0) (\<lambda>(us, overlap).
        Option.bind (if overlap = 0 \<and> wantDiff s
            then Some (map (\<lambda>i. MatchUnit (- 1) (- 1) (int i) False MATCH_UNIT_NONE) [0..<nat (sheet_height (remote_sheet s))])
            else map_option fst (order_merge (nrow_local s) (nrow_remote s) flags False [] v0)) (\<lambda>rows.
        (if wantDiff s then merge_diff else merge_plain) s rows (new_Merger\<lparr>col_units := us\<rparr>))))"

end
