(* ===== verification/Lattice.thy ===== *)
theory Lattice
  imports Main
begin

text \<open>
  Cheapest walks through a lattice, abstractly: what \<^verbatim>\<open>Viterbi.cpp\<close> promises.  A lattice is a list of layers
  of transitions (from, to, cost).  A walk takes one transition of every layer, each from where the
  last one ends; its cost is added up from the first layer on.  The operation \<open>add\<close> need not be
  associative, as the addition of \<open>float\<close>s is not: all that counts is that it is monotone.
\<close>

type_synonym 'c transition = "int \<times> int \<times> 'c"

inductive walk :: "('c \<Rightarrow> 'c \<Rightarrow> 'c) \<Rightarrow> 'c transition list list \<Rightarrow> int list \<Rightarrow> 'c \<Rightarrow> bool" for add where
  first: "(s, d, c) \<in> set L \<Longrightarrow> walk add [L] [d] c"
| further: "walk add Ls ps a \<Longrightarrow> (last ps, d, c) \<in> set L \<Longrightarrow> walk add (Ls @ [L]) (ps @ [d]) (add c a)"

inductive_cases walk_NilE: "walk add [] ps a"
inductive_cases walk_snocE: "walk add (Ls @ [L]) ps a"

lemma walk_nonempty: "walk add Ls ps a \<Longrightarrow> ps \<noteq> [] \<and> Ls \<noteq> []"
  by (induction rule: walk.induct) auto

lemma walk_length: "walk add Ls ps a \<Longrightarrow> length ps = length Ls"
  by (induction rule: walk.induct) auto

text \<open>The table of a layer holds the cheapest cost of every state reached and where it comes from;
  \<open>None\<close> is the table before the first layer, where every state may start.\<close>

type_synonym 'c table = "int \<rightharpoonup> 'c \<times> int"

definition arrive :: "('c \<Rightarrow> 'c \<Rightarrow> 'c) \<Rightarrow> 'c table option \<Rightarrow> int \<Rightarrow> 'c \<Rightarrow> 'c option" where
  "arrive add prev s c = (case prev of None \<Rightarrow> Some c | Some t \<Rightarrow> map_option (\<lambda>(a, _). add c a) (t s))"

definition relax :: "('c :: linorder \<Rightarrow> 'c \<Rightarrow> 'c) \<Rightarrow> 'c table option \<Rightarrow> 'c table \<Rightarrow> 'c transition \<Rightarrow> 'c table" where
  "relax add prev t = (\<lambda>(s, d, c). case arrive add prev s c of None \<Rightarrow> t
     | Some a \<Rightarrow> (case t d of None \<Rightarrow> t(d \<mapsto> (a, s)) | Some (b, _) \<Rightarrow> if a < b then t(d \<mapsto> (a, s)) else t))"

definition layer_table :: "('c :: linorder \<Rightarrow> 'c \<Rightarrow> 'c) \<Rightarrow> 'c table option \<Rightarrow> 'c transition list \<Rightarrow> 'c table" where
  "layer_table add prev L = foldl (relax add prev) Map.empty L"

text \<open>The tables of a lattice, the last one first.\<close>

fun prev_table :: "'c table list \<Rightarrow> 'c table option" where
  "prev_table [] = None"
| "prev_table (t # ts) = Some t"

definition lattice_tables :: "('c :: linorder \<Rightarrow> 'c \<Rightarrow> 'c) \<Rightarrow> 'c transition list list \<Rightarrow> 'c table list" where
  "lattice_tables add Ls = foldl (\<lambda>ts L. layer_table add (prev_table ts) L # ts) [] Ls"

fun trace :: "'c table list \<Rightarrow> int \<Rightarrow> int list" where
  "trace [] j = []"
| "trace (t # ts) j = j # (case t j of None \<Rightarrow> [] | Some (a, s) \<Rightarrow> trace ts s)"

fun full_trace :: "'c table list \<Rightarrow> int \<Rightarrow> bool" where
  "full_trace [] j = True"
| "full_trace (t # ts) j = (case t j of None \<Rightarrow> False | Some (a, s) \<Rightarrow> full_trace ts s)"

lemma length_full_trace: "full_trace ts j \<Longrightarrow> length (trace ts j) = length ts"
  by (induction ts j rule: trace.induct) (auto split: option.splits)

lemma lattice_tables_Nil [simp]: "lattice_tables add [] = []"
  by (simp add: lattice_tables_def)

lemma lattice_tables_snoc [simp]:
  "lattice_tables add (Ls @ [L]) = layer_table add (prev_table (lattice_tables add Ls)) L # lattice_tables add Ls"
  by (simp add: lattice_tables_def)

lemma length_lattice_tables [simp]: "length (lattice_tables add Ls) = length Ls"
  by (induction Ls rule: rev_induct) simp_all

section \<open>One layer\<close>

lemma relax_origin:
  assumes "relax add prev t (s, d, c) x = Some (a, r)"
  shows "t x = Some (a, r) \<or> (x = d \<and> r = s \<and> arrive add prev s c = Some a)"
  using assms by (auto simp: relax_def split: option.splits if_splits)

lemma relax_keeps:
  assumes "t x = Some (a, r)"
  shows "\<exists>b q. relax add prev t e x = Some (b, q) \<and> b \<le> a"
  using assms by (auto simp: relax_def split: option.splits prod.splits)

lemma relax_reaches:
  assumes "arrive add prev s c = Some a"
  shows "\<exists>b q. relax add prev t (s, d, c) d = Some (b, q) \<and> b \<le> a"
  using assms by (auto simp: relax_def not_less split: option.splits)

lemma layer_origin:
  assumes "layer_table add prev L x = Some (a, r)"
  shows "\<exists>c. (r, x, c) \<in> set L \<and> arrive add prev r c = Some a"
  using assms
proof (induction L rule: rev_induct)
  case (snoc e L)
  obtain s d c where e: "e = (s, d, c)" by (cases e)
  then show ?case using snoc relax_origin [of add prev "layer_table add prev L" s d c x a r] by (auto simp: layer_table_def)
qed (simp add: layer_table_def)

lemma layer_reaches:
  assumes "(s, d, c) \<in> set L" "arrive add prev s c = Some a"
  shows "\<exists>b q. layer_table add prev L d = Some (b, q) \<and> b \<le> a"
  using assms(1)
proof (induction L rule: rev_induct)
  case (snoc e L)
  show ?case
  proof (cases "e = (s, d, c)")
    case True
    then show ?thesis using relax_reaches [OF assms(2)] by (simp add: layer_table_def)
  next
    case False
    then obtain b q where b: "layer_table add prev L d = Some (b, q)" "b \<le> a" using snoc by auto
    obtain b' q' where "relax add prev (layer_table add prev L) e d = Some (b', q')" "b' \<le> b" using relax_keeps [of "layer_table add prev L" d b q add prev e] b(1) by blast
    then show ?thesis using b(2) by (auto simp: layer_table_def)
  qed
qed simp

section \<open>The whole lattice\<close>

lemma lattice_full_trace:
  assumes "lattice_tables add Ls = t # ts" "t x \<noteq> None"
  shows "full_trace (t # ts) x"
  using assms
proof (induction Ls arbitrary: t ts x rule: rev_induct)
  case (snoc L Ls)
  have t: "t = layer_table add (prev_table ts) L" "ts = lattice_tables add Ls" using snoc.prems(1) by auto
  obtain a r where tx: "t x = Some (a, r)" using snoc.prems(2) by auto
  then obtain c where c: "arrive add (prev_table ts) r c = Some a" using layer_origin t(1) by blast
  show ?case
  proof (cases ts)
    case (Cons t' ts')
    then have "lattice_tables add Ls = t' # ts'" "t' r \<noteq> None" using c t(2) by (auto simp: arrive_def)
    then have "full_trace (t' # ts') r" by (rule snoc.IH)
    then show ?thesis using tx Cons by simp
  qed (simp add: tx)
qed simp

locale monotone_cost =
  fixes add :: "'c :: linorder \<Rightarrow> 'c \<Rightarrow> 'c"
  assumes add_mono: "a \<le> b \<Longrightarrow> add c a \<le> add c b"
begin

lemma walk_bounded:
  assumes "walk add Ls ps a"
  shows "\<exists>t ts b q. lattice_tables add Ls = t # ts \<and> t (last ps) = Some (b, q) \<and> b \<le> a"
  using assms
proof induction
  case (first s d c L)
  have "arrive add None s c = Some c" by (simp add: arrive_def)
  then have "\<exists>b q. layer_table add None L d = Some (b, q) \<and> b \<le> c" by (rule layer_reaches [OF first])
  then show ?case by (simp add: lattice_tables_def)
next
  case (further Ls ps a d c L)
  then obtain t ts b q where t: "lattice_tables add Ls = t # ts" "t (last ps) = Some (b, q)" "b \<le> a" by blast
  have "arrive add (Some t) (last ps) c = Some (add c b)" using t by (simp add: arrive_def)
  then have "\<exists>b' q. layer_table add (Some t) L d = Some (b', q) \<and> b' \<le> add c b" by (rule layer_reaches [OF further(2)])
  then show ?case using add_mono [OF t(3), of c] t(1) by fastforce
qed

lemma trace_walk:
  assumes "lattice_tables add Ls = t # ts" "t x = Some (a, r)"
  shows "walk add Ls (rev (trace (t # ts) x)) a"
  using assms
proof (induction Ls arbitrary: t ts x a r rule: rev_induct)
  case (snoc L Ls)
  have t: "t = layer_table add (prev_table ts) L" "ts = lattice_tables add Ls" using snoc.prems(1) by auto
  obtain c where c: "(r, x, c) \<in> set L" "arrive add (prev_table ts) r c = Some a"
    using layer_origin snoc.prems(2) t(1) by blast
  show ?case
  proof (cases ts)
    case Nil
    then have "Ls = []" using t(2) length_lattice_tables [of add Ls] by simp
    then show ?thesis using c Nil snoc.prems(2) by (simp add: arrive_def walk.first)
  next
    case (Cons t' ts')
    then obtain b q where b: "t' r = Some (b, q)" "a = add c b" using c(2) by (auto simp: arrive_def)
    have "lattice_tables add Ls = t' # ts'" using t(2) Cons by simp
    then have "walk add Ls (rev (trace (t' # ts') r)) b" using b(1) by (rule snoc.IH)
    moreover have "last (rev (trace (t' # ts') r)) = r" by simp
    ultimately show ?thesis using c(1) Cons snoc.prems(2) b(2) walk.further [of add Ls "rev (trace (t' # ts') r)" b x c L] by simp
  qed
qed simp

lemma cheapest_walk:
  assumes "lattice_tables add Ls = t # ts" "t x = Some (a, r)" "\<And>y b q. t y = Some (b, q) \<Longrightarrow> a \<le> b"
  shows "walk add Ls (rev (trace (t # ts) x)) a \<and> (\<forall>ps b. walk add Ls ps b \<longrightarrow> a \<le> b)"
proof (intro conjI allI impI)
  fix ps b
  assume "walk add Ls ps b"
  then obtain b' q where "t (last ps) = Some (b', q)" "b' \<le> b" using walk_bounded assms(1) by fastforce
  then show "a \<le> b" using assms(3) by fastforce
qed (rule trace_walk [OF assms(1,2)])

lemma no_walk_iff: "(\<nexists>ps a. walk add Ls ps a) \<longleftrightarrow> Ls = [] \<or> (\<forall>x. hd (lattice_tables add Ls) x = None)"
proof (cases "lattice_tables add Ls")
  case Nil
  then have "Ls = []" using length_lattice_tables [of add Ls] by simp
  then show ?thesis by (auto dest: walk_nonempty)
next
  case (Cons t ts)
  then have ne: "Ls \<noteq> []" by auto
  show ?thesis
  proof
    assume none: "\<nexists>ps a. walk add Ls ps a"
    have "t x = None" for x
    proof (rule ccontr)
      assume "t x \<noteq> None"
      then obtain a r where "t x = Some (a, r)" by auto
      then show False using trace_walk [OF Cons] none by blast
    qed
    then show "Ls = [] \<or> (\<forall>x. hd (lattice_tables add Ls) x = None)" using Cons by simp
  next
    assume "Ls = [] \<or> (\<forall>x. hd (lattice_tables add Ls) x = None)"
    then show "\<nexists>ps a. walk add Ls ps a" using walk_bounded Cons ne by fastforce
  qed
qed

end

end
