(* ===== verification/Viterbi_Correct.thy ===== *)
theory Viterbi_Correct
  imports Viterbi_Search Lattice
begin

text \<open>
  The search finds a cheapest walk: the sheets hold the tables of the abstract lattice, and the path
  read from them is a walk whose cost is \<open>best_cost\<close>, which no walk undercuts.
\<close>

interpretation float_cost: monotone_cost float_add
  by unfold_locales (rule float_add_mono)

section \<open>The sheets hold the tables\<close>

definition row_table :: "int \<Rightarrow> Viterbi \<Rightarrow> rat table" where
  "row_table y v = (\<lambda>x. if 0 \<le> x \<and> x < vK v \<and> cell_const x y (v_src v) \<noteq> - 1
     then Some (cell_const x y (v_cost v), cell_const x y (v_src v)) else None)"

definition shape :: "Viterbi \<Rightarrow> bool" where
  "shape v \<longleftrightarrow> sp_w (v_cost v) = vK v \<and> sp_w (v_src v) = vK v \<and> sp_w (v_path v) = 1 \<and>
     sp_zero (v_cost v) = 0 \<and> sp_zero (v_src v) = - 1 \<and> sp_zero (v_path v) = - 1"

definition holds_tables :: "rat table list \<Rightarrow> rat table \<Rightarrow> Viterbi \<Rightarrow> bool" where
  "holds_tables ts t v \<longleftrightarrow> shape v \<and> v_index v = int (length ts) \<and> (\<forall>y < length ts. row_table (int y) v = rev ts ! y) \<and>
     row_table (int (length ts)) v = t \<and> (\<forall>y > int (length ts). row_table y v = Map.empty)"

text \<open>Touching cells and growing in length change nothing that is read.\<close>

lemma row_table_simps [simp]:
  "row_table y (v\<lparr>v_cost := cell_touch a b (v_cost v)\<rparr>) = row_table y v"
  "row_table y (v\<lparr>v_src := cell_touch a b (v_src v)\<rparr>) = row_table y v"
  "row_table y (v\<lparr>v_cost := cell_touch a b (v_cost v), v_src := cell_touch a' b' (v_src v)\<rparr>) = row_table y v"
  "row_table y (v\<lparr>v_path := p\<rparr>) = row_table y v" "row_table y (v\<lparr>path_valid := q\<rparr>) = row_table y v"
  "row_table y (v\<lparr>best_cost := bc\<rparr>) = row_table y v" "row_table y (assertMode n v) = row_table y v"
  by (simp_all add: row_table_def assertMode_def cong: if_cong)

lemma shape_simps [simp]:
  "shape (v\<lparr>v_cost := cell_touch a b (v_cost v)\<rparr>) = shape v"
  "shape (v\<lparr>v_src := cell_touch a b (v_src v)\<rparr>) = shape v"
  "shape (v\<lparr>v_cost := cell_touch a b (v_cost v), v_src := cell_touch a' b' (v_src v)\<rparr>) = shape v"
  "shape (v\<lparr>path_valid := q\<rparr>) = shape v" "shape (v\<lparr>best_cost := bc\<rparr>) = shape v" "shape (assertMode n v) = shape v"
  by (simp_all add: shape_def assertMode_def)

lemma grow_length_ok:
  assumes "shape v"
  shows "shape (grow_length v)" "row_table y (grow_length v) = row_table y v"
    "v_index (grow_length v) = v_index v" "vK (grow_length v) = vK v" "v_mode (grow_length v) = v_mode v"
  using assms by (simp_all add: grow_length_def grow_sheets_def shape_def row_table_def cong: if_cong)

lemma grow_states_id: "s0 < vK v \<Longrightarrow> s1 < vK v \<Longrightarrow> grow_states s0 s1 v = v"
  by (simp add: grow_states_def)

lemma vK_simps [simp]: "vK (assertMode n v) = vK v" "v_mode (assertMode n v) = n"
  by (simp_all add: assertMode_def)

lemma index_assertMode [simp]: "v_index (assertMode 1 v) = v_index v"
  by (simp add: assertMode_def)

section \<open>A transition\<close>

lemma transition_cost_ok:
  assumes "holds_tables ts t v" "0 \<le> s0" "s0 < vK v"
  shows "case transition_cost s0 c v of (c', sourced, v') \<Rightarrow>
    arrive float_add (prev_table ts) s0 c = (if sourced then Some c' else None) \<and> holds_tables ts t v' \<and> vK v' = vK v \<and> v_mode v' = v_mode v"
proof (cases ts)
  case Nil
  then show ?thesis using assms by (simp add: transition_cost_def holds_tables_def arrive_def)
next
  case (Cons p ps)
  then have i: "v_index v = int (length ps) + 1" using assms(1) by (simp add: holds_tables_def)
  have "row_table (int (length ps)) v = rev ts ! length ps" using assms(1) Cons by (simp add: holds_tables_def)
  then have "row_table (v_index v - 1) v = p" using Cons i by (simp add: nth_append)
  then have "arrive float_add (prev_table ts) s0 c = map_option (\<lambda>(a, _). float_add c a) (row_table (v_index v - 1) v s0)"
    using Cons by (simp add: arrive_def)
  moreover have "row_table (v_index v - 1) v s0 = (if cell_const s0 (v_index v - 1) (v_src v) \<noteq> - 1
      then Some (cell_const s0 (v_index v - 1) (v_cost v), cell_const s0 (v_index v - 1) (v_src v)) else None)"
    using assms(2,3) by (simp add: row_table_def)
  moreover have "0 < v_index v" using i by simp
  ultimately show ?thesis using assms(1) by (simp add: transition_cost_def holds_tables_def)
qed

lemma record_transition_row:
  assumes "shape v" "0 \<le> s1" "s1 < vK v" "0 \<le> s0"
  shows "row_table y (record_transition s0 s1 c v) =
    (if y = v_index v \<and> (case row_table y v s1 of None \<Rightarrow> True | Some (b, _) \<Rightarrow> c < b) then (row_table y v)(s1 \<mapsto> (c, s0)) else row_table y v)"
  using assms by (auto simp: row_table_def record_transition_def shape_def Let_def fun_eq_iff split: if_splits)

lemma record_transition_shape:
  assumes "shape v"
  shows "shape (record_transition s0 s1 c v)" "v_index (record_transition s0 s1 c v) = v_index v"
    "vK (record_transition s0 s1 c v) = vK v" "v_mode (record_transition s0 s1 c v) = v_mode v"
  using assms by (simp_all add: record_transition_def shape_def Let_def)

lemma addTransition_ok:
  assumes "holds_tables ts t v" "0 \<le> s0" "s0 < vK v" "0 \<le> s1" "s1 < vK v"
  shows "holds_tables ts (relax float_add (prev_table ts) t (s0, s1, c)) (addTransition s0 s1 c v)"
    "vK (addTransition s0 s1 c v) = vK v" "v_mode (addTransition s0 s1 c v) = 1"
proof -
  let ?v = "grow_length (assertMode 1 (v\<lparr>path_valid := False\<rparr>))"
  obtain c' sourced v' where tc: "transition_cost s0 c ?v = (c', sourced, v')" by (cases "transition_cost s0 c ?v") auto
  have ok: "holds_tables ts t ?v" and K: "vK ?v = vK v" and m: "v_mode ?v = 1"
    using assms(1) grow_length_ok [of "assertMode 1 (v\<lparr>path_valid := False\<rparr>)"] by (simp_all add: holds_tables_def)
  have arr: "arrive float_add (prev_table ts) s0 c = (if sourced then Some c' else None)" and
    ok': "holds_tables ts t v'" and K': "vK v' = vK v" and m': "v_mode v' = 1"
    using transition_cost_ok [OF ok assms(2), of c] tc assms(3) K m by simp_all
  have eq: "addTransition s0 s1 c v = (if sourced then record_transition s0 s1 c' v' else v')"
    using grow_states_id [OF assms(3,5)] tc by (simp add: addTransition_def)
  have sh: "shape v'" using ok' by (simp add: holds_tables_def)
  show "vK (addTransition s0 s1 c v) = vK v" "v_mode (addTransition s0 s1 c v) = 1"
    using record_transition_shape [OF sh] K' m' eq by simp_all
  show "holds_tables ts (relax float_add (prev_table ts) t (s0, s1, c)) (addTransition s0 s1 c v)"
  proof (cases sourced)
    case True
    have rows: "row_table y (record_transition s0 s1 c' v') =
        (if y = v_index v' then relax float_add (prev_table ts) t (s0, s1, c) else row_table y v')" for y
      using record_transition_row [OF sh assms(4) _ assms(2), of y c'] ok' K' assms(5) arr True
      by (auto simp: relax_def holds_tables_def split: option.splits)
    show ?thesis using ok' record_transition_shape [OF sh] rows eq True by (simp add: holds_tables_def)
  next
    case False
    then show ?thesis using ok' eq arr by (simp add: relax_def)
  qed
qed

section \<open>Layers\<close>

definition states_in :: "int \<Rightarrow> rat transition list \<Rightarrow> bool" where
  "states_in K L \<longleftrightarrow> (\<forall>(s0, s1, c) \<in> set L. 0 \<le> s0 \<and> s0 < K \<and> 0 \<le> s1 \<and> s1 < K)"

lemma transitions_ok:
  assumes "holds_tables ts t v" "states_in (vK v) L" "v_mode v = 1"
  shows "let v' = foldl (\<lambda>v (s0, s1, c). addTransition s0 s1 c v) v L
    in holds_tables ts (foldl (relax float_add (prev_table ts)) t L) v' \<and> vK v' = vK v \<and> v_mode v' = 1"
  using assms
proof (induction L arbitrary: t v)
  case (Cons e L)
  obtain s0 s1 c where e: "e = (s0, s1, c)" by (cases e)
  have "0 \<le> s0" "s0 < vK v" "0 \<le> s1" "s1 < vK v" using Cons.prems(2) e by (simp_all add: states_in_def)
  note * = addTransition_ok [OF Cons.prems(1) this]
  show ?case using Cons.IH [OF *(1) _ *(3)] Cons.prems(2) *(2) by (simp add: e states_in_def Let_def)
qed (simp add: Let_def)

lemma run_layer_ok:
  assumes "holds_tables ts Map.empty v" "states_in (vK v) L"
  shows "holds_tables (layer_table float_add (prev_table ts) L # ts) Map.empty (run_layer L v)" "vK (run_layer L v) = vK v" "v_mode (run_layer L v) = 0"
    "path_valid (run_layer L v) = False"
proof -
  let ?b = "beginTransitions v"
  let ?f = "foldl (\<lambda>v (s0, s1, c). addTransition s0 s1 c v) ?b L"
  have b: "holds_tables ts Map.empty ?b" "vK ?b = vK v" "v_mode ?b = 1"
    using assms(1) by (simp_all add: beginTransitions_def holds_tables_def)
  have f: "holds_tables ts (layer_table float_add (prev_table ts) L) ?f" "vK ?f = vK v" "v_mode ?f = 1"
    using transitions_ok [OF b(1) _ b(3)] assms(2) b(2) by (simp_all add: layer_table_def Let_def)
  have i: "v_index (run_layer L v) = v_index ?f + 1" "shape (run_layer L v) = shape ?f" "row_table y (run_layer L v) = row_table y ?f" for y
    using f(3) by (simp_all add: run_layer_def endTransitions_def) (simp add: assertMode_def)
  show "holds_tables (layer_table float_add (prev_table ts) L # ts) Map.empty (run_layer L v)"
    using f(1) i by (auto simp: holds_tables_def nth_append less_Suc_eq)
  show "vK (run_layer L v) = vK v" "v_mode (run_layer L v) = 0" "path_valid (run_layer L v) = False"
    using f(2) by (simp_all add: run_layer_def endTransitions_def) (simp add: assertMode_def)
qed

lemma setSize_ok:
  "holds_tables [] Map.empty (viterbi_setSize K T v)" "vK (viterbi_setSize K T v) = K"
  by (simp_all add: viterbi_setSize_def viterbi_reset_def holds_tables_def shape_def row_table_def)

lemma run_layers_ok:
  assumes "\<forall>L \<in> set Ls. states_in K L"
  shows "let v' = run_layers Ls (viterbi_setSize K T v)
    in holds_tables (lattice_tables float_add Ls) Map.empty v' \<and> vK v' = K \<and> v_mode v' = 0 \<and> path_valid v' = False"
  using assms
proof (induction Ls rule: rev_induct)
  case Nil
  then show ?case using setSize_ok by (simp add: run_layers_def Let_def) (simp add: viterbi_setSize_def viterbi_reset_def)
next
  case (snoc L Ls)
  let ?v = "run_layers Ls (viterbi_setSize K T v)"
  have "holds_tables (lattice_tables float_add Ls) Map.empty ?v" "vK ?v = K" using snoc by (simp_all add: Let_def)
  moreover have "states_in (vK ?v) L" using snoc.prems calculation by simp
  moreover have "run_layers (Ls @ [L]) (viterbi_setSize K T v) = run_layer L ?v" by (simp add: run_layers_def)
  ultimately show ?case using run_layer_ok [of "lattice_tables float_add Ls" ?v L] by (simp add: Let_def)
qed

section \<open>The cheapest end\<close>

definition same_rows :: "Viterbi \<Rightarrow> Viterbi \<Rightarrow> bool" where
  "same_rows v v' \<longleftrightarrow> (\<forall>y. row_table y v' = row_table y v) \<and> shape v' = shape v \<and> v_index v' = v_index v \<and> vK v' = vK v"

definition best_so_far :: "rat table \<Rightarrow> int \<Rightarrow> rat \<Rightarrow> int \<Rightarrow> bool" where
  "best_so_far t n best bestj \<longleftrightarrow>
     (if bestj = - 1 then \<forall>j. 0 \<le> j \<and> j < n \<longrightarrow> t j = None
      else (\<exists>r. t bestj = Some (best, r)) \<and> (\<forall>j b r. 0 \<le> j \<and> j < n \<and> t j = Some (b, r) \<longrightarrow> best \<le> b))"

lemma best_step_ok:
  assumes "best_so_far (row_table (v_index v - 1) v) j best bestj" "0 \<le> j" "j < vK v"
  shows "case best_step j (best, bestj, v) of (best', bestj', v') \<Rightarrow>
    best_so_far (row_table (v_index v - 1) v) (j + 1) best' bestj' \<and> same_rows v v'"
proof -
  let ?t = "row_table (v_index v - 1) v"
  have t: "?t j = (if cell_const j (v_index v - 1) (v_src v) \<noteq> - 1
      then Some (cell_const j (v_index v - 1) (v_cost v), cell_const j (v_index v - 1) (v_src v)) else None)"
    using assms(2,3) by (simp add: row_table_def)
  have next_j: "i < j + 1 \<longleftrightarrow> i < j \<or> i = j" for i :: int by auto
  obtain best' bestj' v' where st: "best_step j (best, bestj, v) = (best', bestj', v')" by (cases "best_step j (best, bestj, v)") auto
  have "same_rows v v'" using st by (auto simp: best_step_def Let_def same_rows_def split: if_splits)
  moreover have "(best', bestj') = (if (cell_const j (v_index v - 1) (v_cost v) < best \<or> bestj = - 1) \<and> ?t j \<noteq> None
      then (cell_const j (v_index v - 1) (v_cost v), j) else (best, bestj))"
    using st by (auto simp: best_step_def Let_def t split: if_splits)
  moreover have "best_so_far ?t (j + 1) best' bestj'" if "(best', bestj') = (if (c < best \<or> bestj = - 1) \<and> ?t j \<noteq> None then (c, j) else (best, bestj))"
      "\<And>b r. ?t j = Some (b, r) \<Longrightarrow> b = c" for c
    using that assms(1,2) unfolding best_so_far_def next_j by (fastforce split: if_splits)
  ultimately show ?thesis using st t by (auto split: if_splits)
qed

lemma same_rows_trans: "same_rows u v \<Longrightarrow> same_rows v w \<Longrightarrow> same_rows u w"
  by (simp add: same_rows_def)

lemma best_loop_ok:
  assumes "int n \<le> vK v"
  shows "case foldl (\<lambda>st j. best_step j st) (0, - 1, v) [0..int n - 1] of (best, bestj, v') \<Rightarrow>
    best_so_far (row_table (v_index v - 1) v) (int n) best bestj \<and> same_rows v v'"
  using assms
proof (induction n)
  case 0
  then show ?case by (auto simp: best_so_far_def same_rows_def)
next
  case (Suc n)
  let ?f = "\<lambda>n. foldl (\<lambda>st j. best_step j st) (0, - 1, v) [0..int n - 1]"
  obtain best bestj v1 where f: "?f n = (best, bestj, v1)" by (cases "?f n") auto
  have 1: "best_so_far (row_table (v_index v - 1) v) (int n) best bestj" "same_rows v v1" using Suc f by simp_all
  have "[0..int (Suc n) - 1] = [0..int n - 1] @ [int n]" by (simp add: upto_rec2)
  then have "?f (Suc n) = best_step (int n) (best, bestj, v1)" using f by simp
  moreover have "v_index v1 = v_index v" "row_table (v_index v1 - 1) v1 = row_table (v_index v - 1) v" "vK v1 = vK v"
    using 1(2) by (simp_all add: same_rows_def)
  ultimately show ?case using best_step_ok [of v1 "int n" best bestj] 1 Suc.prems
    by (auto simp: add.commute split: prod.splits intro: same_rows_trans)
qed

section \<open>The path\<close>

lemma path_loop_ok:
  assumes "shape v" "\<forall>y < length ts. row_table (int y) v = rev ts ! y" "full_trace ts j"
  shows "\<exists>v'. path_loop (length ts) j v = Some v' \<and> (\<forall>y < length ts. cell_const 0 (int y) (v_path v') = rev (trace ts j) ! y) \<and>
    (\<forall>y \<ge> length ts. cell_const 0 (int y) (v_path v') = cell_const 0 (int y) (v_path v)) \<and>
    v_index v' = v_index v \<and> best_cost v' = best_cost v"
  using assms
proof (induction ts arbitrary: j v)
  case (Cons t ts)
  let ?i = "int (length ts)"
  obtain a s where tj: "t j = Some (a, s)" "full_trace ts s" using Cons.prems(3) by (auto split: option.splits)
  have "row_table ?i v = t" using Cons.prems(2) by (simp add: nth_append)
  then have j: "0 \<le> j" "j < vK v" "cell_const j ?i (v_src v) = s" using tj(1) by (auto simp: row_table_def split: if_splits)
  let ?v = "v\<lparr>v_path := cell_assign 0 ?i j (v_path v), v_src := cell_touch j ?i (v_src v)\<rparr>"
  have sh: "shape ?v" using Cons.prems(1) by (simp add: shape_def)
  have rows: "\<forall>y < length ts. row_table (int y) ?v = rev ts ! y"
    using Cons.prems(2) by (simp add: row_table_def nth_append cong: if_cong)
  have w: "sp_w (v_path v) = 1" using Cons.prems(1) by (simp add: shape_def)
  obtain v' where v': "path_loop (length ts) s ?v = Some v'" "\<forall>y < length ts. cell_const 0 (int y) (v_path v') = rev (trace ts s) ! y"
      "\<forall>y \<ge> length ts. cell_const 0 (int y) (v_path v') = cell_const 0 (int y) (v_path ?v)"
      "v_index v' = v_index v" "best_cost v' = best_cost v"
    using Cons.IH [OF sh rows tj(2)] by auto
  have step: "path_loop (length (t # ts)) j v = Some v'" using v'(1) j by (simp add: Let_def)
  have at: "rev (trace (t # ts) j) = rev (trace ts s) @ [j]" "length (trace ts s) = length ts"
    using tj length_full_trace [OF tj(2)] by simp_all
  have "cell_const 0 (int y) (v_path v') = rev (trace (t # ts) j) ! y" if "y < length (t # ts)" for y
    using v'(2,3) that w unfolding at(1) by (auto simp: nth_append at(2) less_Suc_eq)
  moreover have "cell_const 0 (int y) (v_path v') = cell_const 0 (int y) (v_path v)" if "y \<ge> length (t # ts)" for y
    using v'(3) that w by simp
  ultimately show ?case using step v'(4,5) by blast
qed simp

lemma calculatePath_ok:
  assumes "holds_tables ts Map.empty v" "ts = t # ts'" "v_mode v = 0" "\<not> path_valid v" "0 \<le> vK v" "\<And>x. t x \<noteq> None \<Longrightarrow> full_trace ts x"
  shows "case calculatePath v of
      None \<Rightarrow> \<forall>x. t x = None
    | Some v' \<Rightarrow> path_valid v' \<and> v_index v' = v_index v \<and>
       (\<exists>j r. t j = Some (best_cost v', r) \<and> (\<forall>y b r. t y = Some (b, r) \<longrightarrow> best_cost v' \<le> b) \<and>
         (\<forall>y < length ts. cell_const 0 (int y) (v_path v') = rev (trace ts j) ! y))"
proof -
  let ?v = "endTransitions v"
  have v: "shape ?v" "v_index ?v = int (length ts)" "vK ?v = vK v" "\<forall>y < length ts. row_table (int y) ?v = rev ts ! y"
    using assms(1,3) by (simp_all add: endTransitions_def holds_tables_def) (simp add: assertMode_def)
  have "row_table (int (length ts')) ?v = t" using v(4) assms(2) by (simp add: nth_append)
  then have t: "row_table (v_index ?v - 1) ?v = t" using v(2) assms(2) by simp
  obtain best bestj v1 where f: "foldl (\<lambda>st j. best_step j st) (0, - 1, ?v) [0..vK ?v - 1] = (best, bestj, v1)"
    by (cases "foldl (\<lambda>st j. best_step j st) (0, - 1, ?v) [0..vK ?v - 1]") auto
  have b: "best_so_far t (vK v) best bestj" "same_rows ?v v1"
    using best_loop_ok [of "nat (vK v)" ?v] f assms(5) v(3) t by simp_all
  have dom: "0 \<le> x \<and> x < vK v" if "t x = Some z" for x z using that t v(3) by (auto simp: row_table_def split: if_splits)
  have i: "nat (v_index v1) = length ts" "v_index ?v = v_index v" using b(2) v(2) assms(1) by (simp_all add: same_rows_def holds_tables_def)
  have eq: "calculatePath v = map_option (\<lambda>v. v\<lparr>path_valid := True\<rparr>) (path_loop (length ts) bestj (v1\<lparr>best_cost := best\<rparr>))"
    using f assms(2,4) v(2) i by (simp add: calculatePath_def)
  show ?thesis
  proof (cases "bestj = - 1")
    case True
    have "t x = None" for x
    proof (cases "t x")
      case (Some z)
      then show ?thesis using b(1) dom [OF Some] True by (simp add: best_so_far_def)
    qed
    moreover have "calculatePath v = None" using eq True assms(2) by (simp add: Let_def)
    ultimately show ?thesis by simp
  next
    case False
    then obtain r where r: "t bestj = Some (best, r)" and
        in_range: "\<And>j b r. 0 \<le> j \<and> j < vK v \<and> t j = Some (b, r) \<Longrightarrow> best \<le> b"
      using b(1) by (auto simp: best_so_far_def)
    have least: "\<forall>y b r. t y = Some (b, r) \<longrightarrow> best \<le> b"
    proof (intro allI impI)
      fix y b r assume "t y = Some (b, r)"
      then show "best \<le> b" using in_range dom by blast
    qed
    have "shape (v1\<lparr>best_cost := best\<rparr>)" "\<forall>y < length ts. row_table (int y) (v1\<lparr>best_cost := best\<rparr>) = rev ts ! y"
      using b(2) v by (simp_all add: same_rows_def)
    note vr = this
    have "full_trace ts bestj" using assms(6) r by simp
    from path_loop_ok [OF vr this] obtain v' where "path_loop (length ts) bestj (v1\<lparr>best_cost := best\<rparr>) = Some v'"
        "\<forall>y < length ts. cell_const 0 (int y) (v_path v') = rev (trace ts bestj) ! y" "v_index v' = v_index v1" "best_cost v' = best"
      by auto
    then show ?thesis using eq r least b(2) i by (auto simp: same_rows_def)
  qed
qed

text \<open>A calculated path can be read any number of times.\<close>

definition path_view :: "int list \<Rightarrow> Viterbi \<Rightarrow> bool" where
  "path_view ps v \<longleftrightarrow> path_valid v \<and> v_index v = int (length ps) \<and> (\<forall>i < length ps. cell_const 0 (int i) (v_path v) = ps ! i)"

lemma getPath_view:
  assumes "path_view ps v" "i < length ps"
  shows "\<exists>v'. getPath (int i) v = Some (ps ! i, v') \<and> path_view ps v'"
  using assms by (simp add: path_view_def getPath_def calculatePath_def)

lemma viterbi_run:
  assumes "\<forall>L \<in> set Ls. states_in K L" "0 \<le> K" "v = run_layers Ls (viterbi_setSize K T v0)" "Ls \<noteq> []"
  shows "case calculatePath v of
      None \<Rightarrow> \<nexists>ps a. walk float_add Ls ps a
    | Some v' \<Rightarrow> \<exists>ps. path_view ps v' \<and> walk float_add Ls ps (best_cost v') \<and> (\<forall>qs b. walk float_add Ls qs b \<longrightarrow> best_cost v' \<le> b)"
    "v_index v = int (length Ls)"
proof -
  have v: "holds_tables (lattice_tables float_add Ls) Map.empty v" "vK v = K" "v_mode v = 0" "\<not> path_valid v"
    using run_layers_ok [OF assms(1), of T v0] assms(3) by (simp_all add: Let_def)
  show i: "v_index v = int (length Ls)" using v(1) by (simp add: holds_tables_def)
  obtain t ts where ts: "lattice_tables float_add Ls = t # ts"
    using assms(4) length_lattice_tables [of float_add Ls] by (cases "lattice_tables float_add Ls") auto
  have none: "(\<nexists>ps a. walk float_add Ls ps a) \<longleftrightarrow> (\<forall>x. t x = None)" using float_cost.no_walk_iff [of Ls] ts assms(4) by simp
  note calc = calculatePath_ok [OF v(1) ts v(3,4) _ lattice_full_trace [OF ts, folded ts]]
  show "case calculatePath v of None \<Rightarrow> \<nexists>ps a. walk float_add Ls ps a
    | Some v' \<Rightarrow> \<exists>ps. path_view ps v' \<and> walk float_add Ls ps (best_cost v') \<and> (\<forall>qs b. walk float_add Ls qs b \<longrightarrow> best_cost v' \<le> b)"
  proof (cases "calculatePath v")
    case None
    then show ?thesis using calc assms(2) v(2) none by simp
  next
    case (Some v')
    have "path_valid v' \<and> v_index v' = v_index v \<and> (\<exists>j r. t j = Some (best_cost v', r) \<and> (\<forall>y b r. t y = Some (b, r) \<longrightarrow> best_cost v' \<le> b) \<and>
        (\<forall>y < length Ls. cell_const 0 (int y) (v_path v') = rev (trace (t # ts) j) ! y))"
      using calc assms(2) v(2) Some ts length_lattice_tables [of float_add Ls] by (simp del: trace.simps)
    then obtain j r where j: "path_valid v'" "v_index v' = v_index v" "t j = Some (best_cost v', r)"
        "\<forall>y b r. t y = Some (b, r) \<longrightarrow> best_cost v' \<le> b" "\<forall>y < length Ls. cell_const 0 (int y) (v_path v') = rev (trace (t # ts) j) ! y"
      by blast
    let ?ps = "rev (trace (t # ts) j)"
    have w: "walk float_add Ls ?ps (best_cost v') \<and> (\<forall>qs b. walk float_add Ls qs b \<longrightarrow> best_cost v' \<le> b)"
      using float_cost.cheapest_walk [OF ts j(3)] j(4) by blast
    have "length ?ps = length Ls" by (rule walk_length [OF conjunct1 [OF w]])
    then have "path_view ?ps v'" using j(1,2,5) i by (simp add: path_view_def del: trace.simps)
    then have "\<exists>ps. path_view ps v' \<and> walk float_add Ls ps (best_cost v') \<and> (\<forall>qs b. walk float_add Ls qs b \<longrightarrow> best_cost v' \<le> b)"
      using w by blast
    then show ?thesis using Some by simp
  qed
qed

lemma walk_in_range:
  assumes "walk float_add Ls ps a" "\<forall>L \<in> set Ls. states_in K L"
  shows "\<forall>s \<in> set ps. 0 \<le> s \<and> s < K"
  using assms
proof (induction rule: walk.induct)
  case (first s d c L)
  then have "states_in K L" by simp
  then show ?case using first(1) by (auto simp: states_in_def)
next
  case (further Ls ps a d c L)
  then have "states_in K L" by simp
  then have "0 \<le> d \<and> d < K" using further(2) by (auto simp: states_in_def)
  then show ?case using further by simp
qed

section \<open>Properties\<close>

text \<open>
  C38: for a lattice whose states are below the number of states set, the path found is a walk through all of its
  layers, the cost reported is its cost, and no walk costs less (in \<open>float\<close> arithmetic); the program stops at an
  assertion exactly when there is no walk.
\<close>

theorem viterbi_optimal:
  assumes "\<forall>L \<in> set Ls. states_in K L" "0 \<le> K" "v = run_layers Ls (viterbi_setSize K T v0)" "Ls \<noteq> []"
  shows "if \<exists>ps a. walk float_add Ls ps a
    then \<exists>ps a. walk float_add Ls ps a \<and> (\<forall>qs b. walk float_add Ls qs b \<longrightarrow> a \<le> b) \<and>
      map_option fst (getCost v) = Some a \<and> map_option fst (viterbi_length v) = Some (int (length Ls)) \<and>
      (\<forall>i < length Ls. map_option fst (getPath (int i) v) = Some (ps ! i))
    else getCost v = None \<and> viterbi_length v = None \<and> (\<forall>i. getPath i v = None)"
proof (cases "calculatePath v")
  case None
  then have "\<nexists>ps a. walk float_add Ls ps a" using viterbi_run(1) [OF assms] by simp
  then show ?thesis using None viterbi_run(2) [OF assms] assms(4) by (simp add: getCost_def viterbi_length_def getPath_def)
next
  case (Some v')
  then obtain ps where ps: "path_view ps v'" "walk float_add Ls ps (best_cost v')" "\<forall>qs b. walk float_add Ls qs b \<longrightarrow> best_cost v' \<le> b"
    using viterbi_run(1) [OF assms] by auto
  have len: "length ps = length Ls" using walk_length [OF ps(2)] .
  have "map_option fst (getCost v) = Some (best_cost v')" "map_option fst (viterbi_length v) = Some (int (length Ls))"
      "\<forall>i < length Ls. map_option fst (getPath (int i) v) = Some (ps ! i)"
    using Some viterbi_run(2) [OF assms] assms(4) ps(1) len by (simp_all add: getCost_def viterbi_length_def getPath_def path_view_def)
  then show ?thesis using ps(2,3) by auto
qed

lemma viterbi_optimal_witness:
  "let Ls = [[(0, 0, 1), (0, 1, 2)], [(0, 1, 5), (1, 1, 1)]]; v = run_layers Ls (viterbi_setSize 2 2 (new_Viterbi 0 0 0))
   in \<exists>ps a. walk float_add Ls ps a \<and> (\<forall>qs b. walk float_add Ls qs b \<longrightarrow> a \<le> b) \<and>
      map_option fst (getCost v) = Some a \<and> map_option fst (viterbi_length v) = Some 2 \<and>
      (\<forall>i < 2. map_option fst (getPath (int i) v) = Some (ps ! i))"
proof -
  let ?Ls = "[[(0, 0, 1), (0, 1, 2)], [(0, 1, 5), (1, 1, 1)]] :: rat transition list list"
  have "walk float_add ([[(0, 0, 1), (0, 1, 2)]] @ [[(0, 1, 5), (1, 1, 1)]]) ([1] @ [1]) (float_add 1 2)"
    by (rule walk.further [OF walk.first [of 0 1 2]]) simp_all
  then have "\<exists>ps a. walk float_add ?Ls ps a" by auto
  then show ?thesis
    using viterbi_optimal [of ?Ls 2 "run_layers ?Ls (viterbi_setSize 2 2 (new_Viterbi 0 0 0))" 2 "new_Viterbi 0 0 0"]
    by (simp add: states_in_def Let_def numeral_2_eq_2)
qed

section \<open>Limits\<close>

lemmas viterbi_eval = run_layers_def run_layer_def viterbi_setSize_def viterbi_reset_def beginTransitions_def endTransitions_def
  assertMode_def addTransition_def grow_states_def grow_length_def grow_sheets_def transition_cost_def record_transition_def
  calculatePath_def best_step_def getCost_def new_Viterbi_def new_SparseSheet_def sparse_resize_def sparse_grow_def cell_assign_def
  cell_touch_def cell_const_def cell_key_def set_insert_at_def float_add_def round_float_def upto_rec1

text \<open>After \<open>reset\<close> the cells of the last lattice are still there: the only walk costs 5, the cost reported
  is that of the walk of the last lattice.\<close>

lemma reset_keeps_old_costs:
  "map_option fst (getCost (run_layers [[(0, 0, 5)]] (viterbi_reset (run_layers [[(0, 0, 1)]] (viterbi_setSize 1 1 (new_Viterbi 0 0 0)))))) = Some 1"
  by (simp add: viterbi_eval Let_def)

text \<open>A state number above the size set widens the sheets, which moves the cells of earlier layers: the
  program ends with a failed assertion although there is a walk.\<close>

lemma growing_loses_walks:
  "getCost (run_layers [[(0, 0, 0)], [(0, 0, 0)], [(0, 1, 0)]] (viterbi_setSize 1 3 (new_Viterbi 0 0 0))) = None"
  by (simp add: viterbi_eval Let_def numeral_3_eq_3)

lemma growing_has_walk: "walk float_add [[(0, 0, 0)], [(0, 0, 0)], [(0, 1, 0)]] [0, 0, 1] (float_add 0 (float_add 0 0))"
  using walk.further [OF walk.further [OF walk.first [of 0 0 0 "[(0, 0, 0)]" float_add]], of 0 0 "[(0, 0, 0)]" 1 0 "[(0, 1, 0)]"] by simp

end
