(* ===== verification/Order_Merge_Correct.thy ===== *)
theory Order_Merge_Correct
  imports Order_Merge Viterbi_Correct "HOL-Library.Multiset"
begin

text \<open>
  Merging the orders keeps the units: every unit of the local table and every new unit of the remote one is
  collected once, with its partners, and putting them in order loses none and doubles none.
\<close>

section \<open>What is collected\<close>

definition local_unit :: "order_result \<Rightarrow> order_result \<Rightarrow> nat \<Rightarrow> match_unit" where
  "local_unit ol orr l = (let p = b2a ol (int l); r = a2b orr p in
     if p = - 1 then MatchUnit (- 1) (int l) (- 1) False MATCH_UNIT_PRESERVE
     else if r = - 1 then MatchUnit p (int l) (- 1) True MATCH_UNIT_DELETE
     else MatchUnit p (int l) r False MATCH_UNIT_PRESERVE)"

definition remote_unit :: "nat \<Rightarrow> match_unit" where
  "remote_unit r = MatchUnit (- 1) (- 1) (int r) False MATCH_UNIT_INSERT"

definition remote_new :: "order_result \<Rightarrow> nat set" where
  "remote_new orr = {r. r < blen orr \<and> b2a orr (int r) = - 1}"

text \<open>A partner in the remote table exists and has a partner in the pivot.\<close>

definition order_ok :: "order_result \<Rightarrow> bool" where
  "order_ok orr \<longleftrightarrow> (\<forall>p. 0 \<le> a2b orr p \<longrightarrow> a2b orr p < int (blen orr) \<and> b2a orr (a2b orr p) \<noteq> - 1)"

definition seen :: "order_result \<Rightarrow> process_state \<Rightarrow> nat set" where
  "seen orr st = {r \<in> remote_new orr. xremote st ! r \<noteq> 0}"

definition collected :: "order_result \<Rightarrow> order_result \<Rightarrow> match_unit list \<Rightarrow> nat \<Rightarrow> process_state \<Rightarrow> bool" where
  "collected ol orr acc k st \<longleftrightarrow> length (xlocal st) = blen ol \<and> length (xremote st) = blen orr \<and>
     (\<forall>j. k \<le> j \<and> j < blen ol \<longrightarrow> xlocal st ! j = 0) \<and>
     mset (accum st) = mset acc + mset (map (local_unit ol orr) [0..<k]) + image_mset remote_unit (mset_set (seen orr st))"

lemma finite_remote_new [simp]: "finite (remote_new orr)"
  by (simp add: remote_new_def)

lemma finite_seen [simp]: "finite (seen orr st)"
  by (simp add: seen_def)

lemma collected_base [simp]:
  "collected ol orr acc k (st\<lparr>base_local := x\<rparr>) = collected ol orr acc k st"
  "collected ol orr acc k (st\<lparr>base_remote := x\<rparr>) = collected ol orr acc k st"
  by (simp_all add: collected_def seen_def)

subsection \<open>The remote side\<close>

lemma seen_remote_step:
  assumes "length (xremote st) = blen orr"
  shows "seen orr (remote_step orr r st) = (if r \<in> remote_new orr then insert r (seen orr st) else seen orr st)"
  using assms by (auto simp: seen_def remote_step_def remote_new_def accum_push_def nth_list_update)

lemma collected_remote_step:
  assumes "collected ol orr acc k st"
  shows "collected ol orr acc k (remote_step orr r st)"
proof (cases "r \<in> remote_new orr \<and> xremote st ! r = 0")
  case True
  have len: "length (xremote st) = blen orr" using assms by (simp add: collected_def)
  have "r \<notin> seen orr st" using True by (simp add: seen_def)
  moreover have "remote_step orr r st = (accum_push (remote_unit r) st)\<lparr>xremote := (xremote st)[r := 1]\<rparr>"
    using True len by (simp add: remote_step_def remote_new_def remote_unit_def)
  moreover have "seen orr (remote_step orr r st) = insert r (seen orr st)" using seen_remote_step [OF len] True by simp
  ultimately show ?thesis using assms by (simp add: collected_def accum_push_def)
next
  case False
  then have "remote_step orr r st = st" using assms by (auto simp: remote_step_def remote_new_def collected_def)
  then show ?thesis using assms by simp
qed

definition remote_run :: "order_result \<Rightarrow> nat list \<Rightarrow> process_state \<Rightarrow> process_state" where
  "remote_run orr rs st = foldl (\<lambda>st r. (remote_step orr r st)\<lparr>base_remote := base_remote (remote_step orr r st) + 1\<rparr>) st rs"

lemma process_remote:
  assumes "stop_local \<le> il"
  shows "process ol orr il ir stop_local stop_remote st = Some (remote_run orr [ir..<nat stop_remote] st)"
proof (induction "nat stop_remote - ir" arbitrary: ir st)
  case 0
  then show ?case using assms by (subst process.simps) (simp add: remote_run_def nat_le_iff)
next
  case (Suc n)
  then have "int ir < stop_remote" "[ir..<nat stop_remote] = ir # [Suc ir..<nat stop_remote]" "n = nat stop_remote - Suc ir"
    by (simp_all add: upt_conv_Cons)
  then show ?case using assms Suc.hyps(1) by (subst process.simps) (simp add: remote_run_def Let_def)
qed

lemma collected_remote_run:
  assumes "collected ol orr acc k st"
  shows "collected ol orr acc k (remote_run orr rs st) \<and> seen orr (remote_run orr rs st) = seen orr st \<union> (set rs \<inter> remote_new orr) \<and>
    base_local (remote_run orr rs st) = base_local st"
  using assms
proof (induction rs arbitrary: st)
  case (Cons r rs)
  let ?st = "(remote_step orr r st)\<lparr>base_remote := base_remote (remote_step orr r st) + 1\<rparr>"
  have 1: "collected ol orr acc k ?st" using collected_remote_step [OF Cons.prems] by simp
  have "seen orr ?st = seen orr (remote_step orr r st)" by (simp add: seen_def)
  also have "\<dots> = (if r \<in> remote_new orr then insert r (seen orr st) else seen orr st)"
    using Cons.prems by (intro seen_remote_step) (simp add: collected_def)
  finally have 2: "seen orr ?st = (if r \<in> remote_new orr then insert r (seen orr st) else seen orr st)" .
  have 3: "base_local ?st = base_local st" by (simp add: remote_step_def accum_push_def)
  have "remote_run orr (r # rs) st = remote_run orr rs ?st" by (simp add: remote_run_def)
  then show ?case using Cons.IH [OF 1] 2 3 by auto
qed (simp add: remote_run_def)

subsection \<open>The local side\<close>

lemma collected_local_only:
  assumes "collected ol orr acc l st" "l < blen ol" "b2a ol (int l) = p" "p = - 1 \<or> a2b orr p = - 1"
  shows "collected ol orr acc (Suc l) (local_only p l st)"
proof -
  have "local_only p l st = st\<lparr>accum := accum st @ [local_unit ol orr l], xlocal := (xlocal st)[l := 1]\<rparr>"
    using assms(3,4) by (auto simp: local_only_def accum_push_def local_unit_def Let_def)
  then show ?thesis using assms(1,2) by (auto simp: collected_def seen_def)
qed

lemma collected_keep_unit:
  assumes "collected ol orr acc l st" "l < blen ol" "b2a ol (int l) = p" "p \<noteq> - 1" "a2b orr p = r" "r \<noteq> - 1" "order_ok orr"
  shows "\<exists>st'. keep_unit p l r st = Some st' \<and> collected ol orr acc (Suc l) st' \<and> base_local st' = base_local st"
proof -
  have r: "0 \<le> r \<Longrightarrow> r < int (blen orr) \<and> b2a orr r \<noteq> - 1" using assms(5,7) unfolding order_ok_def by blast
  have len: "length (xremote st) = blen orr" using assms(1) by (simp add: collected_def)
  let ?x = "if r \<ge> 0 then (xremote st)[nat r := 1] else xremote st"
  let ?st = "st\<lparr>accum := accum st @ [local_unit ol orr l], xremote := ?x, xlocal := (xlocal st)[l := 1]\<rparr>"
  have "keep_unit p l r st = Some ?st"
    using assms(3-6) r len by (auto simp: keep_unit_def accum_push_def local_unit_def Let_def)
  moreover have "seen orr ?st = seen orr st"
  proof -
    have "(xremote st)[nat r := 1] ! x = xremote st ! x" if "0 \<le> r" "x \<in> remote_new orr" for x
      using r that by (cases "nat r = x") (auto simp: remote_new_def)
    then show ?thesis by (auto simp: seen_def)
  qed
  then have "collected ol orr acc (Suc l) ?st" using assms(1,2) by (auto simp: collected_def)
  ultimately show ?thesis by auto
qed

lemma process_local:
  assumes "collected ol orr acc l st" "base_local st = l" "l \<le> blen ol" "order_ok orr"
  shows "\<exists>st'. process ol orr l 0 (blen ol) (int (blen orr)) st = Some st' \<and> collected ol orr acc (blen ol) st' \<and> seen orr st' = remote_new orr"
  using assms(1-3)
proof (induction "blen ol - l" arbitrary: l st)
  case 0
  then have "process ol orr l 0 (blen ol) (int (blen orr)) st = Some (remote_run orr [0..<blen orr] st)" by (simp add: process_remote)
  moreover have "set [0..<blen orr] \<inter> remote_new orr = remote_new orr" by (auto simp: remote_new_def)
  moreover have "seen orr st \<subseteq> remote_new orr" by (auto simp: seen_def)
  ultimately show ?case using collected_remote_run [OF 0(2), of "[0..<blen orr]"] 0 by auto
next
  case (Suc n)
  then have l: "l < blen ol" "n = blen ol - Suc l" "xlocal st ! l = 0" "l < length (xlocal st)" by (simp_all add: collected_def)
  let ?p = "b2a ol (int l)" and ?r = "a2b orr (b2a ol (int l))"
  have next_l: "process ol orr l 0 (blen ol) (int (blen orr)) st = Option.bind
      (if ?p \<noteq> - 1 \<and> ?r \<noteq> - 1 then keep_unit ?p l ?r (remote_run orr [base_remote st..<nat ?r] st) else Some (local_only ?p l st))
      (\<lambda>st. process ol orr (Suc l) 0 (blen ol) (int (blen orr)) (st\<lparr>base_local := base_local st + 1\<rparr>))"
    using l Suc.prems(2) by (subst process.simps) (simp add: Let_def process_remote cong: if_cong)
  have "\<exists>st'. (if ?p \<noteq> - 1 \<and> ?r \<noteq> - 1 then keep_unit ?p l ?r (remote_run orr [base_remote st..<nat ?r] st) else Some (local_only ?p l st)) = Some st' \<and>
      collected ol orr acc (Suc l) st' \<and> base_local st' = l"
  proof (cases "?p \<noteq> - 1 \<and> ?r \<noteq> - 1")
    case True
    let ?st = "remote_run orr [base_remote st..<nat ?r] st"
    have "collected ol orr acc l ?st" "base_local ?st = l" using collected_remote_run [OF Suc.prems(1)] Suc.prems(2) by simp_all
    then show ?thesis using collected_keep_unit [of ol orr acc l ?st ?p ?r] l(1) True assms(4) by simp
  next
    case False
    then show ?thesis using collected_local_only [OF Suc.prems(1) l(1) refl] Suc.prems(2)
      by (auto simp: local_only_def accum_push_def Let_def)
  qed
  then obtain st' where st': "collected ol orr acc (Suc l) st'" "base_local st' = l" and
    eq: "process ol orr l 0 (blen ol) (int (blen orr)) st = process ol orr (Suc l) 0 (blen ol) (int (blen orr)) (st'\<lparr>base_local := Suc l\<rparr>)"
    using next_l by auto
  show ?case unfolding eq using Suc.hyps(1) [OF l(2)] st' l(1) by simp
qed

lemma collect_units_ok:
  assumes "order_ok orr"
  shows "\<exists>us. collect_units ol orr acc = Some us \<and>
    mset us = mset acc + mset (map (local_unit ol orr) [0..<blen ol]) + image_mset remote_unit (mset_set (remote_new orr))"
proof -
  let ?st = "\<lparr>accum = acc, xlocal = replicate (blen ol) 0, xremote = replicate (blen orr) 0, base_local = 0, base_remote = 0\<rparr>"
  have none: "seen orr ?st = {}" by (auto simp: seen_def remote_new_def)
  have "collected ol orr acc 0 ?st" by (simp add: collected_def none)
  then obtain st' where "process ol orr 0 0 (blen ol) (int (blen orr)) ?st = Some st'" "collected ol orr acc (blen ol) st'" "seen orr st' = remote_new orr"
    using process_local [OF _ _ _ assms] by fastforce
  then show ?thesis by (simp add: collect_units_def collected_def)
qed

section \<open>The lattice of the units\<close>

definition table_range :: "int \<Rightarrow> unit_tables \<Rightarrow> bool" where
  "table_range n t \<longleftrightarrow> (\<forall>k \<in> ran (l2k t) \<union> ran (r2k t) \<union> ran (p2k t). 0 \<le> k \<and> k < n)"

lemma table_unit_range:
  assumes "table_range n t" "0 \<le> ct" "ct < n"
  shows "table_range n (table_unit (ct, u) t)"
proof -
  have "ran (m(x \<mapsto> ct)) \<subseteq> insert ct (ran m)" for m :: "int \<rightharpoonup> int" and x by (auto simp: ran_def)
  then show ?thesis using assms by (auto simp: table_range_def table_unit_def Let_def dest!: subsetD)
qed

lemma tables_of_range: "table_range (int (length us)) (tables_of us)"
proof -
  have "table_range n (foldl (\<lambda>t x. table_unit x t) t xs)" if "table_range n t" "\<forall>x \<in> set xs. 0 \<le> fst x \<and> fst x < n" for n t xs
    using that by (induction xs arbitrary: t) (auto simp: table_unit_range)
  moreover have "table_range n \<lparr>l2k = Map.empty, r2k = Map.empty, p2k = Map.empty, availableP = [], availableL = [], availableR = [], lowestL = - 2, lowestR = - 2\<rparr>" for n
    by (simp add: table_range_def)
  ultimately show ?thesis unfolding tables_of_def by auto
qed

lemma table_range_entry:
  assumes "table_range n t" "m = l2k t \<or> m = r2k t \<or> m = p2k t" "m y = Some k"
  shows "0 \<le> k \<and> k < n"
proof -
  have "k \<in> ran (l2k t) \<union> ran (r2k t) \<union> ran (p2k t)" using assms(2,3) by (auto simp: ran_def)
  then show ?thesis using assms(1) by (auto simp: table_range_def)
qed

lemma safe_next_range:
  assumes "table_range n t" "m = l2k t \<or> m = r2k t \<or> m = p2k t" "0 \<le> n"
  shows "0 \<le> safe_next m y n \<and> safe_next m y n \<le> n"
  using table_range_entry [OF assms(1,2), of y] assms(3) by (cases "m y") (auto simp: safe_next_def)

lemma draw_next_range:
  assumes "table_range n t" "x \<in> set (draw_next t n u)" "0 \<le> n"
  shows "0 \<le> x \<and> x \<le> n"
proof -
  have "x \<in> {safe_next (p2k t) (next_avail (availableP t) (pivotUnit u)) n, safe_next (l2k t) (next_avail (availableL t) (localUnit u)) n,
      safe_next (r2k t) (next_avail (availableR t) (remoteUnit u)) n}"
    using assms(2) by (auto simp: draw_next_def Let_def split: if_splits)
  then show ?thesis using safe_next_range [OF assms(1) _ assms(3)] by auto
qed

lemma set_set_add [simp]: "set (set_add x s) = insert x (set s)"
  by (simp add: set_add_def set_insort_insert)

lemma set_add_fold: "set (foldl (\<lambda>s d. set_add (f d) s) s ds) = f ` set ds \<union> set s"
  by (induction ds arbitrary: s) auto

lemma states_in_append [simp]: "states_in K (L @ M) \<longleftrightarrow> states_in K L \<and> states_in K M"
  by (simp add: states_in_def ball_Un)

lemma states_in_simps: "states_in K []" "states_in K ((a, b, c) # L) \<longleftrightarrow> 0 \<le> a \<and> a < K \<and> 0 \<le> b \<and> b < K \<and> states_in K L"
  by (auto simp: states_in_def)

definition has_dud :: "int \<Rightarrow> (int \<times> int \<times> rat) list \<Rightarrow> bool" where
  "has_dud d L \<longleftrightarrow> (\<exists>c. (d, d, c) \<in> set L)"

lemma draw_layers_ok:
  assumes "table_range (int (length us)) t" "\<forall>k \<in> set idx. 0 \<le> k \<and> k \<le> int (length us)"
  shows "\<exists>Ls. draw_layers n t (int (length us)) us idx = Some Ls \<and> length Ls = n \<and>
    (\<forall>L \<in> set Ls. states_in (int (length us) + 1) L \<and> has_dud (int (length us)) L)"
  using assms(2)
proof (induction n arbitrary: idx)
  case (Suc n)
  let ?d = "int (length us)"
  let ?ks = "filter (\<lambda>k. k \<noteq> ?d) idx"
  let ?ds = "concat (map (\<lambda>k. map (\<lambda>n. (k, n, 0 :: rat)) (draw_next t ?d (us ! nat k))) ?ks)"
  let ?idx = "foldl (\<lambda>s d. set_add (fst (snd d)) s) [] ?ds"
  have ks: "\<not> (\<exists>k \<in> set ?ks. k < 0 \<or> k \<ge> ?d)" using Suc.prems by auto
  have ds: "0 \<le> a \<and> a < ?d \<and> 0 \<le> b \<and> b \<le> ?d" if "(a, b, c) \<in> set ?ds" for a b c
    using that Suc.prems draw_next_range [OF assms(1)] by force
  have "\<forall>k \<in> set ?idx. 0 \<le> k \<and> k \<le> ?d" using ds unfolding set_add_fold by force
  then obtain Ls where Ls: "draw_layers n t ?d us ?idx = Some Ls" "length Ls = n"
      "\<forall>L \<in> set Ls. states_in (?d + 1) L \<and> has_dud ?d L"
    using Suc.IH by blast
  have "states_in (?d + 1) (?ds @ [(?d, ?d, 1)])" "has_dud ?d (?ds @ [(?d, ?d, 1)])"
    using ds by (fastforce simp: states_in_def, auto simp: has_dud_def)
  moreover have "draw_layers (Suc n) t ?d us idx = Some ((?ds @ [(?d, ?d, 1)]) # Ls)" using ks Ls(1) by (simp add: Let_def)
  ultimately show ?case using Ls by simp
qed simp

lemma first_layer_ok:
  assumes "table_range n t" "0 \<le> n"
  shows "states_in (n + 1) (first_layer t n) \<and> has_dud n (first_layer t n)"
proof -
  have entry: "0 \<le> (case m y of None \<Rightarrow> 0 | Some k \<Rightarrow> k) \<and> (case m y of None \<Rightarrow> 0 | Some k \<Rightarrow> k) < n + 1"
      if "m = l2k t \<or> m = r2k t \<or> m = p2k t" for m y
    using table_range_entry [OF assms(1) that, of y] assms(2) by (cases "m y") auto
  have "states_in (n + 1) (first_layer t n)"
    using entry [of "l2k t" "lowestL t"] entry [of "r2k t" "lowestR t"] assms(2)
    by (cases "0 \<le> lowestL t"; cases "0 \<le> lowestR t") (simp_all add: first_layer_def Let_def states_in_simps)
  moreover have "(n, n, 1) \<in> set (first_layer t n)" by (simp add: first_layer_def)
  ultimately show ?thesis by (auto simp: has_dud_def)
qed

lemma unit_layers_ok:
  "\<exists>Ls. unit_layers us = Some Ls \<and> length Ls = max 1 (length us) + 1 \<and>
    (\<forall>L \<in> set Ls. states_in (int (length us) + 1) L \<and> has_dud (int (length us)) L)"
proof -
  let ?d = "int (length us)" and ?t = "tables_of us"
  let ?idx = "foldl (\<lambda>s d. set_add (fst (snd d)) s) [] (butlast (first_layer ?t ?d))"
  have f: "states_in (?d + 1) (first_layer ?t ?d)" "has_dud ?d (first_layer ?t ?d)" using first_layer_ok [OF tables_of_range] by auto
  have "\<forall>k \<in> set ?idx. 0 \<le> k \<and> k \<le> ?d" unfolding set_add_fold using f(1) by (force simp: states_in_def dest: in_set_butlastD)
  then obtain Ls where "draw_layers (length us - 1) ?t ?d us ?idx = Some Ls" "length Ls = length us - 1"
      "\<forall>L \<in> set Ls. states_in (?d + 1) L \<and> has_dud ?d L"
    using draw_layers_ok [OF tables_of_range] by blast
  moreover have "states_in (?d + 1) (last_layer (length us))" "has_dud ?d (last_layer (length us))"
    by (auto simp: states_in_def last_layer_def has_dud_def)
  ultimately show ?thesis using f by (auto simp: unit_layers_def Let_def)
qed

text \<open>The unit that stands for nothing can be drawn all along, so there is a walk.\<close>

lemma dud_walk:
  assumes "Ls \<noteq> []" "\<forall>L \<in> set Ls. has_dud d L"
  shows "\<exists>a. walk float_add Ls (replicate (length Ls) d) a"
  using assms
proof (induction Ls rule: rev_induct)
  case (snoc L Ls)
  then obtain c where c: "(d, d, c) \<in> set L" by (auto simp: has_dud_def)
  show ?case
  proof (cases "Ls = []")
    case True
    then show ?thesis using walk.first [OF c, of float_add] by auto
  next
    case False
    then obtain a where a: "walk float_add Ls (replicate (length Ls) d) a" using snoc by auto
    have "last (replicate (length Ls) d) = d" using False by simp
    then have "walk float_add (Ls @ [L]) (replicate (length Ls) d @ [d]) (float_add c a)" using walk.further [OF a] c by simp
    then show ?thesis by (auto simp: replicate_append_same)
  qed
qed simp

section \<open>A round\<close>

lemma accept_units_ok:
  assumes "path_view ps v" "\<forall>s \<in> set ps. 0 \<le> s \<and> s \<le> int (length us)" "length ps = Suc q" "i + n = q"
    "int (length us) \<in> dups" "distinct acc" "set acc \<subseteq> dups" "\<forall>k \<in> set acc. 0 \<le> k \<and> k < int (length us)"
  shows "\<exists>good acc'. accept_units n (int i) (int q) us v dups acc = Some (good, acc') \<and> distinct acc' \<and>
    (\<forall>k \<in> set acc'. 0 \<le> k \<and> k < int (length us))"
  using assms(1,4-8)
proof (induction n arbitrary: i v dups acc)
  case (Suc n)
  obtain v1 where v1: "getPath (int i) v = Some (ps ! i, v1)" "path_view ps v1"
    using getPath_view [OF Suc.prems(1), of i] Suc.prems(2) assms(3) by auto
  obtain k2 v2 where v2: "(if int i < int q - 1 then getPath (int i + 1) v1 else Some (ps ! i, v1)) = Some (k2, v2)" "path_view ps v2"
  proof (cases "int i < int q - 1")
    case True
    then obtain v2 where "getPath (int (Suc i)) v1 = Some (ps ! Suc i, v2)" "path_view ps v2"
      using getPath_view [OF v1(2), of "Suc i"] assms(3) by auto
    then show ?thesis using that True by (simp add: add.commute)
  qed (use v1 that in simp)
  show ?case
  proof (cases "ps ! i \<notin> dups \<and> k2 \<notin> dups")
    case True
    have "ps ! i \<in> set ps" using assms(3) Suc.prems(2) by simp
    then have k: "0 \<le> ps ! i" "ps ! i < int (length us)" using assms(2) True Suc.prems(3) by (auto simp: order_less_le)
    have "\<exists>good acc'. accept_units n (int (Suc i)) (int q) us v2 (insert (ps ! i) dups) (acc @ [ps ! i]) = Some (good, acc') \<and> distinct acc' \<and>
        (\<forall>k \<in> set acc'. 0 \<le> k \<and> k < int (length us))"
      using Suc.prems True k v2(2) by (intro Suc.IH) auto
    moreover have "accept_units (Suc n) (int i) (int q) us v dups acc = accept_units n (int (Suc i)) (int q) us v2 (insert (ps ! i) dups) (acc @ [ps ! i])"
      using v1(1) v2(1) True k by (simp add: add.commute)
    ultimately show ?thesis by simp
  next
    case False
    then have "accept_units (Suc n) (int i) (int q) us v dups acc = Some (False, acc)" using v1(1) v2(1) by auto
    then show ?thesis using Suc.prems(4,6) by blast
  qed
qed auto

lemma split_by_index:
  assumes "distinct acc" "\<forall>k \<in> set acc. 0 \<le> k \<and> k < int (length us)"
  shows "mset (map (\<lambda>k. us ! nat k) acc) + mset (map (\<lambda>i. us ! i) (filter (\<lambda>i. int i \<notin> set acc) [0..<length us])) = mset us"
proof -
  have inj: "inj_on nat (set acc)" using assms(2) by (intro inj_onI) (auto simp: nat_eq_iff2)
  then have "distinct (map nat acc)" using assms(1) by (simp add: distinct_map)
  then have 1: "mset (map nat acc) = mset_set {i. i < length us \<and> int i \<in> set acc}"
  proof -
    assume d: "distinct (map nat acc)"
    have "set (map nat acc) = {i. i < length us \<and> int i \<in> set acc}" using assms(2) by (force simp: image_iff)
    then show ?thesis using mset_set_set [OF d] by simp
  qed
  have "mset (filter (\<lambda>i. int i \<notin> set acc) [0..<length us]) = mset_set {i. i < length us \<and> int i \<notin> set acc}"
  proof -
    have "distinct (filter (\<lambda>i. int i \<notin> set acc) [0..<length us])" by simp
    then show ?thesis by (subst mset_set_set [symmetric]) (auto intro: arg_cong [of _ _ mset_set])
  qed
  then have "mset (map nat acc) + mset (filter (\<lambda>i. int i \<notin> set acc) [0..<length us]) =
      mset_set ({i. i < length us \<and> int i \<in> set acc} \<union> {i. i < length us \<and> int i \<notin> set acc})"
    using 1 by (subst mset_set_Union) auto
  also have "{i. i < length us \<and> int i \<in> set acc} \<union> {i. i < length us \<and> int i \<notin> set acc} = {0..<length us}" by auto
  finally have "image_mset (nth us) (mset (map nat acc) + mset (filter (\<lambda>i. int i \<notin> set acc) [0..<length us])) = image_mset (nth us) (mset [0..<length us])"
    by (simp add: mset_upt)
  also have "\<dots> = mset us" by (metis map_nth mset_map)
  finally show ?thesis by (simp add: image_mset.compositionality comp_def)
qed

lemma merge_round_ok:
  "\<exists>chosen rest again. merge_round src v0 = Some (chosen, rest, again) \<and>
    mset chosen + mset rest = mset (filter (\<lambda>u. \<not> deleted u) src) \<and> (\<forall>u \<in> set rest. \<not> deleted u)"
proof -
  let ?us = "filter (\<lambda>u. \<not> deleted u) src"
  let ?n = "length ?us"
  obtain Ls where Ls: "unit_layers ?us = Some Ls" "length Ls = max 1 ?n + 1" "\<forall>L \<in> set Ls. states_in (int ?n + 1) L"
      "\<forall>L \<in> set Ls. has_dud (int ?n) L"
    using unit_layers_ok [of ?us] by blast
  have ne: "Ls \<noteq> []" using Ls(2) by auto
  let ?v = "run_layers Ls (viterbi_setSize (int ?n + 1) (int ?n + 2) v0)"
  note vit = viterbi_run [OF Ls(3) _ refl ne, where T = "int ?n + 2" and ?v0.0 = v0]
  obtain v' ps where v': "calculatePath ?v = Some v'" "path_view ps v'" "walk float_add Ls ps (best_cost v')"
    using vit(1) dud_walk [OF ne Ls(4)] by (cases "calculatePath ?v") auto
  have len: "length ps = Suc (max 1 ?n)" "\<forall>s \<in> set ps. 0 \<le> s \<and> s \<le> int ?n"
    using walk_length [OF v'(3)] Ls(2) walk_in_range [OF v'(3) Ls(3)] by auto
  have vl: "viterbi_length ?v = Some (int (length ps), v')" using vit(2) v'(1,2) ne by (simp add: viterbi_length_def path_view_def)
  obtain good acc where acc: "accept_units (max 1 ?n) 0 (int (max 1 ?n)) ?us v' {int ?n} [] = Some (good, acc)" "distinct acc"
      "\<forall>k \<in> set acc. 0 \<le> k \<and> k < int ?n"
    using accept_units_ok [OF v'(2) len(2) len(1), of 0 "max 1 ?n" "{int ?n}" "[]"] by auto
  let ?left = "filter (\<lambda>i. int i \<notin> set acc) [0..<?n]"
  have "int (length ps) - 1 = int (max 1 ?n)" "nat (int (max 1 ?n)) = max 1 ?n" using len(1) by simp_all
  then have "\<exists>again. merge_round src v0 = Some (map (\<lambda>k. ?us ! nat k) acc, map (\<lambda>i. ?us ! i) ?left, again)"
    unfolding merge_round_def Let_def Ls(1) bind.bind_lunit vl prod.case using acc(1) by (simp del: of_nat_max)
  moreover have "\<forall>u \<in> set (map (\<lambda>i. ?us ! i) ?left). \<not> deleted u"
  proof
    fix u assume "u \<in> set (map (\<lambda>i. ?us ! i) ?left)"
    then obtain i where "i < ?n" "u = ?us ! i" by auto
    then show "\<not> deleted u" using nth_mem by fastforce
  qed
  ultimately show ?thesis using split_by_index [OF acc(2,3)] by blast
qed

lemma merge_rounds_ok:
  "\<exists>canon' rest. merge_rounds src canon v0 = Some (canon', rest) \<and>
    mset canon' + mset rest = mset canon + mset (filter (\<lambda>u. \<not> deleted u) src) \<and> (\<forall>u \<in> set rest. \<not> deleted u)"
proof (induction "length (filter (\<lambda>u. \<not> deleted u) src)" arbitrary: src canon rule: less_induct)
  case less
  obtain chosen rest again where r: "merge_round src v0 = Some (chosen, rest, again)"
      "mset chosen + mset rest = mset (filter (\<lambda>u. \<not> deleted u) src)" "\<forall>u \<in> set rest. \<not> deleted u"
    using merge_round_ok by blast
  show ?case
  proof (cases again)
    case True
    have "length (filter (\<lambda>u. \<not> deleted u) rest) < length (filter (\<lambda>u. \<not> deleted u) src)" using merge_round_less [of src v0 chosen rest] r(1) True by simp
    then obtain canon' rest' where "merge_rounds rest (canon @ chosen) v0 = Some (canon', rest')"
        "mset canon' + mset rest' = mset (canon @ chosen) + mset (filter (\<lambda>u. \<not> deleted u) rest)" "\<forall>u \<in> set rest'. \<not> deleted u"
      using less by blast
    moreover have "filter (\<lambda>u. \<not> deleted u) rest = rest" using r(3) by (simp add: filter_id_conv)
    ultimately show ?thesis using r True by (subst merge_rounds.simps) (simp add: add.assoc)
  next
    case False
    then show ?thesis using r by (subst merge_rounds.simps) (simp add: add.assoc)
  qed
qed

section \<open>Orders trimmed at the ends\<close>

lemma trim_front_nth:
  "i < length v \<Longrightarrow> trim_front (- 1) (- 2) v ! i = v ! i \<or> trim_front (- 1) (- 2) v ! i = - 2 \<and> v ! i = - 1"
proof (induction v arbitrary: i)
  case (Cons x xs)
  then show ?case by (cases i) auto
qed simp

lemma length_trim_front [simp]: "length (trim_front pre post v) = length v"
  by (induction v) auto

lemma trim_back_nth:
  assumes "i < length v"
  shows "rev (trim_front (- 1) (- 2) (rev v)) ! i = v ! i \<or> rev (trim_front (- 1) (- 2) (rev v)) ! i = - 2 \<and> v ! i = - 1"
  using trim_front_nth [of "length v - Suc i" "rev v"] assms by (simp add: rev_nth)

definition trim_cells :: "compare_flags \<Rightarrow> int list \<Rightarrow> int list" where
  "trim_cells flags v = (let u = if head_trimmed flags then trim_front (- 1) (- 2) v else v
     in if tail_trimmed flags then rev (trim_front (- 1) (- 2) (rev u)) else u)"

lemma trim_order_cells:
  "trim_order flags ord = ord\<lparr>a2b_cells := trim_cells flags (a2b_cells ord), b2a_cells := trim_cells flags (b2a_cells ord)\<rparr>"
  by (simp add: trim_order_def trimHead_def trimTail_def trim_cells_def Let_def)

lemma length_trim_cells [simp]: "length (trim_cells flags v) = length v"
  by (simp add: trim_cells_def Let_def)

lemma trim_cells_nth: "i < length v \<Longrightarrow> trim_cells flags v ! i = v ! i \<or> trim_cells flags v ! i = - 2"
  using trim_front_nth [of i v] trim_back_nth [of i v] trim_back_nth [of i "trim_front (- 1) (- 2) v"]
  by (auto simp: trim_cells_def Let_def)

lemma order_cell_trim: "order_cell (trim_cells flags v) x = order_cell v x \<or> order_cell (trim_cells flags v) x = - 2"
  using trim_cells_nth [of "nat x" v flags] by (auto simp: order_cell_def)

lemma order_ok_trim:
  assumes "order_ok ord"
  shows "order_ok (trim_order flags ord)"
  unfolding order_ok_def
proof (intro allI impI)
  fix p
  assume pos: "0 \<le> a2b (trim_order flags ord) p"
  then have eq: "a2b (trim_order flags ord) p = a2b ord p"
    using order_cell_trim [of flags "a2b_cells ord" p] by (auto simp: a2b_def trim_order_cells)
  have "a2b ord p < int (blen ord) \<and> b2a ord (a2b ord p) \<noteq> - 1" using assms pos unfolding order_ok_def eq by blast
  then show "a2b (trim_order flags ord) p < int (blen (trim_order flags ord)) \<and> b2a (trim_order flags ord) (a2b (trim_order flags ord) p) \<noteq> - 1"
    unfolding eq using order_cell_trim [of flags "b2a_cells ord" "a2b ord p"] by (auto simp: b2a_def blen_def trim_order_cells)
qed

text \<open>Whatever order the units are put in, they are the ones collected.\<close>

lemma order_merge_collects:
  assumes "order_ok nremote" "ol = trim_order flags nlocal" "orr = trim_order flags nremote"
  shows "\<exists>us. order_merge nlocal nremote flags columnar [] v0 = Some (us, length (filter (\<lambda>u. localUnit u \<noteq> - 1 \<and> remoteUnit u \<noteq> - 1) us)) \<and>
    mset us = mset (map (local_unit ol orr) [0..<blen nlocal]) + image_mset remote_unit (mset_set (remote_new orr))"
proof -
  have len: "blen ol = blen nlocal" by (simp add: assms(2) trim_order_cells blen_def)
  obtain acc where acc: "collect_units ol orr [] = Some acc"
      "mset acc = mset (map (local_unit ol orr) [0..<blen nlocal]) + image_mset remote_unit (mset_set (remote_new orr))"
    using collect_units_ok [of orr ol "[]"] order_ok_trim [OF assms(1), of flags] assms(3) len by auto
  have "\<exists>us. (if use_order flags \<or> columnar
      then map_option (\<lambda>(canon, rest). canon @ filter (\<lambda>u. \<not> deleted u) rest @ filter deleted acc) (merge_rounds acc [] v0) else Some acc) = Some us \<and> mset us = mset acc"
  proof (cases "use_order flags \<or> columnar")
    case True
    obtain canon rest where r: "merge_rounds acc [] v0 = Some (canon, rest)" "mset canon + mset rest = mset (filter (\<lambda>u. \<not> deleted u) acc)"
        "\<forall>u \<in> set rest. \<not> deleted u"
      using merge_rounds_ok [of acc "[]" v0] by auto
    have "filter (\<lambda>u. \<not> deleted u) rest = rest" using r(3) by (simp add: filter_id_conv)
    moreover have "mset acc = mset (filter (\<lambda>u. \<not> deleted u) acc) + mset (filter deleted acc)"
      by (induction acc) auto
    ultimately show ?thesis using True r(1,2) by (simp add: add.assoc [symmetric])
  qed simp
  then obtain us where "order_merge nlocal nremote flags columnar [] v0 = Some (us, length (filter (\<lambda>u. localUnit u \<noteq> - 1 \<and> remoteUnit u \<noteq> - 1) us))"
      "mset us = mset acc"
    using acc(1) assms(2,3) by (clarsimp simp: order_merge_def)
  then show ?thesis using acc(2) by auto
qed

section \<open>Properties\<close>

text \<open>
  C14: merging two orders always comes to an end, whatever the flags, and lists exactly the units of the merged
  table: every local unit once with its partners (marked as deleted if the remote table dropped it) and every
  new remote unit once; \<open>overlap\<close> counts the units both tables have.
\<close>

theorem order_merge_units:
  assumes "order_ok nremote" "ol = trim_order flags nlocal" "orr = trim_order flags nremote"
  shows "\<exists>us overlap. order_merge nlocal nremote flags columnar [] v0 = Some (us, overlap) \<and>
    mset us = mset (map (local_unit ol orr) [0..<blen nlocal]) + image_mset remote_unit (mset_set (remote_new orr)) \<and>
    overlap = card {l. l < blen nlocal \<and> b2a ol (int l) \<noteq> - 1 \<and> a2b orr (b2a ol (int l)) \<noteq> - 1}"
proof -
  let ?both = "\<lambda>u. localUnit u \<noteq> - 1 \<and> remoteUnit u \<noteq> - 1"
  let ?P = "\<lambda>l. b2a ol (int l) \<noteq> - 1 \<and> a2b orr (b2a ol (int l)) \<noteq> - 1"
  obtain us where us: "order_merge nlocal nremote flags columnar [] v0 = Some (us, length (filter ?both us))"
      "mset us = mset (map (local_unit ol orr) [0..<blen nlocal]) + image_mset remote_unit (mset_set (remote_new orr))"
    using order_merge_collects [OF assms] by blast
  have "length (filter ?both us) = size (mset (filter ?both us))" by (rule size_mset [symmetric])
  also have "\<dots> = size (filter_mset ?both (mset us))" by (simp only: mset_filter)
  also have "\<dots> = length (filter ?P [0..<blen nlocal])"
  proof -
    have "?both (local_unit ol orr l) = ?P l" for l by (simp add: local_unit_def MatchUnit_def Let_def)
    then have "filter ?both (map (local_unit ol orr) [0..<blen nlocal]) = map (local_unit ol orr) (filter ?P [0..<blen nlocal])"
      by (simp only: filter_map comp_def)
    then have "filter_mset ?both (mset (map (local_unit ol orr) [0..<blen nlocal])) = mset (map (local_unit ol orr) (filter ?P [0..<blen nlocal]))"
      by (simp only: mset_filter [symmetric])
    moreover have "filter_mset ?both (image_mset remote_unit (mset_set (remote_new orr))) = {#}"
      by (simp add: filter_mset_image_mset remote_unit_def MatchUnit_def)
    ultimately show ?thesis unfolding us(2) filter_union_mset by (simp only: size_mset length_map add_0_right)
  qed
  also have "\<dots> = card {l. l < blen nlocal \<and> ?P l}" by (simp add: length_filter_conv_card cong: conj_cong)
  finally show ?thesis using us by auto
qed

definition demo_order :: "int list \<Rightarrow> int list \<Rightarrow> order_result" where
  "demo_order ab ba = \<lparr>a2b_cells = ab, b2a_cells = ba\<rparr>"

lemma order_merge_units_witness:
  "\<exists>us overlap. order_merge (demo_order [1, 0] [1, 0, - 1]) (demo_order [0, - 1] [0, - 1])
      \<lparr>head_trimmed = False, tail_trimmed = False, use_order = True\<rparr> False [] (new_Viterbi 0 0 0) = Some (us, overlap) \<and>
    mset us = {# MatchUnit (- 1) (- 1) 1 False MATCH_UNIT_INSERT, MatchUnit 1 0 (- 1) True MATCH_UNIT_DELETE,
      MatchUnit 0 1 0 False MATCH_UNIT_PRESERVE, MatchUnit (- 1) 2 (- 1) False MATCH_UNIT_PRESERVE #} \<and> overlap = 1"
proof -
  let ?f = "\<lparr>head_trimmed = False, tail_trimmed = False, use_order = True\<rparr>"
  let ?l = "demo_order [1, 0] [1, 0, - 1]" and ?r = "demo_order [0, - 1] [0, - 1]"
  have t: "trim_order ?f ord = ord" for ord by (simp add: trim_order_def)
  have ok: "order_ok ?r" by (auto simp: order_ok_def a2b_def b2a_def order_cell_def demo_order_def blen_def nth_Cons' nat_eq_iff split: if_splits)
  have new: "remote_new ?r = {1}" by (auto simp: remote_new_def b2a_def order_cell_def demo_order_def blen_def nth_Cons' less_Suc_eq)
  have both: "{l. l < blen ?l \<and> b2a ?l (int l) \<noteq> - 1 \<and> a2b ?r (b2a ?l (int l)) \<noteq> - 1} = {1}"
    by (auto simp: b2a_def a2b_def order_cell_def demo_order_def blen_def nth_Cons' less_Suc_eq)
  have units: "map (local_unit ?l ?r) [0..<blen ?l] = [MatchUnit 1 0 (- 1) True MATCH_UNIT_DELETE,
      MatchUnit 0 1 0 False MATCH_UNIT_PRESERVE, MatchUnit (- 1) 2 (- 1) False MATCH_UNIT_PRESERVE]"
    by (simp add: local_unit_def b2a_def a2b_def order_cell_def demo_order_def blen_def nth_Cons' upt_rec Let_def)
  show ?thesis using order_merge_units [OF ok refl refl, of ?l ?f False "new_Viterbi 0 0 0"]
    by (simp add: t units new both remote_unit_def)
qed

section \<open>Limits\<close>

text \<open>The lowest local unit is only found when the first unit of the list has a local side.\<close>

lemma lowest_local_missed: "lowestL (tables_of [remote_unit 0, MatchUnit (- 1) 0 (- 1) False MATCH_UNIT_PRESERVE]) = - 1"
  by (simp add: tables_of_def table_unit_def lowest_def remote_unit_def MatchUnit_def upt_rec Let_def)

end
