(* ===== verification/Order_Chain.thy ===== *)
theory Order_Chain
  imports Order_Merge_Correct
begin

text \<open>
  When one table has kept the order of the pivot, the merged order is that of the other: all units have a number
  on that side, the only draw from a unit is the unit with the next number, and the one walk that never
  draws the dud runs through all of them.
\<close>

section \<open>Walks along a chain\<close>

text \<open>A lattice in which every state but the dud has one successor, and the dud is never left.\<close>

definition chain_step :: "int \<Rightarrow> (int \<Rightarrow> int) \<Rightarrow> int \<times> int \<times> rat \<Rightarrow> bool" where
  "chain_step dud f = (\<lambda>(a, b, c). a = dud \<and> b = dud \<and> c = 1 \<or> a \<noteq> dud \<and> b = f a \<and> c = 0)"

lemma round_float_1: "round_float 1 = 1"
  by (simp add: round_float_def exponent_def two_to_def bitlen_def floorlog_def half_even_def Let_def)

lemma float_add_ge_1: "0 \<le> a \<Longrightarrow> 1 \<le> float_add 1 a"
  using float_add_mono [of 0 a 1] by (simp add: float_add_def round_float_1)

lemma float_add_0_nonneg: "0 \<le> a \<Longrightarrow> 0 \<le> float_add 0 a"
  by (simp add: float_add_def round_float_nonneg)

lemma float_add_0_0: "float_add 0 0 = 0"
  by (simp add: float_add_def round_float_def)

lemma chain_walk_nonneg:
  assumes "walk float_add Ls ps a" "\<forall>L \<in> set Ls. \<forall>e \<in> set L. snd (snd e) = 0 \<or> snd (snd e) = 1"
  shows "0 \<le> a"
  using assms
proof (induction rule: walk.induct)
  case (further Ls ps a d c L)
  then have "c = 0 \<or> c = 1" "0 \<le> a" by force+
  then show ?case using float_add_ge_1 [of a] float_add_0_nonneg [of a] by auto
qed force

text \<open>From layer to layer.\<close>

lemma walk_steps:
  assumes "walk add Ls ps a"
  shows "(\<exists>s c. (s, ps ! 0, c) \<in> set (Ls ! 0)) \<and> (\<forall>i. Suc i < length Ls \<longrightarrow> (\<exists>c. (ps ! i, ps ! Suc i, c) \<in> set (Ls ! Suc i)))"
  using assms
proof (induction rule: walk.induct)
  case (further Ls ps a d c L)
  have len: "length ps = length Ls" "ps \<noteq> []" using walk_length [OF further(1)] walk_nonempty [OF further(1)] by simp_all
  have "\<exists>c. ((ps @ [d]) ! i, (ps @ [d]) ! Suc i, c) \<in> set ((Ls @ [L]) ! Suc i)" if "Suc i < length (Ls @ [L])" for i
  proof (cases "Suc i = length Ls")
    case True
    then have "i = length ps - 1" using len(1) by simp
    then have "last ps = ps ! i" using last_conv_nth [OF len(2)] by simp
    then show ?thesis using True len(1) further(2) by (auto simp: nth_append)
  next
    case False
    then show ?thesis using that further.IH len(1) by (auto simp: nth_append)
  qed
  then show ?case using further.IH len by (auto simp: nth_append)
qed auto

lemma walk_of_steps:
  assumes "(s, ps ! 0, 0) \<in> set (Ls ! 0)" "\<forall>i. Suc i < length Ls \<longrightarrow> (ps ! i, ps ! Suc i, 0) \<in> set (Ls ! Suc i)"
    "length ps = length Ls" "Ls \<noteq> []"
  shows "walk float_add Ls ps 0"
proof -
  have "walk float_add (take (Suc n) Ls) (take (Suc n) ps) 0" if "n < length Ls" for n
    using that
  proof (induction n)
    case 0
    then have "take (Suc 0) Ls = [Ls ! 0]" "take (Suc 0) ps = [ps ! 0]" using assms(3) by (simp_all add: take_Suc_conv_app_nth)
    then show ?case using walk.first [OF assms(1), of float_add] by simp
  next
    case (Suc n)
    have "last (take (Suc n) ps) = ps ! n" using Suc.prems assms(3) by (simp add: take_Suc_conv_app_nth)
    then have "walk float_add (take (Suc n) Ls @ [Ls ! Suc n]) (take (Suc n) ps @ [ps ! Suc n]) (float_add 0 0)"
      using Suc assms(2) by (intro walk.further) simp_all
    then show ?case using Suc.prems assms(3) by (simp add: take_Suc_conv_app_nth float_add_0_0)
  qed
  from this [of "length Ls - 1"] show ?thesis using assms(3,4) by simp
qed

lemma walk_last_step:
  assumes "walk add (Ls @ [L]) ps a" "Ls \<noteq> []"
  obtains ps' a' d c where "ps = ps' @ [d]" "walk add Ls ps' a'" "(last ps', d, c) \<in> set L" "a = add c a'"
  using assms by (auto elim: walk_snocE)

text \<open>The cheapest walk is the chain.\<close>

definition chain_layers :: "nat \<Rightarrow> (int \<times> int \<times> rat) list \<Rightarrow> (int \<times> int \<times> rat) list list \<Rightarrow> (int \<times> int \<times> rat) list list" where
  "chain_layers n L0 Ds = L0 # Ds @ [last_layer n]"

definition chain_lattice :: "nat \<Rightarrow> int list \<Rightarrow> (int \<Rightarrow> int) \<Rightarrow> (int \<times> int \<times> rat) list \<Rightarrow> (int \<times> int \<times> rat) list list \<Rightarrow> bool" where
  "chain_lattice n xs f L0 Ds \<longleftrightarrow> 0 < n \<and> length xs = n \<and> length Ds = n - 1 \<and> distinct xs \<and> (\<forall>k. k \<in> set xs \<longleftrightarrow> 0 \<le> k \<and> k < int n) \<and>
     (\<forall>i. Suc i < n \<longrightarrow> f (xs ! i) = xs ! Suc i) \<and> f (xs ! (n - 1)) = int n \<and>
     (\<forall>a b c. (a, b, c) \<in> set L0 \<longrightarrow> a = int n \<and> b = int n \<and> c = 1 \<or> a = b \<and> 0 \<le> a \<and> a < int n \<and> c = 0) \<and> (xs ! 0, xs ! 0, 0) \<in> set L0 \<and>
     (\<forall>L \<in> set Ds. \<forall>e \<in> set L. chain_step (int n) f e) \<and> (\<forall>i. Suc i < n \<longrightarrow> (xs ! i, xs ! Suc i, 0) \<in> set (Ds ! i))"

lemma chain_latticeD:
  assumes "chain_lattice n xs f L0 Ds"
  shows "0 < n" "length xs = n" "length Ds = n - 1" "distinct xs" "\<And>k. k \<in> set xs \<longleftrightarrow> 0 \<le> k \<and> k < int n"
    "\<And>i. Suc i < n \<Longrightarrow> f (xs ! i) = xs ! Suc i" "f (xs ! (n - 1)) = int n"
    "\<And>a b c. (a, b, c) \<in> set L0 \<Longrightarrow> a = int n \<and> b = int n \<and> c = 1 \<or> a = b \<and> 0 \<le> a \<and> a < int n \<and> c = 0" "(xs ! 0, xs ! 0, 0) \<in> set L0"
    "\<And>L e. L \<in> set Ds \<Longrightarrow> e \<in> set L \<Longrightarrow> chain_step (int n) f e" "\<And>i. Suc i < n \<Longrightarrow> (xs ! i, xs ! Suc i, 0) \<in> set (Ds ! i)"
  using assms unfolding chain_lattice_def by blast+

lemma length_layers: "chain_lattice n xs f L0 Ds \<Longrightarrow> length (chain_layers n L0 Ds) = n + 1"
  by (simp add: chain_layers_def chain_lattice_def)

lemma layers_nth:
  assumes ch: "chain_lattice n xs f L0 Ds"
  shows "i < n - 1 \<Longrightarrow> chain_layers n L0 Ds ! Suc i = Ds ! i" "chain_layers n L0 Ds ! n = last_layer n" "chain_layers n L0 Ds ! 0 = L0"
proof -
  let ?layers = "chain_layers n L0 Ds"
  note n = chain_latticeD(1-3) [OF ch]
  show "i < n - 1 \<Longrightarrow> ?layers ! Suc i = Ds ! i" using n by (simp add: chain_layers_def nth_append)
  obtain k where "n = Suc k" using n(1) by (cases n) auto
  then show "?layers ! n = last_layer n" "?layers ! 0 = L0" using n by (simp_all add: chain_layers_def nth_append)
qed

lemma costs_01:
  assumes ch: "chain_lattice n xs f L0 Ds"
  shows "\<forall>L \<in> set (chain_layers n L0 Ds). \<forall>e \<in> set L. snd (snd e) = 0 \<or> snd (snd e) = 1"
proof (intro ballI)
  let ?layers = "chain_layers n L0 Ds"
  note start = chain_latticeD(8,9) [OF ch] and draws = chain_latticeD(10,11) [OF ch]
  fix L e assume L: "L \<in> set ?layers" "e \<in> set L"
  obtain a b c where e: "e = (a, b, c)" by (cases e)
  consider "L = L0" | "L \<in> set Ds" | "L = last_layer n" using L(1) by (auto simp: chain_layers_def)
  then show "snd (snd e) = 0 \<or> snd (snd e) = 1"
    using L(2) start(1) [of a b c] draws(1) [of L e] by cases (auto simp: e chain_step_def last_layer_def)
qed

lemma walk_along_chain:
  assumes ch: "chain_lattice n xs f L0 Ds"
  shows "walk float_add (chain_layers n L0 Ds) (xs @ [xs ! (n - 1)]) 0"
proof (rule walk_of_steps)
  let ?layers = "chain_layers n L0 Ds"
  note n = chain_latticeD(1-3) [OF ch] and xs = chain_latticeD(4,5) [OF ch] and start = chain_latticeD(8,9) [OF ch] and
    draws = chain_latticeD(10,11) [OF ch] and length_layers = length_layers [OF ch] and layers_nth = layers_nth [OF ch]
  show "(xs ! 0, (xs @ [xs ! (n - 1)]) ! 0, 0) \<in> set (?layers ! 0)" using start(2) n by (simp add: layers_nth nth_append)
  show "length (xs @ [xs ! (n - 1)]) = length ?layers" "?layers \<noteq> []" using n length_layers by auto
  show "\<forall>i. Suc i < length ?layers \<longrightarrow> ((xs @ [xs ! (n - 1)]) ! i, (xs @ [xs ! (n - 1)]) ! Suc i, 0) \<in> set (?layers ! Suc i)"
  proof (intro allI impI)
    fix i assume "Suc i < length ?layers"
    then consider "Suc i < n" | "Suc i = n" using length_layers by linarith
    then show "((xs @ [xs ! (n - 1)]) ! i, (xs @ [xs ! (n - 1)]) ! Suc i, 0) \<in> set (?layers ! Suc i)"
    proof cases
      case 1
      then show ?thesis using draws(2) n layers_nth(1) [of i] by (simp add: nth_append)
    next
      case 2
      have "xs ! i \<in> set xs" using 2 n by simp
      then have "0 \<le> xs ! i" "xs ! i < int n" using xs(2) by auto
      then have "(xs ! i, xs ! i, 0) \<in> set (last_layer n)" by (force simp: last_layer_def image_iff intro: bexI [of _ "nat (xs ! i)"])
      then show ?thesis using 2 n layers_nth(2) by (auto simp: nth_append)
    qed
  qed
qed

lemma cheap_walk_no_dud:
  assumes ch: "chain_lattice n xs f L0 Ds" and hyp: "walk float_add (chain_layers n L0 Ds) ps a" "a \<le> 0" "i \<le> n"
  shows "ps ! i \<noteq> int n"
proof
  let ?layers = "chain_layers n L0 Ds"
  note n = chain_latticeD(1-3) [OF ch] and xs = chain_latticeD(4,5) [OF ch] and succ = chain_latticeD(6,7) [OF ch] and
    start = chain_latticeD(8,9) [OF ch] and draws = chain_latticeD(10,11) [OF ch] and length_layers = length_layers [OF ch] and
    layers_nth = layers_nth [OF ch]
  assume i: "ps ! i = int n"
  have steps: "\<And>i. Suc i < length ?layers \<Longrightarrow> \<exists>c. (ps ! i, ps ! Suc i, c) \<in> set (?layers ! Suc i)" using walk_steps [OF hyp(1)] by blast
  have stay: "ps ! Suc j = int n" if "ps ! j = int n" "j < n" for j
  proof -
    have "Suc j < length ?layers" using that length_layers by simp
    then obtain c where c: "(ps ! j, ps ! Suc j, c) \<in> set (?layers ! Suc j)" using steps by blast
    show ?thesis
    proof (cases "Suc j < n")
      case True
      then have "Ds ! j \<in> set Ds" using n by simp
      then have "chain_step (int n) f (ps ! j, ps ! Suc j, c)" using draws(1) c layers_nth(1) [of j] True by auto
      then show ?thesis using that(1) by (simp add: chain_step_def)
    next
      case False
      then show ?thesis using c that layers_nth(2) by (auto simp: last_layer_def le_Suc_eq dest!: less_antisym)
    qed
  qed
  have at: "ps ! (i + j) = int n" if "i + j \<le> n" for j using that by (induction j) (auto simp: i stay)
  have "ps ! n = int n" using at [of "n - i"] hyp(3) by simp
  have split: "?layers = (L0 # Ds) @ [last_layer n]" by (simp add: chain_layers_def)
  obtain ps' a' d c where w: "ps = ps' @ [d]" "walk float_add (L0 # Ds) ps' a'" "(last ps', d, c) \<in> set (last_layer n)" "a = float_add c a'"
    by (rule walk_last_step [OF hyp(1) [unfolded split]]) simp
  have "length ps' = n" using walk_length [OF w(2)] n by simp
  then have "d = int n" using \<open>ps ! n = int n\<close> w(1) by (simp add: nth_append)
  then have "c = 1" using w(3) by (auto simp: last_layer_def)
  moreover have "0 \<le> a'" using chain_walk_nonneg [OF w(2)] costs_01 [OF ch] by (simp add: chain_layers_def)
  ultimately show False using float_add_ge_1 [of a'] hyp(2) w(4) by simp
qed

lemma cheap_walk_is_chain:
  assumes ch: "chain_lattice n xs f L0 Ds" and
    hyp: "walk float_add (chain_layers n L0 Ds) ps a" "\<forall>qs b. walk float_add (chain_layers n L0 Ds) qs b \<longrightarrow> a \<le> b"
  shows "ps = xs @ [xs ! (n - 1)]"
proof -
  let ?layers = "chain_layers n L0 Ds"
  note n = chain_latticeD(1-3) [OF ch] and xs = chain_latticeD(4,5) [OF ch] and succ = chain_latticeD(6,7) [OF ch] and
    start = chain_latticeD(8,9) [OF ch] and draws = chain_latticeD(10,11) [OF ch] and length_layers = length_layers [OF ch] and
    layers_nth = layers_nth [OF ch]
  have a: "a \<le> 0" using hyp(2) walk_along_chain [OF ch] by blast
  have steps: "\<exists>s c. (s, ps ! 0, c) \<in> set (?layers ! 0)" "\<And>i. Suc i < length ?layers \<Longrightarrow> \<exists>c. (ps ! i, ps ! Suc i, c) \<in> set (?layers ! Suc i)"
    using walk_steps [OF hyp(1)] by blast+
  note no_dud = cheap_walk_no_dud [OF ch hyp(1) a]
  have len: "length ps = n + 1" using walk_length [OF hyp(1)] length_layers by simp
  obtain j where j: "j < n" "ps ! 0 = xs ! j"
  proof -
    obtain s c where "(s, ps ! 0, c) \<in> set L0" using steps(1) by (auto simp: layers_nth)
    then have "ps ! 0 \<in> set xs" using start(1) no_dud [of 0] xs(2) by fastforce
    then show ?thesis using that n by (auto simp: in_set_conv_nth)
  qed
  have succ_ps: "ps ! Suc i = f (ps ! i)" if "Suc i < n" for i
  proof -
    have lay: "Suc i < length ?layers" "?layers ! Suc i = Ds ! i" using that length_layers layers_nth(1) [of i] by simp_all
    obtain c where c: "(ps ! i, ps ! Suc i, c) \<in> set (Ds ! i)" using steps(2) [OF lay(1)] unfolding lay(2) by blast
    have "Ds ! i \<in> set Ds" using that n by simp
    then have "chain_step (int n) f (ps ! i, ps ! Suc i, c)" using draws(1) c by blast
    then show ?thesis using no_dud [of i] that by (simp add: chain_step_def)
  qed
  have follow: "j + i < n \<and> ps ! i = xs ! (j + i)" if "i < n" for i
    using that
  proof (induction i)
    case (Suc i)
    then have IH: "j + i < n" "ps ! i = xs ! (j + i)" by simp_all
    have ne: "ps ! Suc i \<noteq> int n" using no_dud [of "Suc i"] Suc.prems by simp
    have "j + i \<noteq> n - 1"
    proof
      assume "j + i = n - 1"
      then show False using succ_ps [OF Suc.prems] IH(2) succ(2) ne by simp
    qed
    then have "Suc (j + i) < n" using IH(1) by simp
    then show ?case using succ_ps [OF Suc.prems] IH(2) succ(1) by simp
  qed (use j in simp)
  have "j + (n - 1) < n" using follow [of "n - 1"] n(1) by force
  then have "j = 0" by arith
  then have front: "ps ! i = xs ! i" if "i < n" for i using follow [OF that] by simp
  have "ps ! n = ps ! (n - 1)"
  proof -
    have "Suc (n - 1) = n" using n(1) by simp
    then obtain c where "(ps ! (n - 1), ps ! n, c) \<in> set (last_layer n)" using steps(2) [of "n - 1"] length_layers layers_nth(2) by auto
    then show ?thesis by (auto simp: last_layer_def)
  qed
  then have "ps ! i = (xs @ [xs ! (n - 1)]) ! i" if "i < n + 1" for i
    using that front n by (cases "i = n") (auto simp: nth_append)
  then show ?thesis using len n(2) by (intro nth_equalityI) auto
qed

section \<open>The tables of the units\<close>

lemma tables_of_snoc: "tables_of (us @ [u]) = table_unit (int (length us), u) (tables_of us)"
proof -
  have "map (\<lambda>i. (int i, (us @ [u]) ! i)) [0..<length (us @ [u])] = map (\<lambda>i. (int i, us ! i)) [0..<length us] @ [(int (length us), u)]"
    by (auto simp: nth_append)
  then show ?thesis by (simp only: tables_of_def foldl_append foldl.simps)
qed

lemma set_add_sorted: "finite A \<Longrightarrow> set_add x (sorted_list_of_set A) = sorted_list_of_set (insert x A)"
  by (cases "x \<in> A") (simp_all add: set_add_def insort_insert_key_def insert_absorb)

text \<open>One side of the units, numbered by all of them: the table, the set and the lowest number.\<close>

definition side_ok :: "int list \<Rightarrow> (int \<rightharpoonup> int) \<Rightarrow> int list \<Rightarrow> int \<Rightarrow> bool" where
  "side_ok cols m avail low \<longleftrightarrow> (\<forall>k < length cols. m (cols ! k) = Some (int k)) \<and> m (- 2) = None \<and>
     avail = sorted_list_of_set (set cols) \<and> low = (if cols = [] then - 2 else Min (set cols))"

lemma side_step:
  assumes "side_ok cols m avail low" "0 \<le> c" "c \<notin> set cols" "\<forall>c' \<in> set cols. 0 \<le> c'"
  shows "side_ok (cols @ [c]) (m(c \<mapsto> int (length cols))) (set_add c avail) (lowest c low)"
proof -
  have "lowest c low = Min (set (cols @ [c]))"
  proof (cases "cols = []")
    case True
    then show ?thesis using assms(1) by (simp add: side_ok_def lowest_def)
  next
    case False
    then have "Min (set cols) \<in> set cols" by simp
    then have "0 \<le> Min (set cols)" using assms(4) by blast
    moreover have "low = Min (set cols)" using assms(1) False by (simp add: side_ok_def)
    moreover have "Min (set (cols @ [c])) = min c (Min (set cols))" using False by simp
    ultimately show ?thesis using assms(2) by (auto simp: lowest_def min_def)
  qed
  moreover have "cols ! k \<noteq> c" if "k < length cols" for k using assms(3) that by auto
  ultimately show ?thesis using assms(1,2) by (auto simp: side_ok_def nth_append set_add_sorted)
qed

lemma local_side:
  assumes "\<forall>u \<in> set us. 0 \<le> localUnit u" "distinct (map localUnit us)"
  shows "side_ok (map localUnit us) (l2k (tables_of us)) (availableL (tables_of us)) (lowestL (tables_of us))"
  using assms
proof (induction us rule: rev_induct)
  case Nil
  show ?case by (simp add: tables_of_def side_ok_def)
next
  case (snoc u us)
  then have "side_ok (map localUnit us @ [localUnit u]) ((l2k (tables_of us))(localUnit u \<mapsto> int (length us)))
      (set_add (localUnit u) (availableL (tables_of us))) (lowest (localUnit u) (lowestL (tables_of us)))"
    using side_step [of "map localUnit us" _ _ _ "localUnit u"] by simp
  then show ?case using snoc.prems(1) by (simp add: tables_of_snoc table_unit_def Let_def fun_upd_def)
qed

lemma remote_side:
  assumes "\<forall>u \<in> set us. 0 \<le> remoteUnit u" "distinct (map remoteUnit us)"
  shows "side_ok (map remoteUnit us) (r2k (tables_of us)) (availableR (tables_of us)) (lowestR (tables_of us))"
  using assms
proof (induction us rule: rev_induct)
  case Nil
  show ?case by (simp add: tables_of_def side_ok_def)
next
  case (snoc u us)
  then have "side_ok (map remoteUnit us @ [remoteUnit u]) ((r2k (tables_of us))(remoteUnit u \<mapsto> int (length us)))
      (set_add (remoteUnit u) (availableR (tables_of us))) (lowest (remoteUnit u) (lowestR (tables_of us)))"
    using side_step [of "map remoteUnit us" _ _ _ "remoteUnit u"] by simp
  then show ?case using snoc.prems(1) by (simp add: tables_of_snoc table_unit_def Let_def fun_upd_def)
qed

text \<open>The other side agrees with the pivot.\<close>

lemma pivot_side:
  "\<forall>u \<in> set us. remoteUnit u = pivotUnit u \<Longrightarrow> r2k (tables_of us) = p2k (tables_of us) \<and> availableR (tables_of us) = availableP (tables_of us)"
  "\<forall>u \<in> set us. localUnit u = pivotUnit u \<Longrightarrow> l2k (tables_of us) = p2k (tables_of us) \<and> availableL (tables_of us) = availableP (tables_of us)"
  by (induction us rule: rev_induct) (simp_all add: tables_of_snoc table_unit_def Let_def tables_of_def [of "[]"])

section \<open>The chain of one side\<close>

definition side_chain :: "(int \<rightharpoonup> int) \<Rightarrow> int list \<Rightarrow> int list" where
  "side_chain m avail = map (\<lambda>c. the (m c)) avail"

definition side_next :: "int list \<Rightarrow> (int \<rightharpoonup> int) \<Rightarrow> int list \<Rightarrow> int \<Rightarrow> int" where
  "side_next cols m avail k = safe_next m (next_avail avail (cols ! nat k)) (int (length cols))"

lemma next_avail_nth:
  assumes "distinct s" "i < length s"
  shows "next_avail s (s ! i) = (if Suc i < length s then s ! Suc i else - 2)"
proof -
  have "dropWhile (\<lambda>y. y \<noteq> s ! i) s = drop i s" using assms
  proof (induction s arbitrary: i)
    case (Cons y ys)
    then show ?case by (cases i) auto
  qed simp
  moreover have "drop i s = s ! i # drop (Suc i) s" using assms(2) by (simp add: Cons_nth_drop_Suc)
  moreover have "drop (Suc i) s = (if Suc i < length s then s ! Suc i # drop (Suc (Suc i)) s else [])" by (simp add: Cons_nth_drop_Suc)
  ultimately show ?thesis by (simp add: next_avail_def)
qed

lemma side_chain_ok:
  assumes "side_ok cols m avail low" "distinct cols"
  shows "length avail = length cols" "distinct (side_chain m avail)"
    "\<And>k. k \<in> set (side_chain m avail) \<longleftrightarrow> 0 \<le> k \<and> k < int (length cols)"
    "\<And>i. i < length cols \<Longrightarrow> cols ! nat (side_chain m avail ! i) = avail ! i \<and> m (avail ! i) = Some (side_chain m avail ! i)"
proof -
  have av: "avail = sorted_list_of_set (set cols)" and m: "\<And>k. k < length cols \<Longrightarrow> m (cols ! k) = Some (int k)"
    using assms(1) by (simp_all add: side_ok_def)
  show len: "length avail = length cols" using assms(2) by (simp add: av distinct_card)
  have set_av: "set avail = set cols" "distinct avail" by (simp_all add: av)
  have at: "\<exists>k < length cols. c = cols ! k \<and> m c = Some (int k)" if "c \<in> set avail" for c
    using that m set_av(1) by (auto simp: in_set_conv_nth)
  show nth: "cols ! nat (side_chain m avail ! i) = avail ! i \<and> m (avail ! i) = Some (side_chain m avail ! i)" if "i < length cols" for i
    using at [of "avail ! i"] that len by (auto simp: side_chain_def)
  have "inj_on (\<lambda>c. the (m c)) (set avail)"
  proof (rule inj_onI)
    fix c c' assume "c \<in> set avail" "c' \<in> set avail" "the (m c) = the (m c')"
    then show "c = c'" using at [of c] at [of c'] by auto
  qed
  then show "distinct (side_chain m avail)" using set_av(2) by (simp add: side_chain_def distinct_map)
  show "k \<in> set (side_chain m avail) \<longleftrightarrow> 0 \<le> k \<and> k < int (length cols)" for k
  proof
    assume "k \<in> set (side_chain m avail)"
    then show "0 \<le> k \<and> k < int (length cols)" using at by (force simp: side_chain_def)
  next
    assume k: "0 \<le> k \<and> k < int (length cols)"
    then have "nat k < length cols" by (simp add: nat_less_iff)
    then have "cols ! nat k \<in> set avail" "k = the (m (cols ! nat k))" using m k set_av(1) by simp_all
    then show "k \<in> set (side_chain m avail)" unfolding side_chain_def by auto
  qed
qed

lemma side_next_chain:
  assumes "side_ok cols m avail low" "distinct cols" "i < length cols"
  shows "side_next cols m avail (side_chain m avail ! i) = (if Suc i < length cols then side_chain m avail ! Suc i else int (length cols))"
proof -
  note ch = side_chain_ok [OF assms(1,2)]
  have "distinct avail" "m (- 2) = None" using assms(1) by (simp_all add: side_ok_def)
  then show ?thesis using ch(4) [OF assms(3)] ch(4) [of "Suc i"] ch(1) assms(3) next_avail_nth [of avail i]
    by (simp add: side_next_def safe_next_def)
qed

lemma side_first:
  assumes "side_ok cols m avail low" "distinct cols" "cols \<noteq> []"
  shows "m low = Some (side_chain m avail ! 0)"
proof -
  have "avail ! 0 = low"
    using assms(1,3) by (simp add: side_ok_def sorted_list_of_set_nonempty)
  then show ?thesis using side_chain_ok(4) [OF assms(1,2), of 0] assms(3) by auto
qed

section \<open>The draws\<close>

lemma draw_layers_chain:
  assumes "\<And>k. 0 \<le> k \<Longrightarrow> k < int (length us) \<Longrightarrow> set (draw_next t (int (length us)) (us ! nat k)) = {f k}"
    "draw_layers n t (int (length us)) us idx = Some Ds"
  shows "(\<forall>L \<in> set Ds. \<forall>e \<in> set L. chain_step (int (length us)) f e) \<and>
    (\<forall>i < n. \<forall>x. x 0 \<in> set idx \<longrightarrow> (\<forall>j \<le> i. 0 \<le> x j \<and> x j < int (length us) \<and> x (Suc j) = f (x j)) \<longrightarrow> (x i, x (Suc i), 0) \<in> set (Ds ! i))"
  using assms(2)
proof (induction n arbitrary: idx Ds)
  case (Suc n)
  let ?d = "int (length us)"
  let ?ks = "filter (\<lambda>k. k \<noteq> ?d) idx"
  let ?ds = "concat (map (\<lambda>k. map (\<lambda>n. (k, n, 0 :: rat)) (draw_next t ?d (us ! nat k))) ?ks)"
  let ?idx = "foldl (\<lambda>s d. set_add (fst (snd d)) s) [] ?ds"
  obtain Ds' where Ds: "draw_layers n t ?d us ?idx = Some Ds'" "Ds = (?ds @ [(?d, ?d, 1)]) # Ds'" and
    ks: "\<forall>k \<in> set ?ks. 0 \<le> k \<and> k < ?d"
    using Suc.prems by (auto simp: Let_def not_le not_less split: if_splits)
  have ds: "(a, b, c) \<in> set ?ds \<longleftrightarrow> a \<in> set ?ks \<and> b = f a \<and> c = 0" for a b c
    using ks assms(1) by auto
  note IH = Suc.IH [OF Ds(1)]
  have "chain_step ?d f e" if e: "e \<in> set (?ds @ [(?d, ?d, 1)])" for e
  proof (cases "e \<in> set ?ds")
    case True
    obtain a b c where abc: "e = (a, b, c)" by (cases e)
    have "a \<in> set ?ks \<and> b = f a \<and> c = 0" using ds [of a b c] True abc by (simp only:)
    then show ?thesis by (simp add: chain_step_def abc)
  next
    case False
    then have "e = (?d, ?d, 1)" using e by (simp only: set_append) auto
    then show ?thesis by (simp add: chain_step_def)
  qed
  moreover have "(x i, x (Suc i), 0) \<in> set (Ds ! i)"
    if x: "i < Suc n" "x 0 \<in> set idx" "\<forall>j \<le> i. 0 \<le> x j \<and> x j < ?d \<and> x (Suc j) = f (x j)" for i x
  proof -
    have x0: "(x 0, x 1, 0) \<in> set ?ds" using x(2,3) ds by auto
    show ?thesis
    proof (cases i)
      case 0
      then show ?thesis using x0 Ds(2) by simp
    next
      case (Suc i')
      define y where "y j = x (Suc j)" for j
      have "y 0 \<in> set ?idx" unfolding set_add_fold y_def using x0 by force
      moreover have "i' < n" "\<forall>j \<le> i'. 0 \<le> y j \<and> y j < ?d \<and> y (Suc j) = f (y j)"
      proof -
        show "\<forall>j \<le> i'. 0 \<le> y j \<and> y j < ?d \<and> y (Suc j) = f (y j)"
        proof (intro allI impI)
          fix j assume "j \<le> i'"
          then have "Suc j \<le> i" using Suc by simp
          then show "0 \<le> y j \<and> y j < ?d \<and> y (Suc j) = f (y j)" using x(3) unfolding y_def by blast
        qed
      qed (use x(1) Suc in simp)
      ultimately have "(y i', y (Suc i'), 0) \<in> set (Ds' ! i')" using conjunct2 [OF IH] by blast
      then show ?thesis using Ds(2) Suc by (simp add: y_def)
    qed
  qed
  ultimately show ?case using IH Ds(2) by auto
qed simp

section \<open>A round along a chain\<close>

lemma accept_chain:
  assumes "path_view (xs @ [xs ! (n - 1)]) v" "distinct xs" "length xs = n" "\<forall>x \<in> set xs. 0 \<le> x \<and> x < int n" "length us = n" "i \<le> n"
  shows "accept_units (n - i) (int i) (int n) us v (insert (int n) (set (take i xs))) (take i xs) = Some (True, xs)"
  using assms(1,6)
proof (induction "n - i" arbitrary: i v)
  case 0
  then show ?case using assms(3) by simp
next
  case (Suc m)
  let ?ps = "xs @ [xs ! (n - 1)]"
  have i: "i < n" "m = n - Suc i" "n - i = Suc m" using Suc.hyps(2) by simp_all
  obtain v1 where v1: "getPath (int i) v = Some (xs ! i, v1)" "path_view ?ps v1"
    using getPath_view [OF Suc.prems(1), of i] i(1) assms(3) by (auto simp: nth_append)
  obtain k2 v2 where v2: "(if int i < int n - 1 then getPath (int i + 1) v1 else Some (xs ! i, v1)) = Some (k2, v2)" "path_view ?ps v2"
    "k2 = xs ! i \<or> Suc i < n \<and> k2 = xs ! Suc i"
  proof (cases "Suc i < n")
    case True
    then obtain v2 where "getPath (int (Suc i)) v1 = Some (xs ! Suc i, v2)" "path_view ?ps v2"
      using getPath_view [OF v1(2), of "Suc i"] assms(3) by (auto simp: nth_append)
    then show ?thesis using that True by (simp add: add.commute)
  qed (use v1 that i in simp)
  have fresh: "xs ! j \<notin> insert (int n) (set (take i xs))" if "i \<le> j" "j < n" for j
  proof -
    have "xs ! j \<in> set xs" using that assms(3) by simp
    then have "xs ! j \<noteq> int n" using assms(4) by auto
    then show ?thesis using that assms(2,3) by (auto simp: in_set_conv_nth nth_eq_iff_index_eq)
  qed
  have "xs ! i \<in> set xs" using i(1) assms(3) by simp
  then have k: "0 \<le> xs ! i" "xs ! i < int n" using assms(4) by auto
  have "k2 \<notin> insert (int n) (set (take i xs))" using v2(3) fresh i(1) by auto
  moreover have "insert (xs ! i) (insert (int n) (set (take i xs))) = insert (int n) (set (take (Suc i) xs))"
    "take i xs @ [xs ! i] = take (Suc i) xs" using i(1) assms(3) by (auto simp: take_Suc_conv_app_nth)
  ultimately have "accept_units (n - i) (int i) (int n) us v (insert (int n) (set (take i xs))) (take i xs) =
      accept_units (n - Suc i) (int (Suc i)) (int n) us v2 (insert (int n) (set (take (Suc i) xs))) (take (Suc i) xs)"
    unfolding i(3) using v1(1) v2(1) fresh [of i] i(1,2) k assms(5) by (simp add: add.commute)
  then show ?case using Suc.hyps(1) [OF i(2) v2(2)] i(1) by simp
qed

lemma merge_round_chain:
  assumes us: "us = filter (\<lambda>u. \<not> deleted u) src" "us \<noteq> []" "length us = n"
    and side: "side_ok cols m avail low" "distinct cols" "length cols = n"
    and draws: "\<And>k. 0 \<le> k \<Longrightarrow> k < int n \<Longrightarrow> set (draw_next (tables_of us) (int n) (us ! nat k)) = {side_next cols m avail k}"
    and start: "(side_chain m avail ! 0, side_chain m avail ! 0, 0) \<in> set (first_layer (tables_of us) (int n))"
  shows "merge_round src v0 = Some (map (\<lambda>k. us ! nat k) (side_chain m avail), [], False)"
proof -
  let ?xs = "side_chain m avail" and ?f = "side_next cols m avail" and ?L0 = "first_layer (tables_of us) (int n)"
  note ch = side_chain_ok [OF side(1,2), unfolded side(3)]
  have n: "0 < n" "length ?xs = n" using us(2,3) ch(1) by (auto simp: side_chain_def)
  obtain Ls where Ls: "unit_layers us = Some Ls" "length Ls = n + 1" "\<forall>L \<in> set Ls. states_in (int n + 1) L" "\<forall>L \<in> set Ls. has_dud (int n) L"
    using unit_layers_ok [of us] us(3) n(1) by (auto simp: max_def)
  obtain Ds where Ds: "Ls = chain_layers n ?L0 Ds"
      "draw_layers (n - 1) (tables_of us) (int (length us)) us (foldl (\<lambda>s d. set_add (fst (snd d)) s) [] (butlast ?L0)) = Some Ds"
    using Ls(1) us(3) by (auto simp: unit_layers_def chain_layers_def Let_def)
  have last_L0: "?L0 = butlast ?L0 @ [(int n, int n, 1)]" by (simp add: first_layer_def Let_def)
  have chain: "chain_lattice n ?xs ?f ?L0 Ds"
    unfolding chain_lattice_def
  proof (intro conjI allI impI ballI)
    show "length Ds = n - 1" using Ls(2) Ds(1) by (simp add: chain_layers_def)
    show "?f (?xs ! i) = ?xs ! Suc i" if "Suc i < n" for i using side_next_chain [OF side(1,2), of i] that side(3) by simp
    show "?f (?xs ! (n - 1)) = int n" using side_next_chain [OF side(1,2), of "n - 1"] n(1) side(3) by simp
    show "a = int n \<and> b = int n \<and> c = 1 \<or> a = b \<and> 0 \<le> a \<and> a < int n \<and> c = 0" if "(a, b, c) \<in> set ?L0" for a b c
    proof (cases "(a, b, c) = (int n, int n, 1)")
      case False
      then have "(a, b, c) \<in> set (butlast ?L0)" using that last_L0 by (metis UnE in_set_conv_decomp list.set(1) set_append empty_iff set_ConsD)
      then have "a = b" "c = 0" "a = (case l2k (tables_of us) (lowestL (tables_of us)) of None \<Rightarrow> 0 | Some k \<Rightarrow> k) \<or>
          a = (case r2k (tables_of us) (lowestR (tables_of us)) of None \<Rightarrow> 0 | Some k \<Rightarrow> k)"
        by (auto simp: first_layer_def Let_def split: if_splits)
      moreover have "0 \<le> (case m' y of None \<Rightarrow> 0 | Some k \<Rightarrow> k) \<and> (case m' y of None \<Rightarrow> 0 | Some k \<Rightarrow> k) < int n"
        if "m' = l2k (tables_of us) \<or> m' = r2k (tables_of us)" for m' y
        using table_range_entry [OF tables_of_range [of us], of m' y] that n(1) us(3) by (cases "m' y") auto
      ultimately show ?thesis by blast
    qed simp
    have dl: "(\<forall>L \<in> set Ds. \<forall>e \<in> set L. chain_step (int n) ?f e) \<and>
      (\<forall>i < n - 1. \<forall>x. x 0 \<in> set (foldl (\<lambda>s d. set_add (fst (snd d)) s) [] (butlast ?L0)) \<longrightarrow>
        (\<forall>j \<le> i. 0 \<le> x j \<and> x j < int n \<and> x (Suc j) = ?f (x j)) \<longrightarrow> (x i, x (Suc i), 0) \<in> set (Ds ! i))"
      using draw_layers_chain [of us "tables_of us" ?f "n - 1"] draws Ds(2) us(3) by auto
    then show "chain_step (int n) ?f e" if "L \<in> set Ds" "e \<in> set L" for L e using that by blast
    have "?xs ! 0 \<in> set ?xs" using n by simp
    then have "(?xs ! 0, ?xs ! 0, 0) \<in> set (butlast ?L0)" using start ch(3) [of "?xs ! 0"] last_L0
      by (metis (no_types) Un_iff empty_iff fst_conv less_irrefl list.set(1) set_ConsD set_append)
    then have first: "?xs ! 0 \<in> set (foldl (\<lambda>s d. set_add (fst (snd d)) s) [] (butlast ?L0))" unfolding set_add_fold by force
    show "(?xs ! i, ?xs ! Suc i, 0) \<in> set (Ds ! i)" if "Suc i < n" for i
    proof -
      have "\<forall>j \<le> i. 0 \<le> ?xs ! j \<and> ?xs ! j < int n \<and> ?xs ! Suc j = ?f (?xs ! j)"
      proof (intro allI impI)
        fix j assume "j \<le> i"
        then show "0 \<le> ?xs ! j \<and> ?xs ! j < int n \<and> ?xs ! Suc j = ?f (?xs ! j)"
          using side_next_chain [OF side(1,2), of j] that side(3) ch(3) [of "?xs ! j"] n(2) by simp
      qed
      then show ?thesis using conjunct2 [OF dl, rule_format, of i "\<lambda>j. ?xs ! j"] first that by auto
    qed
  qed (use n ch(2,3) start in auto)
  have ne: "Ls \<noteq> []" using Ls(2) by auto
  let ?v = "run_layers Ls (viterbi_setSize (int n + 1) (int n + 2) v0)"
  note vit = viterbi_run [OF Ls(3) _ refl ne, where T = "int n + 2" and ?v0.0 = v0]
  obtain v' ps where v': "calculatePath ?v = Some v'" "path_view ps v'" "walk float_add Ls ps (best_cost v')"
      "\<forall>qs b. walk float_add Ls qs b \<longrightarrow> best_cost v' \<le> b"
    using vit(1) dud_walk [OF ne Ls(4)] by (cases "calculatePath ?v") auto
  have ps: "ps = ?xs @ [?xs ! (n - 1)]" using cheap_walk_is_chain [OF chain] v'(3,4) Ds(1) by blast
  have vl: "viterbi_length ?v = Some (int n + 1, v')" using vit(2) v'(1,2) ne Ls(2) ps n by (simp add: viterbi_length_def path_view_def)
  have "accept_units n 0 (int n) us v' {int n} [] = Some (True, ?xs)"
    using accept_chain [of ?xs n v' us 0] v'(2) ps ch(2,3) n us(3) by simp
  moreover have "filter (\<lambda>i. int i \<notin> set ?xs) [0..<n] = []" using ch(3) by (simp add: filter_empty_conv)
  moreover have "int n + 1 - 1 = int n" "nat (int n) = n" by simp_all
  ultimately show ?thesis unfolding merge_round_def Let_def us(1) [symmetric] us(3) Ls(1) bind.bind_lunit vl prod.case by simp
qed

lemma merge_rounds_chain:
  assumes "merge_round src v0 = Some (chosen, [], False)"
  shows "merge_rounds src [] v0 = Some (chosen, [])"
  using assms by (subst merge_rounds.simps) simp

lemma merge_rounds_none:
  assumes "filter (\<lambda>u. \<not> deleted u) src = []"
  shows "merge_rounds src [] v0 = Some ([], [])"
  using merge_rounds_ok [of src "[]" v0] assms by auto

lemma sorted_numbers: "set cols = int ` {0..<n} \<Longrightarrow> sorted_list_of_set (set cols) = map int [0..<n]"
  by (rule trans [OF arg_cong [of _ "set (map int [0..<n])" sorted_list_of_set]])
    (simp, rule sorted_list_of_set.idem_if_sorted_distinct, simp_all add: sorted_map distinct_map)

text \<open>The units of a chain, in the order of their side.\<close>

lemma chain_units:
  assumes "side_ok (map col us) m avail low" "distinct (map col us)" "set (map col us) = int ` {0..<n}"
    "\<forall>u \<in> set us. u = unit (nat (col u))"
  shows "map (\<lambda>k. us ! nat k) (side_chain m avail) = map unit [0..<n]"
proof -
  note ch = side_chain_ok [OF assms(1,2)]
  let ?us = "map (\<lambda>k. us ! nat k) (side_chain m avail)"
  have sub: "us ! nat k \<in> set us" if "k \<in> set (side_chain m avail)" for k using that ch(3) [of k] by (simp add: nat_less_iff)
  have "avail = map int [0..<n]" using assms(1) sorted_numbers [OF assms(3)] by (simp add: side_ok_def)
  moreover have "map col ?us = avail"
  proof (rule nth_equalityI)
    show "length (map col ?us) = length avail" by (simp add: side_chain_def)
    fix i assume "i < length (map col ?us)"
    then have i: "i < length us" using ch(1) by (simp add: side_chain_def)
    then have x: "side_chain m avail ! i \<in> set (side_chain m avail)" using ch(1) by (simp add: side_chain_def)
    then have "nat (side_chain m avail ! i) < length us" using ch(3) by (simp add: nat_less_iff)
    moreover have "i < length (side_chain m avail)" using i ch(1) by (simp add: side_chain_def)
    ultimately have "map col ?us ! i = map col us ! nat (side_chain m avail ! i)" by simp
    also have "\<dots> = avail ! i" using conjunct1 [OF ch(4) [of i]] i by (simp only: length_map)
    finally show "map col ?us ! i = avail ! i" .
  qed
  moreover have "?us = map (\<lambda>c. unit (nat c)) (map col ?us)"
  proof -
    have "us ! nat k = unit (nat (col (us ! nat k)))" if "k \<in> set (side_chain m avail)" for k using assms(4) sub [OF that] by blast
    then show ?thesis unfolding map_map comp_def by (intro map_cong refl)
  qed
  ultimately have "?us = map (\<lambda>c. unit (nat c)) (map int [0..<n])" by (simp only:)
  also have "\<dots> = map unit [0..<n]" by (simp add: comp_def)
  finally show ?thesis .
qed

section \<open>One table keeps the order\<close>

definition same_order :: "nat \<Rightarrow> order_result" where
  "same_order n = \<lparr>a2b_cells = map int [0..<n], b2a_cells = map int [0..<n]\<rparr>"

lemma same_order_cell:
  "blen (same_order n) = n" "0 \<le> x \<Longrightarrow> x < int n \<Longrightarrow> a2b (same_order n) x = x" "0 \<le> x \<Longrightarrow> x < int n \<Longrightarrow> b2a (same_order n) x = x"
  by (simp_all add: same_order_def blen_def a2b_def b2a_def order_cell_def nat_less_iff)

lemma order_ok_same: "order_ok (same_order n)"
  by (auto simp: order_ok_def a2b_def b2a_def order_cell_def same_order_def blen_def nat_less_iff split: if_splits)

lemma remote_new_same: "remote_new (same_order n) = {}"
  by (auto simp: remote_new_def same_order_cell)

text \<open>The order of the local table.\<close>

lemma local_order_rounds:
  assumes acc: "mset acc = mset (map (local_unit ol (same_order n)) [0..<blen ol])"
    and range: "\<forall>l < blen ol. b2a ol (int l) = - 1 \<or> 0 \<le> b2a ol (int l) \<and> b2a ol (int l) < int n"
  shows "merge_rounds acc [] v0 = Some (map (local_unit ol (same_order n)) [0..<blen ol], []) \<and> filter deleted acc = []"
proof -
  let ?unit = "local_unit ol (same_order n)" and ?t = "tables_of acc"
  have unit: "localUnit (?unit l) = int l" "remoteUnit (?unit l) = pivotUnit (?unit l)" "\<not> deleted (?unit l)" if "l < blen ol" for l
    using range that by (auto simp: local_unit_def MatchUnit_def Let_def same_order_cell)
  have set_acc: "set acc = ?unit ` {0..<blen ol}" using arg_cong [OF acc, of set_mset] by simp
  have u: "0 \<le> localUnit u \<and> remoteUnit u = pivotUnit u \<and> \<not> deleted u \<and> u = ?unit (nat (localUnit u))" if "u \<in> set acc" for u
    using that unit set_acc by auto
  have cols: "mset (map localUnit acc) = mset (map int [0..<blen ol])"
  proof -
    have "map localUnit (map ?unit [0..<blen ol]) = map int [0..<blen ol]" using unit(1) by simp
    then show ?thesis using arg_cong [OF acc, of "image_mset localUnit"] by (metis mset_map)
  qed
  have dist: "distinct (map localUnit acc)" using mset_eq_imp_distinct_iff [OF cols] by (simp add: distinct_map)
  have set_cols: "set (map localUnit acc) = int ` {0..<blen ol}" using mset_eq_setD [OF cols] by simp
  have nd: "filter (\<lambda>u. \<not> deleted u) acc = acc" "filter deleted acc = []" using u by (auto simp: filter_id_conv filter_empty_conv)
  note side = local_side [of acc, OF _ dist]
  have side': "side_ok (map localUnit acc) (l2k ?t) (availableL ?t) (lowestL ?t)" using side u by blast
  have chain: "map (\<lambda>k. acc ! nat k) (side_chain (l2k ?t) (availableL ?t)) = map ?unit [0..<blen ol]"
    using chain_units [OF side' dist set_cols] u by blast
  show ?thesis
  proof (cases "acc = []")
    case True
    then have "blen ol = 0" using arg_cong [OF acc, of size] by simp
    then show ?thesis using merge_rounds_none [of acc v0] True by simp
  next
    case False
    have low: "0 \<le> lowestL ?t" using side' False u Min_in [of "set (map localUnit acc)"] by (fastforce simp: side_ok_def)
    have "merge_round acc v0 = Some (map (\<lambda>k. acc ! nat k) (side_chain (l2k ?t) (availableL ?t)), [], False)"
    proof (rule merge_round_chain [OF nd(1) [symmetric] False refl side' dist])
      fix k assume k: "0 \<le> k" "k < int (length acc)"
      then have in_acc: "acc ! nat k \<in> set acc" by (simp add: nat_less_iff)
      then have l: "localUnit (acc ! nat k) \<noteq> - 1" using u by fastforce
      have "r2k ?t = p2k ?t \<and> availableR ?t = availableP ?t" using pivot_side(1) [of acc] u by blast
      then show "set (draw_next ?t (int (length acc)) (acc ! nat k)) = {side_next (map localUnit acc) (l2k ?t) (availableL ?t) k}"
        using l u [OF in_acc] k by (auto simp: draw_next_def side_next_def Let_def nat_less_iff)
    next
      show "(side_chain (l2k ?t) (availableL ?t) ! 0, side_chain (l2k ?t) (availableL ?t) ! 0, 0) \<in> set (first_layer ?t (int (length acc)))"
        using side_first [OF side' dist] False low by (simp add: first_layer_def Let_def)
    qed simp
    then show ?thesis using merge_rounds_chain chain nd(2) by simp
  qed
qed

text \<open>The order of the remote table.\<close>

definition matched_order :: "nat \<Rightarrow> order_result \<Rightarrow> bool" where
  "matched_order n ord \<longleftrightarrow> length (a2b_cells ord) = n \<and>
     (\<forall>p. 0 \<le> p \<and> p < int n \<longrightarrow> a2b ord p = - 1 \<or> 0 \<le> a2b ord p \<and> a2b ord p < int (blen ord) \<and> b2a ord (a2b ord p) = p) \<and>
     (\<forall>r. 0 \<le> r \<and> r < int (blen ord) \<longrightarrow> b2a ord r = - 1 \<or> 0 \<le> b2a ord r \<and> b2a ord r < int n \<and> a2b ord (b2a ord r) = r)"

lemma matched_order_ok: "matched_order n ord \<Longrightarrow> order_ok ord"
  unfolding order_ok_def
proof (intro allI impI)
  fix p assume ord: "matched_order n ord" and a: "0 \<le> a2b ord p"
  then have "0 \<le> p" "p < int n" by (auto simp: a2b_def order_cell_def matched_order_def split: if_splits)
  then show "a2b ord p < int (blen ord) \<and> b2a ord (a2b ord p) \<noteq> - 1" using ord a unfolding matched_order_def by force
qed

definition merged_remote_unit :: "order_result \<Rightarrow> nat \<Rightarrow> match_unit" where
  "merged_remote_unit orr r = (let p = b2a orr (int r) in
     if p = - 1 then remote_unit r else MatchUnit p p (int r) False MATCH_UNIT_PRESERVE)"

lemma kept_units:
  assumes "matched_order n orr"
    "mset acc = mset (map (local_unit (same_order n) orr) [0..<n]) + image_mset remote_unit (mset_set (remote_new orr))"
  shows "mset (filter (\<lambda>u. \<not> deleted u) acc) = mset (map (merged_remote_unit orr) [0..<blen orr])"
    "mset (filter deleted acc) = mset (map (\<lambda>l. MatchUnit (int l) (int l) (- 1) True MATCH_UNIT_DELETE) (filter (\<lambda>l. a2b orr (int l) = - 1) [0..<n]))"
proof -
  let ?unit = "merged_remote_unit orr" and ?local = "local_unit (same_order n) orr"
  let ?kept = "\<lambda>l. a2b orr (int l) \<noteq> - 1" and ?g = "\<lambda>l. nat (a2b orr (int l))"
  have m: "l < n \<Longrightarrow> ?kept l \<Longrightarrow> 0 \<le> a2b orr (int l) \<and> a2b orr (int l) < int (blen orr) \<and> b2a orr (a2b orr (int l)) = int l" for l
    using assms(1) unfolding matched_order_def by (metis of_nat_0_le_iff of_nat_less_iff)
  have m': "r < blen orr \<Longrightarrow> b2a orr (int r) \<noteq> - 1 \<Longrightarrow> 0 \<le> b2a orr (int r) \<and> b2a orr (int r) < int n \<and> a2b orr (b2a orr (int r)) = int r" for r
    using assms(1) unfolding matched_order_def by (metis of_nat_0_le_iff of_nat_less_iff)
  have l: "?local l = (if ?kept l then MatchUnit (int l) (int l) (a2b orr (int l)) False MATCH_UNIT_PRESERVE
      else MatchUnit (int l) (int l) (- 1) True MATCH_UNIT_DELETE)" if "l < n" for l
    using that by (simp add: local_unit_def same_order_cell Let_def)
  have locals: "filter P (map ?local [0..<n]) = map ?local (filter (\<lambda>l. P (?local l)) [0..<n])" for P by (simp add: filter_map comp_def)
  have d: "deleted (?local l) \<longleftrightarrow> \<not> ?kept l" if "l < n" for l by (simp add: l [OF that] MatchUnit_def)
  have del: "filter (\<lambda>l. deleted (?local l)) [0..<n] = filter (\<lambda>l. \<not> ?kept l) [0..<n]"
      "filter (\<lambda>l. \<not> deleted (?local l)) [0..<n] = filter ?kept [0..<n]"
    by (auto intro!: filter_cong simp: d)
  have rem: "filter_mset (\<lambda>u. \<not> deleted u) (image_mset remote_unit M) = image_mset remote_unit M" "filter_mset deleted (image_mset remote_unit M) = {#}" for M
    by (simp_all add: filter_mset_image_mset remote_unit_def MatchUnit_def)
  have "mset (filter deleted acc) = mset (filter deleted (map ?local [0..<n]))"
    by (simp only: mset_filter assms(2) filter_union_mset rem add_0_right)
  also have "\<dots> = mset (map ?local (filter (\<lambda>l. \<not> ?kept l) [0..<n]))" by (simp only: locals del)
  also have "map ?local (filter (\<lambda>l. \<not> ?kept l) [0..<n]) = map (\<lambda>l. MatchUnit (int l) (int l) (- 1) True MATCH_UNIT_DELETE) (filter (\<lambda>l. a2b orr (int l) = - 1) [0..<n])"
    by (rule map_cong) (auto simp: l)
  finally show "mset (filter deleted acc) = mset (map (\<lambda>l. MatchUnit (int l) (int l) (- 1) True MATCH_UNIT_DELETE) (filter (\<lambda>l. a2b orr (int l) = - 1) [0..<n]))" .
  have inj: "inj_on ?g {l. l < n \<and> ?kept l}"
  proof (rule inj_onI)
    fix x y assume xy: "x \<in> {l. l < n \<and> ?kept l}" "y \<in> {l. l < n \<and> ?kept l}" "?g x = ?g y"
    have "0 \<le> a2b orr (int x)" "0 \<le> a2b orr (int y)" and b: "b2a orr (a2b orr (int x)) = int x" "b2a orr (a2b orr (int y)) = int y"
      using m [of x] m [of y] xy(1,2) by simp_all
    then have "a2b orr (int x) = a2b orr (int y)" using xy(3) by simp
    then have "int x = int y" using b by (metis (full_types))
    then show "x = y" by simp
  qed
  have img: "?g ` {l. l < n \<and> ?kept l} = {r. r < blen orr \<and> b2a orr (int r) \<noteq> - 1}"
  proof (intro equalityI subsetI)
    fix r assume "r \<in> ?g ` {l. l < n \<and> ?kept l}"
    then show "r \<in> {r. r < blen orr \<and> b2a orr (int r) \<noteq> - 1}" using m by (force simp: nat_less_iff)
  next
    fix r assume r: "r \<in> {r. r < blen orr \<and> b2a orr (int r) \<noteq> - 1}"
    then have "r = ?g (nat (b2a orr (int r)))" "nat (b2a orr (int r)) < n" "?kept (nat (b2a orr (int r)))" using m' [of r] by auto
    then show "r \<in> ?g ` {l. l < n \<and> ?kept l}" by blast
  qed
  have bij: "mset_set {r. r < blen orr \<and> b2a orr (int r) \<noteq> - 1} = image_mset ?g (mset_set {l. l < n \<and> ?kept l})"
    unfolding img [symmetric] by (rule image_mset_mset_set [OF inj, symmetric])
  have "mset (filter (\<lambda>u. \<not> deleted u) acc) = mset (filter (\<lambda>u. \<not> deleted u) (map ?local [0..<n])) + image_mset remote_unit (mset_set (remote_new orr))"
    by (simp only: mset_filter assms(2) filter_union_mset rem)
  also have "\<dots> = image_mset ?local (mset_set {l. l < n \<and> ?kept l}) + image_mset remote_unit (mset_set (remote_new orr))"
    by (simp add: locals del filter_mset_mset_set Collect_conj_eq lessThan_def inf_commute)
  also have "image_mset ?local (mset_set {l. l < n \<and> ?kept l}) = image_mset ?unit (image_mset ?g (mset_set {l. l < n \<and> ?kept l}))"
    unfolding image_mset.compositionality
    by (rule image_mset_cong) (use l m in \<open>auto simp: merged_remote_unit_def Let_def\<close>)
  also have "image_mset remote_unit (mset_set (remote_new orr)) = image_mset ?unit (mset_set (remote_new orr))"
    by (rule image_mset_cong) (auto simp: merged_remote_unit_def remote_new_def Let_def)
  also have "image_mset ?unit (image_mset ?g (mset_set {l. l < n \<and> ?kept l})) + image_mset ?unit (mset_set (remote_new orr)) =
      image_mset ?unit (mset_set {r. r < blen orr \<and> b2a orr (int r) \<noteq> - 1} + mset_set (remote_new orr))" by (simp add: bij)
  also have "mset_set {r. r < blen orr \<and> b2a orr (int r) \<noteq> - 1} + mset_set (remote_new orr) = mset_set {0..<blen orr}"
    by (subst mset_set_Union [symmetric]) (auto simp: remote_new_def intro: arg_cong [of _ _ mset_set])
  finally show "mset (filter (\<lambda>u. \<not> deleted u) acc) = mset (map ?unit [0..<blen orr])" by simp
qed

lemma remote_order_rounds:
  assumes ord: "matched_order n orr"
    and acc: "mset acc = mset (map (local_unit (same_order n) orr) [0..<n]) + image_mset remote_unit (mset_set (remote_new orr))"
  shows "merge_rounds acc [] v0 = Some (map (merged_remote_unit orr) [0..<blen orr], [])"
proof -
  define us where "us = filter (\<lambda>u. \<not> deleted u) acc"
  let ?unit = "merged_remote_unit orr" and ?t = "tables_of us"
  have mset_us: "mset us = mset (map ?unit [0..<blen orr])" unfolding us_def by (rule kept_units(1) [OF assms])
  have unit: "remoteUnit (?unit r) = int r" "localUnit (?unit r) = pivotUnit (?unit r)" for r
    by (simp_all add: merged_remote_unit_def MatchUnit_def remote_unit_def Let_def)
  have set_us: "set us = ?unit ` {0..<blen orr}" using arg_cong [OF mset_us, of set_mset] by simp
  have u: "0 \<le> remoteUnit u \<and> localUnit u = pivotUnit u \<and> u = ?unit (nat (remoteUnit u))" if "u \<in> set us" for u
    using that unit set_us by auto
  have cols: "mset (map remoteUnit us) = mset (map int [0..<blen orr])"
  proof -
    have "map remoteUnit (map ?unit [0..<blen orr]) = map int [0..<blen orr]" using unit(1) by simp
    then show ?thesis using arg_cong [OF mset_us, of "image_mset remoteUnit"] by (metis mset_map)
  qed
  have dist: "distinct (map remoteUnit us)" using mset_eq_imp_distinct_iff [OF cols] by (simp add: distinct_map)
  have set_cols: "set (map remoteUnit us) = int ` {0..<blen orr}" using mset_eq_setD [OF cols] by simp
  have side: "side_ok (map remoteUnit us) (r2k ?t) (availableR ?t) (lowestR ?t)" using remote_side [of us, OF _ dist] u by blast
  have chain: "map (\<lambda>k. us ! nat k) (side_chain (r2k ?t) (availableR ?t)) = map ?unit [0..<blen orr]"
    using chain_units [OF side dist set_cols] u by blast
  show ?thesis
  proof (cases "us = []")
    case True
    then have "blen orr = 0" using arg_cong [OF mset_us, of size] by simp
    then show ?thesis using merge_rounds_none [of acc v0] True by (simp add: us_def)
  next
    case False
    have low: "0 \<le> lowestR ?t" using side False u Min_in [of "set (map remoteUnit us)"] by (fastforce simp: side_ok_def)
    have "merge_round acc v0 = Some (map (\<lambda>k. us ! nat k) (side_chain (r2k ?t) (availableR ?t)), [], False)"
    proof (rule merge_round_chain [OF us_def False refl side dist])
      fix k assume k: "0 \<le> k" "k < int (length us)"
      then have in_us: "us ! nat k \<in> set us" by (simp add: nat_less_iff)
      then have r: "remoteUnit (us ! nat k) \<noteq> - 1" using u by fastforce
      have "l2k ?t = p2k ?t \<and> availableL ?t = availableP ?t" using pivot_side(2) [of us] u by blast
      then show "set (draw_next ?t (int (length us)) (us ! nat k)) = {side_next (map remoteUnit us) (r2k ?t) (availableR ?t) k}"
        using r u [OF in_us] k by (auto simp: draw_next_def side_next_def Let_def nat_less_iff)
    next
      show "(side_chain (r2k ?t) (availableR ?t) ! 0, side_chain (r2k ?t) (availableR ?t) ! 0, 0) \<in> set (first_layer ?t (int (length us)))"
        using side_first [OF side dist] False low by (simp add: first_layer_def Let_def)
    qed simp
    then show ?thesis using merge_rounds_chain chain by simp
  qed
qed

section \<open>Properties\<close>

lemma no_trim: "\<not> head_trimmed flags \<Longrightarrow> \<not> tail_trimmed flags \<Longrightarrow> trim_order flags ord = ord"
  by (simp add: trim_order_def)

lemma order_merge_remote:
  assumes "\<not> head_trimmed flags" "\<not> tail_trimmed flags" "use_order flags \<or> columnar" "matched_order n side"
  shows "\<exists>dropped overlap. order_merge (same_order n) side flags columnar [] v0 = Some (map (merged_remote_unit side) [0..<blen side] @ dropped, overlap) \<and>
    mset dropped = mset (map (\<lambda>l. MatchUnit (int l) (int l) (- 1) True MATCH_UNIT_DELETE) (filter (\<lambda>l. a2b side (int l) = - 1) [0..<n]))"
proof -
  obtain acc where acc: "collect_units (same_order n) side [] = Some acc"
      "mset acc = mset (map (local_unit (same_order n) side) [0..<n]) + image_mset remote_unit (mset_set (remote_new side))"
    using collect_units_ok [OF matched_order_ok [OF assms(4)], of "same_order n" "[]"] by (auto simp: same_order_cell)
  show ?thesis
    using remote_order_rounds [OF assms(4) acc(2), of v0] kept_units(2) [OF assms(4) acc(2)] acc(1) assms(1-3)
    by (simp add: order_merge_def no_trim del: mset_map)
qed

text \<open>
  C16: when one of two tables kept the order of the pivot, the merged order is that of the other table, and the merge
  ends.  If the remote table is the pivot as it was, the merged table has the units of the local table in its order.
  If the local table is the pivot as it was, the units come in the order of the remote table, whatever rows or columns
  it moved, inserted or dropped; after them come the dropped ones, marked as deleted.
\<close>

theorem order_merge_one_side:
  assumes "\<not> head_trimmed flags" "\<not> tail_trimmed flags" "use_order flags \<or> columnar"
  shows "((\<forall>l < blen side. b2a side (int l) = - 1 \<or> 0 \<le> b2a side (int l) \<and> b2a side (int l) < int n) \<longrightarrow>
      (\<exists>overlap. order_merge side (same_order n) flags columnar [] v0 = Some (map (local_unit side (same_order n)) [0..<blen side], overlap))) \<and>
    (matched_order n side \<longrightarrow>
      (\<exists>dropped overlap. order_merge (same_order n) side flags columnar [] v0 = Some (map (merged_remote_unit side) [0..<blen side] @ dropped, overlap) \<and>
        mset dropped = mset (map (\<lambda>l. MatchUnit (int l) (int l) (- 1) True MATCH_UNIT_DELETE) (filter (\<lambda>l. a2b side (int l) = - 1) [0..<n]))))"
proof (intro conjI impI)
  assume range: "\<forall>l < blen side. b2a side (int l) = - 1 \<or> 0 \<le> b2a side (int l) \<and> b2a side (int l) < int n"
  obtain acc where acc: "collect_units side (same_order n) [] = Some acc" "mset acc = mset (map (local_unit side (same_order n)) [0..<blen side])"
    using collect_units_ok [OF order_ok_same [of n], of side "[]"] by (auto simp: remote_new_same)
  show "\<exists>overlap. order_merge side (same_order n) flags columnar [] v0 = Some (map (local_unit side (same_order n)) [0..<blen side], overlap)"
    using local_order_rounds [OF acc(2) range, of v0] acc(1) assms by (simp add: order_merge_def no_trim)
next
  assume "matched_order n side"
  then show "\<exists>dropped overlap. order_merge (same_order n) side flags columnar [] v0 = Some (map (merged_remote_unit side) [0..<blen side] @ dropped, overlap) \<and>
        mset dropped = mset (map (\<lambda>l. MatchUnit (int l) (int l) (- 1) True MATCH_UNIT_DELETE) (filter (\<lambda>l. a2b side (int l) = - 1) [0..<n]))"
    by (rule order_merge_remote [OF assms])
qed

lemma order_merge_one_side_witness:
  "\<exists>dropped overlap. order_merge (same_order 3) (demo_order [2, - 1, 0] [2, - 1, 0])
      \<lparr>head_trimmed = False, tail_trimmed = False, use_order = True\<rparr> False [] (new_Viterbi 0 0 0) =
    Some ([MatchUnit 2 2 0 False MATCH_UNIT_PRESERVE, MatchUnit (- 1) (- 1) 1 False MATCH_UNIT_INSERT, MatchUnit 0 0 2 False MATCH_UNIT_PRESERVE] @ dropped, overlap) \<and>
    mset dropped = {# MatchUnit 1 1 (- 1) True MATCH_UNIT_DELETE #}"
proof -
  let ?f = "\<lparr>head_trimmed = False, tail_trimmed = False, use_order = True\<rparr>" and ?r = "demo_order [2, - 1, 0] [2, - 1, 0]"
  have cases: "p = 0 \<or> p = 1 \<or> p = 2" if "0 \<le> p" "p < 3" for p :: int using that by linarith
  have m: "matched_order 3 ?r"
    by (auto simp: matched_order_def a2b_def b2a_def order_cell_def demo_order_def blen_def nth_Cons' dest!: cases)
  have units: "map (merged_remote_unit ?r) [0..<blen ?r] =
      [MatchUnit 2 2 0 False MATCH_UNIT_PRESERVE, MatchUnit (- 1) (- 1) 1 False MATCH_UNIT_INSERT, MatchUnit 0 0 2 False MATCH_UNIT_PRESERVE]"
    by (simp add: merged_remote_unit_def remote_unit_def b2a_def order_cell_def demo_order_def blen_def nth_Cons' upt_rec Let_def)
  have dropped: "filter (\<lambda>l. a2b ?r (int l) = - 1) [0..<3] = [1]"
    by (simp add: a2b_def order_cell_def demo_order_def nth_Cons' upt_rec)
  show ?thesis using order_merge_one_side [of ?f False ?r 3 "new_Viterbi 0 0 0"] m by (simp add: units dropped del: append.simps)
qed

end
