(* ===== verification/Mover_Correct.thy ===== *)
theory Mover_Correct
  imports Mover
begin

text \<open>
  The search for moves always finds an order of moves, and the moves, carried out one after the other,
  turn the given order of the columns into the one wanted.
\<close>

section \<open>The loop\<close>

lemma loop_end: "i \<ge> length dest \<Longrightarrow> move_loop i src dest order forb depth m best solved = Some (solved, m)"
  by (subst move_loop.simps) simp

lemma loop_skip:
  assumes "i < length dest" "dest ! i \<in> set forb \<or> plan_move src dest i = Stay"
  shows "move_loop i src dest order forb depth m best solved = move_loop (Suc i) src dest order forb depth m best solved"
  using assms by (subst move_loop.simps) (simp add: Let_def)

lemma loop_step:
  assumes "distinct dest" "mset src = mset dest" "i < length dest" "dest ! i \<notin> set forb" "plan_move src dest i \<noteq> Stay"
    "move (place dest (dest ! i) src) dest (order @ [dest ! i]) (forb @ [dest ! i]) (Suc depth) m = Some (ok, norder, m')"
  shows "move_loop i src dest order forb depth m best solved =
    (if ok \<and> (length norder < length best \<or> \<not> solved)
     then move_loop (Suc i) src dest order forb depth (note_solution norder m') norder True
     else move_loop (Suc i) src dest order forb depth m' best solved)"
  using assms by (subst move_loop.simps) (simp add: Let_def apply_move_place)

section \<open>What a call achieves\<close>

text \<open>Some branch of the search reaches the order wanted.\<close>

inductive solvable :: "int list \<Rightarrow> int list \<Rightarrow> int list \<Rightarrow> bool" for dest where
  reached: "solvable dest dest forb"
| moving: "i < length dest \<Longrightarrow> dest ! i \<notin> set forb \<Longrightarrow> plan_move src dest i \<noteq> Stay \<Longrightarrow>
    solvable dest (place dest (dest ! i) src) (forb @ [dest ! i]) \<Longrightarrow> solvable dest src forb"

definition gbest_ok :: "int list \<Rightarrow> int list \<Rightarrow> mover \<Rightarrow> bool" where
  "gbest_ok dest src0 m \<longleftrightarrow> (global_solved m \<longrightarrow> carry_out dest (global_best_order m) src0 = dest)"

text \<open>Of a call: it returns; a solution is one and is kept; a search without solution leaves no trace; a
  search not cut short finds a solution where there is one.\<close>

definition move_good :: "int list \<Rightarrow> int list \<Rightarrow> int list \<Rightarrow> int list \<Rightarrow> int list \<Rightarrow> mover \<Rightarrow> (bool \<times> int list \<times> mover) option \<Rightarrow> bool" where
  "move_good dest src0 src order forb m r \<longleftrightarrow> (\<exists>ok order' m'. r = Some (ok, order', m') \<and>
     (gbest_ok dest src0 m \<longrightarrow> carry_out dest order src0 = src \<longrightarrow> gbest_ok dest src0 m' \<and> (ok \<longrightarrow> carry_out dest order' src0 = dest)) \<and>
     (global_solved m \<longrightarrow> global_solved m') \<and>
     (\<not> global_solved m \<longrightarrow> \<not> ok \<longrightarrow> m' = m) \<and>
     (solvable dest src forb \<longrightarrow> \<not> global_solved m \<longrightarrow> solutions m \<le> 100 \<longrightarrow> ok))"

definition branch_from :: "nat \<Rightarrow> int list \<Rightarrow> int list \<Rightarrow> int list \<Rightarrow> bool" where
  "branch_from i dest src forb \<longleftrightarrow> (\<exists>j \<ge> i. j < length dest \<and> dest ! j \<notin> set forb \<and> plan_move src dest j \<noteq> Stay \<and>
     solvable dest (place dest (dest ! j) src) (forb @ [dest ! j]))"

lemma branch_from_step:
  "branch_from i dest src forb \<longleftrightarrow> branch_from (Suc i) dest src forb \<or> (i < length dest \<and> dest ! i \<notin> set forb \<and>
     plan_move src dest i \<noteq> Stay \<and> solvable dest (place dest (dest ! i) src) (forb @ [dest ! i]))"
proof -
  have "i \<le> j \<longleftrightarrow> Suc i \<le> j \<or> j = i" for j by auto
  then show ?thesis unfolding branch_from_def by blast
qed

definition loop_good :: "nat \<Rightarrow> int list \<Rightarrow> int list \<Rightarrow> int list \<Rightarrow> int list \<Rightarrow> int list \<Rightarrow> mover \<Rightarrow> bool \<Rightarrow> (bool \<times> mover) option \<Rightarrow> bool" where
  "loop_good i dest src0 src order forb m solved r \<longleftrightarrow> (\<exists>solved' m'. r = Some (solved', m') \<and>
     (gbest_ok dest src0 m \<longrightarrow> carry_out dest order src0 = src \<longrightarrow> gbest_ok dest src0 m') \<and>
     ((solved \<longrightarrow> global_solved m) \<longrightarrow> solved' \<longrightarrow> global_solved m') \<and>
     (global_solved m \<longrightarrow> global_solved m') \<and>
     (\<not> global_solved m \<longrightarrow> \<not> solved' \<longrightarrow> m' = m) \<and> (solved \<longrightarrow> solved') \<and>
     (\<not> global_solved m \<longrightarrow> solutions m \<le> 100 \<longrightarrow>
       branch_from i dest src forb \<longrightarrow> solved'))"

lemma note_solution_ok:
  "carry_out dest norder src0 = dest \<Longrightarrow> gbest_ok dest src0 m \<Longrightarrow> gbest_ok dest src0 (note_solution norder m)"
  "global_solved (note_solution norder m)"
  by (simp_all add: note_solution_def gbest_ok_def Let_def)

lemma loop_ok:
  assumes "distinct dest" "mset src = mset dest"
    and call: "\<And>x order m. x \<in> set dest \<Longrightarrow> x \<notin> set forb \<Longrightarrow>
      move_good dest src0 (place dest x src) order (forb @ [x]) m (move (place dest x src) dest order (forb @ [x]) (Suc depth) m)"
  shows "loop_good i dest src0 src order forb m solved (move_loop i src dest order forb depth m best solved)"
proof (induction "length dest - i" arbitrary: i m best solved)
  case 0
  then show ?case by (auto simp: loop_end loop_good_def branch_from_def)
next
  case (Suc n)
  then have i: "i < length dest" and n: "n = length dest - Suc i" by simp_all
  show ?case
  proof (cases "dest ! i \<in> set forb \<or> plan_move src dest i = Stay")
    case True
    then have "branch_from i dest src forb = branch_from (Suc i) dest src forb" using branch_from_step by blast
    then show ?thesis using Suc.hyps(1) [OF n, of m solved best] by (simp add: loop_skip [OF i True] loop_good_def)
  next
    case False
    let ?x = "dest ! i"
    let ?r = "move (place dest ?x src) dest (order @ [?x]) (forb @ [?x]) (Suc depth) m"
    have "move_good dest src0 (place dest ?x src) (order @ [?x]) (forb @ [?x]) m ?r" using call False i by simp
    then obtain ok norder m' where r: "?r = Some (ok, norder, m')" and
      sound: "gbest_ok dest src0 m \<Longrightarrow> carry_out dest order src0 = src \<Longrightarrow> gbest_ok dest src0 m' \<and> (ok \<longrightarrow> carry_out dest norder src0 = dest)" and
      keeps: "global_solved m \<Longrightarrow> global_solved m'" and
      fails: "\<not> global_solved m \<Longrightarrow> \<not> ok \<Longrightarrow> m' = m" and
      finds: "solvable dest (place dest ?x src) (forb @ [?x]) \<Longrightarrow> \<not> global_solved m \<Longrightarrow> solutions m \<le> 100 \<Longrightarrow> ok"
      unfolding move_good_def by auto
    note step = loop_step [OF assms(1,2) i _ _ r, of best solved]
    show ?thesis
    proof (cases "ok \<and> (length norder < length best \<or> \<not> solved)")
      case True
      let ?m = "note_solution norder m'"
      have eq: "move_loop i src dest order forb depth m best solved = move_loop (Suc i) src dest order forb depth ?m norder True"
        using step False True by simp
      obtain solved' m2 where l: "move_loop (Suc i) src dest order forb depth ?m norder True = Some (solved', m2)"
          "gbest_ok dest src0 ?m \<Longrightarrow> carry_out dest order src0 = src \<Longrightarrow> gbest_ok dest src0 m2" "global_solved m2" "solved'"
        using Suc.hyps(1) [OF n, of ?m True norder] note_solution_ok(2) [of norder m'] unfolding loop_good_def by auto
      show ?thesis unfolding eq loop_good_def using l sound True note_solution_ok(1) by auto
    next
      case no: False
      have eq: "move_loop i src dest order forb depth m best solved = move_loop (Suc i) src dest order forb depth m' best solved"
        using step False no by simp
      from Suc.hyps(1) [OF n, of m' solved best] obtain solved' m2 where l: "move_loop (Suc i) src dest order forb depth m' best solved = Some (solved', m2)"
          "gbest_ok dest src0 m' \<Longrightarrow> carry_out dest order src0 = src \<Longrightarrow> gbest_ok dest src0 m2"
          "(solved \<longrightarrow> global_solved m') \<Longrightarrow> solved' \<Longrightarrow> global_solved m2" "global_solved m' \<Longrightarrow> global_solved m2"
          "\<not> global_solved m' \<Longrightarrow> \<not> solved' \<Longrightarrow> m2 = m'" "solved \<Longrightarrow> solved'"
          "\<not> global_solved m' \<Longrightarrow> solutions m' \<le> 100 \<Longrightarrow> branch_from (Suc i) dest src forb \<Longrightarrow> solved'"
        unfolding loop_good_def by auto
      have unsolved: "solved' \<or> \<not> ok" using no l(6) by auto
      have finds': "solved'" if "\<not> global_solved m" "solutions m \<le> 100" "branch_from i dest src forb"
      proof (rule ccontr)
        assume n: "\<not> solved'"
        then have "\<not> ok" "m' = m" using unsolved fails that(1) by auto
        then show False using l(7) n that finds branch_from_step [of i dest src forb] by auto
      qed
      show ?thesis unfolding eq loop_good_def using l sound keeps fails unsolved finds' by auto
    qed
  qed
qed

lemma move_unfold:
  assumes "depth = 0 \<Longrightarrow> \<not> global_solved m \<and> solutions m = 0"
  shows "move src dest order forb depth m =
    (if global_solved m \<and> depth > length (global_best_order m) \<or> solutions m > 100 then Some (False, order, m)
     else if src = dest then Some (True, order, m)
     else case move_loop 0 src dest order forb depth m [] False of None \<Rightarrow> None
       | Some (solved, m) \<Rightarrow> if solved then Some (True, global_best_order m, m) else Some (False, order, m))"
proof -
  have "(if depth = 0 then m\<lparr>global_solved := False, solutions := 0\<rparr> else m) = m" using assms by (cases m) auto
  then show ?thesis by (subst move.simps) (simp add: Let_def)
qed

lemma move_ok:
  assumes "distinct dest" "mset src = mset dest" "depth = 0 \<Longrightarrow> \<not> global_solved m \<and> solutions m = 0"
  shows "move_good dest src0 src order forb m (move src dest order forb depth m)"
  using assms(2,3)
proof (induction "card (set dest - set forb)" arbitrary: src order forb depth m rule: less_induct)
  case less
  have call: "move_good dest src0 (place dest x src) order' (forb @ [x]) m' (move (place dest x src) dest order' (forb @ [x]) (Suc depth) m')"
    if "x \<in> set dest" "x \<notin> set forb" for x order' m'
  proof (rule less.hyps)
    have "set dest - set (forb @ [x]) \<subset> set dest - set forb" using that by auto
    then show "card (set dest - set (forb @ [x])) < card (set dest - set forb)" by (simp add: psubset_card_mono)
    have "x \<in> set src" using that(1) less.prems(1) by (metis mset_eq_setD)
    then show "mset (place dest x src) = mset dest" using mset_place less.prems(1) by simp
  qed simp
  have loop: "loop_good 0 dest src0 src order forb m False (move_loop 0 src dest order forb depth m [] False)"
    using loop_ok [OF assms(1) less.prems(1)] call by blast
  note eq = move_unfold [of depth m src dest order forb, OF less.prems(2)]
  show ?case
  proof (cases "global_solved m \<and> depth > length (global_best_order m) \<or> solutions m > 100 \<or> src = dest")
    case True
    then show ?thesis by (auto simp: eq move_good_def)
  next
    case False
    have branch: "branch_from 0 dest src forb" if "solvable dest src forb"
      using that False by (cases rule: solvable.cases) (auto simp: branch_from_def)
    from loop obtain solved m' where l: "move_loop 0 src dest order forb depth m [] False = Some (solved, m')"
        "gbest_ok dest src0 m \<Longrightarrow> carry_out dest order src0 = src \<Longrightarrow> gbest_ok dest src0 m'" "solved \<Longrightarrow> global_solved m'"
        "global_solved m \<Longrightarrow> global_solved m'" "\<not> global_solved m \<Longrightarrow> \<not> solved \<Longrightarrow> m' = m"
        "\<not> global_solved m \<Longrightarrow> solutions m \<le> 100 \<Longrightarrow> branch_from 0 dest src forb \<Longrightarrow> solved"
      unfolding loop_good_def by auto
    have "move src dest order forb depth m = (if solved then Some (True, global_best_order m', m') else Some (False, order, m'))"
      using eq False l(1) by auto
    then show ?thesis unfolding move_good_def using l branch by (auto simp: gbest_ok_def)
  qed
qed

section \<open>There is a solution\<close>

lemma place_extends_prefix:
  assumes "distinct dest" "mset src = mset dest" "k < length dest" "take k src = take k dest" "src ! k \<noteq> dest ! k"
  shows "plan_move src dest k \<noteq> Stay" "take (Suc k) (place dest (dest ! k) src) = take (Suc k) dest"
proof -
  let ?x = "dest ! k"
  have len: "length src = length dest" using assms(2) by (metis size_mset)
  have dist: "distinct src" using assms(1,2) by (metis mset_eq_imp_distinct_iff)
  have x: "?x \<in> set src" using assms(2,3) by (metis mset_eq_setD nth_mem)
  have notin: "?x \<notin> set (take k src)" using assms(1,3,4) by (auto simp: in_set_conv_nth nth_eq_iff_index_eq)
  obtain p where p: "p = std_find src ?x" "p < length src" "src ! p = ?x" using x std_find_less std_find_at by blast
  have "p \<noteq> k" using p assms(5) by auto
  moreover have "\<not> p < k" using notin p len by (auto simp: in_set_conv_nth)
  ultimately have kp: "k < p" by simp
  have same: "src ! j = dest ! j" if "j < k" for j using assms(4) that by (metis nth_take)
  have prev: "src ! (p - 1) \<noteq> dest ! (k - 1)" if "k \<noteq> 0"
  proof -
    have "src ! (p - 1) \<noteq> src ! (k - 1)" using dist that kp p(2) nth_eq_iff_index_eq [of src "p - 1" "k - 1"] by simp
    then show ?thesis using same [of "k - 1"] that by simp
  qed
  show "plan_move src dest k \<noteq> Stay" using kp prev p(1) by (simp add: plan_move_def Let_def)
  have rem: "take k (remove1 ?x src) = take k src" "src = take k src @ drop k src"
    using notin remove1_append [of ?x "take k src" "drop k src"] len assms(3) by simp_all
  have k: "std_find dest ?x = k" using std_find_nth [OF assms(1,3)] .
  show "take (Suc k) (place dest ?x src) = take (Suc k) dest"
  proof (cases k)
    case 0
    then show ?thesis using assms(3) k by (simp add: place_def take_Suc hd_conv_nth)
  next
    case (Suc j)
    have "remove1 ?x src = take j dest @ dest ! j # drop k (remove1 ?x src)"
    proof -
      have "remove1 ?x src = take k dest @ drop k (remove1 ?x src)" using rem(1) assms(4) by (metis append_take_drop_id)
      then show ?thesis using Suc assms(3) by (simp add: take_Suc_conv_app_nth)
    qed
    moreover have "dest ! j \<notin> set (take j dest)" using assms(1,3) Suc by (auto simp: in_set_conv_nth nth_eq_iff_index_eq)
    moreover have behind: "insert_behind q a (us @ q # vs) = us @ q # a # vs" if "q \<notin> set us" for q a us vs
      using that by (induction us) auto
    ultimately have "place dest ?x src = take j dest @ dest ! j # ?x # drop k (remove1 ?x src)"
      using k Suc by (simp add: place_def) (metis behind)
    then show ?thesis using Suc assms(3) by (simp add: take_Suc_conv_app_nth)
  qed
qed

lemma solvable_prefix:
  assumes "distinct dest" "mset src = mset dest" "k \<le> length dest" "take k src = take k dest" "set forb \<subseteq> set (take k dest)"
  shows "solvable dest src forb"
  using assms(2-5)
proof (induction "length dest - k" arbitrary: k src forb)
  case 0
  have "length src = length dest" using 0(2) by (metis size_mset)
  then have "src = dest" using 0 by simp
  then show ?case by (simp add: solvable.reached)
next
  case (Suc n)
  then have k: "k < length dest" "n = length dest - Suc k" by simp_all
  have len: "length src = length dest" using Suc.prems(1) by (metis size_mset)
  have sub: "set (take k dest) \<subseteq> set (take (Suc k) dest)" by (simp add: set_take_subset_set_take)
  show ?case
  proof (cases "src ! k = dest ! k")
    case True
    then have "take (Suc k) src = take (Suc k) dest" using Suc.prems(3) k(1) len by (simp add: take_Suc_conv_app_nth)
    then show ?thesis using Suc.hyps(1) [OF k(2) Suc.prems(1)] k(1) Suc.prems(4) sub by auto
  next
    case False
    note pl = place_extends_prefix [OF assms(1) Suc.prems(1) k(1) Suc.prems(3) False]
    have "dest ! k \<notin> set (take k dest)" using assms(1) k(1) by (auto simp: in_set_conv_nth nth_eq_iff_index_eq)
    then have fresh: "dest ! k \<notin> set forb" using Suc.prems(4) by auto
    have "dest ! k \<in> set src" using Suc.prems(1) k(1) by (metis mset_eq_setD nth_mem)
    then have "mset (place dest (dest ! k) src) = mset dest" using mset_place Suc.prems(1) by simp
    moreover have "set (forb @ [dest ! k]) \<subseteq> set (take (Suc k) dest)" using Suc.prems(4) k(1) by (auto simp: take_Suc_conv_app_nth)
    ultimately have "solvable dest (place dest (dest ! k) src) (forb @ [dest ! k])"
      using Suc.hyps(1) [OF k(2)] pl(2) k(1) by simp
    then show ?thesis using solvable.moving k(1) fresh pl(1) by blast
  qed
qed

section \<open>Properties\<close>

text \<open>
  C40: for columns without repetition and a rearrangement of them, the search ends, finds an order of moves, and the
  moves, each taking a column behind its new predecessor, turn the one arrangement into the other.
\<close>

theorem move_correct:
  assumes "distinct dest" "mset src = mset dest"
  shows "\<exists>order m'. move_columns src dest [] m = Some (True, order, m') \<and> carry_out dest order src = dest"
proof -
  let ?m = "m\<lparr>global_solved := False, solutions := 0\<rparr>"
  have "move src dest [] [] 0 m = move src dest [] [] 0 ?m" by (simp add: move.simps [of _ _ _ _ 0])
  moreover have "move_good dest src src [] [] ?m (move src dest [] [] 0 ?m)" by (rule move_ok [OF assms]) simp
  moreover have "solvable dest src []" using solvable_prefix [OF assms, of 0 "[]"] by simp
  ultimately show ?thesis by (auto simp: move_good_def move_columns_def gbest_ok_def)
qed

definition demo_mover :: mover where
  "demo_mover = \<lparr>solutions = 0, global_solved = False, global_best_order = []\<rparr>"

lemma move_correct_witness:
  "\<exists>order m'. move_columns [0, 1, 2, 3] [1, 3, 2, 0] [] demo_mover = Some (True, order, m') \<and> carry_out [1, 3, 2, 0] order [0, 1, 2, 3] = [1, 3, 2, 0]"
  by (rule move_correct) simp_all

section \<open>Limits\<close>

text \<open>The merger inserts a column at its final index instead of behind its new predecessor: for this
  rearrangement it ends with another one.\<close>

lemma merger_misplaces_columns:
  "Option.bind (move_columns [0, 1, 2, 3] [1, 3, 2, 0] [] demo_mover) (\<lambda>(ok, order, m).
     map_option fst (merge_moves [1, 3, 2, 0] order ([0, 1, 2, 3], [[0x61], [0x62], [0x63], [0x64]], []))) = Some [3, 1, 2, 0]"
  by code_simp

end
