(* ===== verification/Merger_Correct.thy ===== *)
theory Merger_Correct
  imports Merger Order_Chain Mover_Correct
begin

text \<open>
  The changes the merger signals when it compares two tables describe the remote table: the columns are renamed to
  those of the remote table, every new row is inserted with its cells, every row that is gone is deleted, and the
  cells of the other rows are the local ones overridden by the values of the changes.
\<close>

section \<open>The cells of a row\<close>

text \<open>A null cell has the text \<open>NULL\<close>.\<close>

definition null_ok :: "sheet_cell \<Rightarrow> bool" where
  "null_ok c \<longleftrightarrow> (escaped c \<longrightarrow> ctext c = chars_of ''NULL'')"

lemma blank_not_null: "chars_of ''NULL'' \<noteq> blank"
  by (simp add: blank_def chars_of_def)

lemma null_ok_not_blank: "null_ok c \<Longrightarrow> c \<noteq> blankCell"
  using blank_not_null by (auto simp: null_ok_def blankCell_def)

lemma compare_string_ok:
  assumes "\<not> ignore_case flags" "null_ok a \<or> a = blankCell" "null_ok b \<or> b = blankCell"
  shows "compare_string flags a b = Some (a = b)"
  using assms by (auto simp: compare_string_def null_ok_def blankCell_def Let_def)

lemma merge_cell_local:
  assumes "\<not> ignore_case flags" "null_ok l" "null_ok r \<or> r = blankCell"
  shows "merge_cell flags l r l = Some (if l = r \<or> r = blankCell then (l, False, False) else (r, True, False))"
  using assms compare_string_ok [OF assms(1)] null_ok_not_blank [OF assms(2)] by (auto simp: merge_cell_def)

lemma merge_cell_blank:
  assumes "\<not> ignore_case flags" "null_ok r \<or> r = blankCell"
  shows "merge_cell flags blankCell r p = Some (if escaped r then (blankCell, False, False) else (r, True, False))"
  using assms compare_string_ok [OF assms(1)] by (auto simp: merge_cell_def blankCell_def)

lemma update_new: "n \<notin> fst ` set al \<Longrightarrow> AList.update n v al = al @ [(n, v)]"
  by (induction al) auto

text \<open>Without conflicts the values of a row are its new cells, under the names of their columns.\<close>

definition cell_news :: "merge_flags \<Rightarrow> row_cell \<Rightarrow> sheet_cell option" where
  "cell_news flags c = (case merge_cell flags (expandLocal c) (expandRemote c) (expandPivot c) of
     Some (x, True, _) \<Rightarrow> Some x | _ \<Rightarrow> None)"

definition named_news :: "merge_flags \<Rightarrow> (byte list \<times> row_cell) list \<Rightarrow> cells" where
  "named_news flags ncs = concat (map (\<lambda>(n, c). case cell_news flags c of None \<Rightarrow> [] | Some x \<Rightarrow> [(n, x)]) ncs)"

lemma merge_cells_news:
  assumes "wantDiff s" "\<not> fixed_columns (mflags s)" "exclude_columns (mflags s) = []" "distinct ns"
    "\<forall>c \<in> set cs. \<exists>x nov. merge_cell (mflags s) (expandLocal c) (expandRemote c) (expandPivot c) = Some (x, nov, False)"
    "rpos d + length (filter (\<lambda>c. \<not> expandDel c) cs) \<le> length ns" "\<forall>i \<ge> rpos d. i < length ns \<longrightarrow> ns ! i \<notin> fst ` set (novel_value d)"
  shows "merge_cells s ns [] cs d = Some (d\<lparr>novel_value := novel_value d @ named_news (mflags s) (zip (drop (rpos d) ns) (filter (\<lambda>c. \<not> expandDel c) cs)),
      rpos := rpos d + length (filter (\<lambda>c. \<not> expandDel c) cs)\<rparr>)"
  using assms(5-)
proof (induction cs arbitrary: d)
  case Nil
  then show ?case by (simp add: named_news_def)
next
  case (Cons c cs)
  obtain x nov where mc: "merge_cell (mflags s) (expandLocal c) (expandRemote c) (expandPivot c) = Some (x, nov, False)" using Cons.prems(1) by auto
  have step: "merge_cells s ns [] (c # cs) d = merge_cells s ns [] cs (note_cell s ns c (x, nov, False) d)"
    using assms(2) mc by simp
  show ?case
  proof (cases "expandDel c")
    case True
    then have "note_cell s ns c (x, nov, False) d = d" by (simp add: note_cell_def Let_def)
    then show ?thesis using step Cons.IH [of d] Cons.prems True by simp
  next
    case False
    let ?p = "rpos d"
    have p: "?p < length ns" using Cons.prems(2) False by simp
    define d' where "d' = d\<lparr>novel_value := novel_value d @ (if nov then [(ns ! ?p, x)] else []), rpos := ?p + 1\<rparr>"
    have "ns ! ?p \<notin> fst ` set (novel_value d)" using Cons.prems(3) p by blast
    then have d': "note_cell s ns c (x, nov, False) d = d'"
      using False assms(1,3) p by (simp add: note_cell_def Let_def d'_def name_at_def update_new)
    have fresh: "\<forall>i \<ge> rpos d'. i < length ns \<longrightarrow> ns ! i \<notin> fst ` set (novel_value d')"
    proof (intro allI impI)
      fix i assume i: "rpos d' \<le> i" "i < length ns"
      then have "ns ! i \<notin> fst ` set (novel_value d)" using Cons.prems(3) by (simp add: d'_def)
      moreover have "ns ! i \<noteq> ns ! ?p" using i p assms(4) by (simp add: d'_def nth_eq_iff_index_eq)
      ultimately show "ns ! i \<notin> fst ` set (novel_value d')" by (auto simp: d'_def)
    qed
    have "drop ?p ns = ns ! ?p # drop (Suc ?p) ns" using p by (simp add: Cons_nth_drop_Suc)
    moreover have "cell_news (mflags s) c = (if nov then Some x else None)" by (simp add: cell_news_def mc)
    ultimately show ?thesis using step Cons.IH [of d'] Cons.prems fresh False d'
      by (simp add: d'_def named_news_def)
  qed
qed

section \<open>The changes of a row\<close>

definition own_changes :: "match_unit \<Rightarrow> row_change \<Rightarrow> row_change list \<Rightarrow> bool" where
  "own_changes row c cs \<longleftrightarrow>
     (if localUnit row = - 1 then cs = [c\<lparr>rmode := ROW_CHANGE_INSERT\<rparr>]
      else if deleted row then cs = [c\<lparr>rmode := ROW_CHANGE_DELETE\<rparr>]
      else cs = [] \<and> rval c = [] \<or> cs = [c\<lparr>rmode := ROW_CHANGE_UPDATE\<rparr>] \<or> cs = [c\<lparr>rmode := ROW_CHANGE_MOVE\<rparr>])"

abbreviation no_context :: "row_change list \<Rightarrow> row_change list" where
  "no_context \<equiv> filter (\<lambda>c. rmode c \<noteq> ROW_CHANGE_CONTEXT)"

lemma no_context_change [simp]: "no_context (context_change s c) = []"
  by (simp add: context_change_def)

definition row_unit_ok :: "match_unit \<Rightarrow> bool" where
  "row_unit_ok row \<longleftrightarrow> pivotUnit row = localUnit row \<and> (remoteUnit row = - 1 \<longleftrightarrow> deleted row) \<and> (deleted row \<longrightarrow> localUnit row \<noteq> - 1)"

text \<open>What a row does not touch of the merger.\<close>

definition same_columns :: "merger \<Rightarrow> merger \<Rightarrow> bool" where
  "same_columns m m' \<longleftrightarrow> names m' = names m \<and> col_units m' = col_units m \<and> filtered_names m' = filtered_names m \<and> allGone m' = allGone m \<and> calls m' = calls m"

lemma emit_row_changes:
  assumes "acts (mflags s) = []" "row_unit_ok row"
  shows "own_changes row c (no_context (fst (emit_row s row c m))) \<and> same_columns m (snd (emit_row s row c m))"
proof -
  define m1 where "m1 = (if last_local_row m \<noteq> - 1 then m\<lparr>had_row := True, had_foreign_row := False\<rparr> else m)"
  obtain before mv m2 where mark: "mark_move s row (had_row m) c m1 = (before, mv, m2)" by (metis prod_cases3)
  obtain cs c' m3 where act: "act_on_row s row (had_row m) mv c m2 = (cs, c', m3)" by (metis prod_cases3)
  have emit: "emit_row s row c m = (before @ cs, m3\<lparr>last_local_row := localUnit row, lastRowChange := c',
      bottom_local_row := (if localUnit row \<ge> bottom_local_row m3 then localUnit row else bottom_local_row m3)\<rparr>)"
    using mark act by (simp add: emit_row_def m1_def Let_def)
  have m1: "same_columns m m1" by (simp add: m1_def same_columns_def)
  have m2: "same_columns m1 m2" "no_context before = []" "mv = None \<or> mv = Some (c\<lparr>rmode := ROW_CHANGE_MOVE\<rparr>)"
    "localUnit row = - 1 \<or> deleted row \<Longrightarrow> mv = None"
    using mark by (auto simp: mark_move_def same_columns_def split: if_splits)
  have "no_context (insert_context s b m2) = []" for b by (simp add: insert_context_def)
  then have "own_changes row c (no_context cs)" "same_columns m2 m3"
    using act m2(3,4) assms
    by (auto simp: act_on_row_def own_changes_def same_columns_def can_act_def pending_def row_unit_ok_def Let_def split: if_splits)
  then show ?thesis using m1 m2(1,2) by (simp add: emit same_columns_def)
qed

section \<open>Comparing two tables\<close>

definition table_cell :: "data_sheet \<Rightarrow> nat \<Rightarrow> nat \<Rightarrow> sheet_cell" where
  "table_cell t c r = cell_at t (int c) (int r)"

text \<open>
  The pivot is the local table, and all changes are wanted.  The local table has \<open>wd\<close> columns and \<open>ht\<close> rows, the remote one \<open>wd'\<close> and \<open>ht'\<close>.  Columns
  of the same name are matched and keep their order; at least one is.  A new column does not get a name that starts
  with a digit.
\<close>

definition two_way_flags :: "merge_flags \<Rightarrow> bool" where
  "two_way_flags flags \<longleftrightarrow> \<not> head_trimmed (order_flags flags) \<and> \<not> tail_trimmed (order_flags flags) \<and> \<not> ignore_case flags \<and> \<not> fixed_columns flags \<and>
     acts flags = [] \<and> exclude_columns flags = []"

definition table_ok :: "data_sheet \<Rightarrow> nat \<Rightarrow> nat \<Rightarrow> bool" where
  "table_ok t wd ht \<longleftrightarrow> sheet_width t = int wd \<and> sheet_height t = int ht \<and> (\<forall>c < wd. \<forall>r < ht. null_ok (table_cell t c r))"

definition columns_ok :: "merger_state \<Rightarrow> nat \<Rightarrow> nat \<Rightarrow> bool" where
  "columns_ok s wd wd' \<longleftrightarrow> ncol_local s = same_order wd \<and> matched_order wd (ncol_remote s) \<and> blen (ncol_remote s) = wd' \<and>
     (\<exists>c < wd'. b2a (ncol_remote s) (int c) \<noteq> - 1) \<and>
     sorted (filter (\<lambda>l. l \<noteq> - 1) (map (\<lambda>c. b2a (ncol_remote s) (int c)) [0..<wd'])) \<and>
     distinct (map (\<lambda>c. remote_names s (int c)) [0..<wd']) \<and> length (index_flags s) \<ge> wd \<and>
     (\<forall>c < wd'. let l = b2a (ncol_remote s) (int c); name = remote_names s (int c) in
        if l = - 1 then name = [] \<or> \<not> (0x30 \<le> hd name \<and> hd name \<le> 0x39) else local_names s l = name)"

definition rows_ok :: "merger_state \<Rightarrow> nat \<Rightarrow> nat \<Rightarrow> bool" where
  "rows_ok s ht ht' \<longleftrightarrow> nrow_local s = same_order ht \<and> matched_order ht (nrow_remote s) \<and> blen (nrow_remote s) = ht'"

definition two_way :: "merger_state \<Rightarrow> nat \<Rightarrow> nat \<Rightarrow> nat \<Rightarrow> nat \<Rightarrow> bool" where
  "two_way s wd ht wd' ht' \<longleftrightarrow> pivot_sheet s = local_sheet s \<and> wantDiff s \<and> \<not> wantLinks s \<and> \<not> allIdentical s \<and>
     two_way_flags (mflags s) \<and> table_ok (local_sheet s) wd ht \<and> table_ok (remote_sheet s) wd' ht' \<and>
     columns_ok s wd wd' \<and> rows_ok s ht ht'"

text \<open>What a remote cell adds to a local one.\<close>

definition pair_news :: "sheet_cell \<Rightarrow> sheet_cell \<Rightarrow> sheet_cell option" where
  "pair_news l r = (if l = blankCell then (if escaped r then None else Some r) else if l = r \<or> r = blankCell then None else Some r)"

definition row_cell_of :: "merger_state \<Rightarrow> match_unit \<Rightarrow> match_unit \<Rightarrow> row_cell" where
  "row_cell_of s row u = \<lparr>expandDel = deleted u, existsLocally = (localUnit u \<noteq> - 1),
     expandLocal = expand_cell (local_sheet s) (localUnit row) (localUnit u),
     expandRemote = expand_cell (remote_sheet s) (remoteUnit row) (remoteUnit u),
     expandPivot = expand_cell (pivot_sheet s) (pivotUnit row) (pivotUnit u)\<rparr>"

lemma expand_row_cells: "wantDiff s \<Longrightarrow> fst (expand_row s ns row k acc us) = fst acc @ map (row_cell_of s row) us"
  by (induction us arbitrary: k acc) (simp_all add: row_cell_of_def Let_def)

definition unit_within :: "nat \<Rightarrow> nat \<Rightarrow> match_unit \<Rightarrow> bool" where
  "unit_within n n' u \<longleftrightarrow> pivotUnit u = localUnit u \<and> (localUnit u = - 1 \<or> 0 \<le> localUnit u \<and> localUnit u < int n) \<and>
     (remoteUnit u = - 1 \<or> 0 \<le> remoteUnit u \<and> remoteUnit u < int n')"

lemma expand_cell_ok:
  assumes "table_ok t wd ht" "row = - 1 \<or> 0 \<le> row \<and> row < int ht" "col = - 1 \<or> 0 \<le> col \<and> col < int wd"
  shows "null_ok (expand_cell t row col) \<or> expand_cell t row col = blankCell"
proof (cases "row \<ge> 0 \<and> col \<ge> 0")
  case True
  then have "nat col < wd" "nat row < ht" using assms(2,3) by auto
  then have "null_ok (table_cell t (nat col) (nat row))" using assms(1) by (simp add: table_ok_def)
  then show ?thesis using True by (simp add: expand_cell_def table_cell_def)
qed (auto simp: expand_cell_def)

lemma merge_unit:
  assumes "two_way s wd ht wd' ht'" "unit_within ht ht' row" "unit_within wd wd' u"
  shows "\<exists>x nov. merge_cell (mflags s) (expandLocal (row_cell_of s row u)) (expandRemote (row_cell_of s row u)) (expandPivot (row_cell_of s row u)) = Some (x, nov, False)"
    and "cell_news (mflags s) (row_cell_of s row u) =
      pair_news (expand_cell (local_sheet s) (localUnit row) (localUnit u)) (expand_cell (remote_sheet s) (remoteUnit row) (remoteUnit u))"
proof -
  let ?l = "expand_cell (local_sheet s) (localUnit row) (localUnit u)" and ?r = "expand_cell (remote_sheet s) (remoteUnit row) (remoteUnit u)"
  have f: "\<not> ignore_case (mflags s)" using assms(1) by (simp add: two_way_def two_way_flags_def)
  have "null_ok ?l \<or> ?l = blankCell"
    by (rule expand_cell_ok [of _ wd ht]) (use assms in \<open>simp_all add: two_way_def unit_within_def\<close>)
  moreover have r: "null_ok ?r \<or> ?r = blankCell"
    by (rule expand_cell_ok [of _ wd' ht']) (use assms in \<open>simp_all add: two_way_def unit_within_def\<close>)
  moreover have c: "expandLocal (row_cell_of s row u) = ?l" "expandRemote (row_cell_of s row u) = ?r" "expandPivot (row_cell_of s row u) = ?l"
    using assms by (simp_all add: row_cell_of_def two_way_def unit_within_def)
  ultimately consider "null_ok ?l" | "?l = blankCell" by blast
  then have "merge_cell (mflags s) ?l ?r ?l = Some (case pair_news ?l ?r of None \<Rightarrow> (?l, False, False) | Some x \<Rightarrow> (x, True, False))"
    using merge_cell_local [OF f _ r] merge_cell_blank [OF f r] null_ok_not_blank [of ?l] by cases (simp_all add: pair_news_def)
  then show "\<exists>x nov. merge_cell (mflags s) (expandLocal (row_cell_of s row u)) (expandRemote (row_cell_of s row u)) (expandPivot (row_cell_of s row u)) = Some (x, nov, False)"
    "cell_news (mflags s) (row_cell_of s row u) = pair_news ?l ?r"
    by (auto simp: c cell_news_def split: option.split)
qed

lemma map_of_news:
  assumes "distinct (map f xs)" "x \<in> set xs"
  shows "map_of (concat (map (\<lambda>x. case g x of None \<Rightarrow> [] | Some y \<Rightarrow> [(f x, y)]) xs)) (f x) = g x"
  using assms
proof (induction xs)
  case (Cons z xs)
  have "map_of (concat (map (\<lambda>x. case g x of None \<Rightarrow> [] | Some y \<Rightarrow> [(f x, y)]) xs)) (f z) = None"
    using Cons.prems(1) by (auto simp: map_of_eq_None_iff image_iff split: option.splits)
  then show ?case using Cons by (auto simp: image_iff map_add_def split: option.split)
qed simp

lemma merged_unit_fields [simp]:
  "pivotUnit (merged_remote_unit ord c) = b2a ord (int c)" "localUnit (merged_remote_unit ord c) = b2a ord (int c)"
  "remoteUnit (merged_remote_unit ord c) = int c" "\<not> deleted (merged_remote_unit ord c)"
  by (simp_all add: merged_remote_unit_def remote_unit_def MatchUnit_def Let_def)

lemma matched_b2a:
  assumes "matched_order n ord" "c < blen ord"
  shows "b2a ord (int c) = - 1 \<or> 0 \<le> b2a ord (int c) \<and> b2a ord (int c) < int n \<and> a2b ord (b2a ord (int c)) = int c"
proof -
  have "0 \<le> int c \<and> int c < int (blen ord)" using assms(2) by simp
  then show ?thesis using assms(1) unfolding matched_order_def by blast
qed

lemma matched_a2b:
  assumes "matched_order n ord" "l < n"
  shows "a2b ord (int l) = - 1 \<or> 0 \<le> a2b ord (int l) \<and> a2b ord (int l) < int (blen ord) \<and> b2a ord (a2b ord (int l)) = int l"
proof -
  have "0 \<le> int l \<and> int l < int n" using assms(2) by simp
  then show ?thesis using assms(1) unfolding matched_order_def by blast
qed

lemma merged_unit_within:
  assumes "matched_order n ord" "c < blen ord"
  shows "unit_within n (blen ord) (merged_remote_unit ord c)"
  using matched_b2a [OF assms] assms(2) by (auto simp: unit_within_def)

definition row_news :: "merger_state \<Rightarrow> nat \<Rightarrow> match_unit \<Rightarrow> cells" where
  "row_news s wd' row = concat (map (\<lambda>c. case pair_news (expand_cell (local_sheet s) (localUnit row) (b2a (ncol_remote s) (int c)))
       (expand_cell (remote_sheet s) (remoteUnit row) (int c)) of None \<Rightarrow> [] | Some x \<Rightarrow> [(remote_names s (int c), x)]) [0..<wd'])"

definition row_record :: "merger_state \<Rightarrow> nat \<Rightarrow> byte list list \<Rightarrow> match_unit \<Rightarrow> row_change \<Rightarrow> bool" where
  "row_record s wd' ns row c \<longleftrightarrow> rval c = row_news s wd' row \<and> rnames c = ns \<and> \<not> conflicted c \<and>
     pRow c = pivotUnit row \<and> lRow c = localUnit row \<and> rRow c = remoteUnit row"

definition column_units :: "merger_state \<Rightarrow> nat \<Rightarrow> nat \<Rightarrow> match_unit list \<Rightarrow> bool" where
  "column_units s wd wd' us \<longleftrightarrow> (\<exists>dropped. us = map (merged_remote_unit (ncol_remote s)) [0..<wd'] @ dropped \<and>
     mset dropped = mset (map (\<lambda>l. MatchUnit (int l) (int l) (- 1) True MATCH_UNIT_DELETE) (filter (\<lambda>l. a2b (ncol_remote s) (int l) = - 1) [0..<wd])))"

lemma dropped_units:
  assumes "mset dropped = mset (map (\<lambda>l. MatchUnit (int l) (int l) (- 1) True MATCH_UNIT_DELETE) (filter P [0..<n]))"
  shows "u \<in> set dropped \<Longrightarrow> deleted u \<and> localUnit u = pivotUnit u \<and> remoteUnit u = - 1 \<and> 0 \<le> pivotUnit u \<and> pivotUnit u < int n \<and> P (nat (pivotUnit u))"
    and "distinct (map pivotUnit dropped)" and "pivotUnit ` set dropped = int ` {l. l < n \<and> P l}"
proof -
  have set: "set dropped = (\<lambda>l. MatchUnit (int l) (int l) (- 1) True MATCH_UNIT_DELETE) ` {l. l < n \<and> P l}"
    using mset_eq_setD [OF assms] by auto
  show "u \<in> set dropped \<Longrightarrow> deleted u \<and> localUnit u = pivotUnit u \<and> remoteUnit u = - 1 \<and> 0 \<le> pivotUnit u \<and> pivotUnit u < int n \<and> P (nat (pivotUnit u))"
    by (auto simp: set MatchUnit_def)
  show "pivotUnit ` set dropped = int ` {l. l < n \<and> P l}" by (simp add: set image_image MatchUnit_def)
  have "mset (map pivotUnit dropped) = mset (map int (filter P [0..<n]))"
    using arg_cong [OF assms, of "image_mset pivotUnit"] by (simp add: image_mset.compositionality comp_def MatchUnit_def)
  then show "distinct (map pivotUnit dropped)" using mset_eq_imp_distinct_iff by (fastforce simp: distinct_map)
qed

lemma mergeRow_news:
  assumes tw: "two_way s wd ht wd' ht'" and row: "unit_within ht ht' row" and cols: "column_units s wd wd' (col_units m)"
    and m: "names m = map (\<lambda>c. remote_names s (int c)) [0..<wd']" "filtered_names m = []"
  shows "\<exists>c. mergeRow s row m = Some (emit_row s row c m) \<and> row_record s wd' (names m) row c"
proof -
  let ?unit = "merged_remote_unit (ncol_remote s)" and ?ns = "names m"
  let ?d0 = "\<lparr>novel_value = [], conflicted_value = [], conflicted_parent_value = [], conflict = False, rpos = 0, rcalls = []\<rparr>"
  obtain dropped where us: "col_units m = map ?unit [0..<wd'] @ dropped" and
    dropped: "mset dropped = mset (map (\<lambda>l. MatchUnit (int l) (int l) (- 1) True MATCH_UNIT_DELETE) (filter (\<lambda>l. a2b (ncol_remote s) (int l) = - 1) [0..<wd]))"
    using cols by (auto simp: column_units_def)
  have co: "matched_order wd (ncol_remote s)" "blen (ncol_remote s) = wd'" using tw by (simp_all add: two_way_def columns_ok_def)
  have within: "unit_within wd wd' u" if u: "u \<in> set (col_units m)" for u
  proof (cases "u \<in> set dropped")
    case True
    then show ?thesis using dropped_units(1) [OF dropped True] by (simp add: unit_within_def)
  next
    case False
    then obtain c where "u = ?unit c" "c < wd'" using u by (auto simp: us)
    then show ?thesis using merged_unit_within [OF co(1), of c] co(2) by simp
  qed
  obtain cd where cells: "expand_row s ?ns row 0 ([], []) (col_units m) = (map (row_cell_of s row) (col_units m), cd)"
    using expand_row_cells [of s ?ns row 0 "([], [])" "col_units m"] tw by (cases "expand_row s ?ns row 0 ([], []) (col_units m)") (simp add: two_way_def)
  have kept: "filter (\<lambda>c. \<not> expandDel c) (map (row_cell_of s row) (col_units m)) = map (\<lambda>c. row_cell_of s row (?unit c)) [0..<wd']"
  proof -
    have "filter (\<lambda>u. \<not> deleted u) dropped = []" using dropped_units(1) [OF dropped] by (auto simp: filter_empty_conv)
    then show ?thesis by (simp add: us filter_map comp_def row_cell_of_def)
  qed
  have news: "named_news (mflags s) (zip ?ns (map (\<lambda>c. row_cell_of s row (?unit c)) [0..<wd'])) = row_news s wd' row"
  proof -
    have "zip ?ns (map (\<lambda>c. row_cell_of s row (?unit c)) [0..<wd']) = map (\<lambda>c. (remote_names s (int c), row_cell_of s row (?unit c))) [0..<wd']"
      by (simp add: m(1) zip_map_map zip_same_conv_map)
    moreover have "cell_news (mflags s) (row_cell_of s row (?unit c)) = pair_news (expand_cell (local_sheet s) (localUnit row) (b2a (ncol_remote s) (int c)))
       (expand_cell (remote_sheet s) (remoteUnit row) (int c))" if "c < wd'" for c
      using merge_unit(2) [OF tw row within, of "?unit c"] that by (simp add: us)
    ultimately show ?thesis by (auto simp: named_news_def row_news_def comp_def intro!: arg_cong [of _ _ concat] map_cong)
  qed
  have "merge_cells s ?ns [] (map (row_cell_of s row) (col_units m)) ?d0 = Some (?d0\<lparr>novel_value := row_news s wd' row, rpos := wd'\<rparr>)"
  proof -
    have "\<exists>x nov. merge_cell (mflags s) (expandLocal c) (expandRemote c) (expandPivot c) = Some (x, nov, False)"
      if "c \<in> set (map (row_cell_of s row) (col_units m))" for c
      using that merge_unit(1) [OF tw row within] by auto
    moreover have "distinct ?ns" using tw by (simp add: m(1) two_way_def columns_ok_def)
    ultimately show ?thesis using merge_cells_news [of s ?ns "map (row_cell_of s row) (col_units m)" ?d0] tw kept news m(1)
      by (simp add: two_way_def two_way_flags_def)
  qed
  then show ?thesis using cells tw m(2)
    by (simp add: mergeRow_def Let_def row_record_def new_RowChange_def two_way_def) (rule exI, rule conjI [OF refl], simp)
qed

section \<open>All rows\<close>

definition unit_changes :: "merger_state \<Rightarrow> nat \<Rightarrow> byte list list \<Rightarrow> match_unit \<Rightarrow> row_change list \<Rightarrow> bool" where
  "unit_changes s wd' ns u cs \<longleftrightarrow> (\<exists>c. row_record s wd' ns u c \<and> own_changes u c cs)"

lemma diff_rows_changes:
  assumes tw: "two_way s wd ht wd' ht'" and "\<forall>u \<in> set us. unit_within ht ht' u \<and> row_unit_ok u" "column_units s wd wd' (col_units m)"
    "names m = map (\<lambda>c. remote_names s (int c)) [0..<wd']" "filtered_names m = []" "\<not> allGone m"
  shows "\<exists>ch m' owns. diff_rows s us rc m = Some (rc @ ch, m') \<and> calls m' = calls m \<and> no_context ch = concat owns \<and>
    list_all2 (unit_changes s wd' (names m)) us owns"
  using assms(2-)
proof (induction us arbitrary: rc m)
  case (Cons u us)
  obtain c where c: "mergeRow s u m = Some (emit_row s u c m)" "row_record s wd' (names m) u c"
    using mergeRow_news [OF tw _ Cons.prems(2-4)] Cons.prems(1) by auto
  obtain ch1 m1 where e: "emit_row s u c m = (ch1, m1)" by (cases "emit_row s u c m")
  have own: "own_changes u c (no_context ch1)" and same: "same_columns m m1"
    using emit_row_changes [of s u c m] Cons.prems(1) tw e by (simp_all add: two_way_def two_way_flags_def)
  obtain ch m' owns where IH: "diff_rows s us (rc @ ch1) m1 = Some ((rc @ ch1) @ ch, m')" "calls m' = calls m1" "no_context ch = concat owns"
      "list_all2 (unit_changes s wd' (names m1)) us owns"
    using Cons.IH [of m1 "rc @ ch1"] Cons.prems same by (auto simp: same_columns_def)
  have "diff_rows s (u # us) rc m = Some (rc @ ch1 @ ch, m')"
    using IH(1) c(1) e tw Cons.prems(5) by (simp add: gone_unit_def two_way_def Let_def)
  moreover have "list_all2 (unit_changes s wd' (names m)) (u # us) (no_context ch1 # owns)"
    using IH(4) own c(2) same by (auto simp: unit_changes_def same_columns_def)
  moreover have "calls m' = calls m" "no_context (ch1 @ ch) = concat (no_context ch1 # owns)" using IH(2,3) same by (simp_all add: same_columns_def)
  ultimately show ?case by blast
qed (auto intro: exI [of _ "[]"])

text \<open>Reading the changes: the rows inserted and deleted, and the news of one row.\<close>

definition changes_of :: "row_mode list \<Rightarrow> row_change list \<Rightarrow> row_change list" where
  "changes_of modes rc = filter (\<lambda>c. rmode c \<in> set modes) rc"

definition news_of :: "row_change list \<Rightarrow> int \<Rightarrow> byte list \<Rightarrow> sheet_cell option" where
  "news_of rc l name = (case filter (\<lambda>c. lRow c = l) (changes_of [ROW_CHANGE_UPDATE, ROW_CHANGE_MOVE] rc) of [c] \<Rightarrow> map_of (rval c) name | _ \<Rightarrow> None)"

lemma changes_of_no_context: "ROW_CHANGE_CONTEXT \<notin> set modes \<Longrightarrow> changes_of modes (no_context rc) = changes_of modes rc"
  by (auto simp: changes_of_def intro!: filter_cong)

lemma changes_of_append [simp]: "changes_of modes (xs @ ys) = changes_of modes xs @ changes_of modes ys"
  by (simp add: changes_of_def)

lemma changes_of_Nil [simp]: "changes_of modes [] = []"
  by (simp add: changes_of_def)

lemma own_inserts:
  assumes "unit_changes s wd' ns u own" "row_unit_ok u"
  shows "map rRow (changes_of [ROW_CHANGE_INSERT] own) = (if localUnit u = - 1 then [remoteUnit u] else [])"
    and "map lRow (changes_of [ROW_CHANGE_DELETE] own) = (if deleted u then [localUnit u] else [])"
    and "c \<in> set own \<Longrightarrow> lRow c = localUnit u \<and> rRow c = remoteUnit u \<and> rval c = row_news s wd' u"
  using assms by (auto simp: unit_changes_def own_changes_def row_record_def changes_of_def row_unit_ok_def split: if_splits)

lemma all_inserts:
  assumes "list_all2 (unit_changes s wd' ns) us owns" "\<forall>u \<in> set us. row_unit_ok u"
  shows "map rRow (changes_of [ROW_CHANGE_INSERT] (concat owns)) = map remoteUnit (filter (\<lambda>u. localUnit u = - 1) us)"
    and "map lRow (changes_of [ROW_CHANGE_DELETE] (concat owns)) = map localUnit (filter deleted us)"
  using assms by (induction rule: list_all2_induct) (simp_all add: own_inserts)

lemma news_other:
  assumes "list_all2 (unit_changes s wd' ns) us owns" "\<forall>u \<in> set us. row_unit_ok u" "\<forall>u \<in> set us. localUnit u \<noteq> l"
  shows "filter (\<lambda>c. lRow c = l) (changes_of modes (concat owns)) = []"
  using assms
proof (induction rule: list_all2_induct)
  case (Cons u us own owns)
  have "filter (\<lambda>c. lRow c = l) (changes_of modes own) = []"
    using own_inserts(3) [OF Cons(1)] Cons.prems by (auto simp: filter_empty_conv changes_of_def)
  then show ?case using Cons by simp
qed simp

text \<open>The news of a row that both tables have.\<close>

lemma news_of_unit:
  assumes all: "list_all2 (unit_changes s wd' ns) us owns" and ok: "\<forall>u \<in> set us. row_unit_ok u" and us: "us = us1 @ u # us2"
    and u: "localUnit u \<noteq> - 1" "\<not> deleted u" and uniq: "\<forall>v \<in> set us1 \<union> set us2. localUnit v \<noteq> localUnit u"
  shows "news_of (concat owns) (localUnit u) name = map_of (row_news s wd' u) name"
proof -
  obtain owns1 own owns2 where owns: "owns = owns1 @ own # owns2" "list_all2 (unit_changes s wd' ns) us1 owns1"
      "unit_changes s wd' ns u own" "list_all2 (unit_changes s wd' ns) us2 owns2"
    using all us by (auto simp: list_all2_append1 list_all2_Cons1)
  have others: "filter (\<lambda>c. lRow c = localUnit u) (changes_of modes (concat owns1)) = []" "filter (\<lambda>c. lRow c = localUnit u) (changes_of modes (concat owns2)) = []" for modes
    using news_other [OF owns(2), of "localUnit u" modes] news_other [OF owns(4), of "localUnit u" modes] ok us uniq by auto
  obtain c where c: "row_record s wd' ns u c" "own_changes u c own" using owns(3) by (auto simp: unit_changes_def)
  consider "own = []" "rval c = []" | md where "own = [c\<lparr>rmode := md\<rparr>]" "md = ROW_CHANGE_UPDATE \<or> md = ROW_CHANGE_MOVE"
    using c(2) u by (auto simp: own_changes_def)
  then show ?thesis
  proof cases
    case 1
    then show ?thesis using c(1) others by (simp add: news_of_def owns(1) row_record_def)
  next
    case 2
    then have "filter (\<lambda>c. lRow c = localUnit u) (changes_of [ROW_CHANGE_UPDATE, ROW_CHANGE_MOVE] own) = own" using c(1) by (auto simp: changes_of_def row_record_def)
    moreover have "changes_of modes (concat owns) = changes_of modes (concat owns1) @ changes_of modes own @ changes_of modes (concat owns2)" for modes
      by (simp add: owns(1))
    ultimately have "filter (\<lambda>c. lRow c = localUnit u) (changes_of [ROW_CHANGE_UPDATE, ROW_CHANGE_MOVE] (concat owns)) = own"
      by (simp only: filter_append others append_Nil append_Nil2)
    then show ?thesis using 2(1) c(1) by (simp add: news_of_def row_record_def)
  qed
qed

section \<open>The columns\<close>

lemma erase_first_map: "x \<in> set v \<Longrightarrow> vec_erase (map f v) (int (std_find v x)) = Some (map f (remove1 x v))"
  using erase_first [of x v] by (auto simp: vec_erase_def take_map drop_map simp flip: map_append split: if_splits)

lemma delete_columns_append: "delete_columns ix (us @ vs) c = Option.bind (delete_columns ix us c) (delete_columns ix vs)"
  by (induction us arbitrary: c) (simp_all add: bind_assoc cong: Option.bind_cong)

lemma delete_columns_kept: "\<forall>u \<in> set us. \<not> deleted u \<Longrightarrow> delete_columns ix us c = Some c"
  by (induction us) (simp_all add: delete_column_def Let_def)

lemma delete_columns_dropped:
  assumes "local_col_names c = map lname (local_cols c)" "distinct (local_cols c)" "distinct (map pivotUnit ds)"
    "\<forall>u \<in> set ds. deleted u \<and> pivotUnit u \<noteq> - 1 \<and> pivotUnit u \<in> set (local_cols c)" "x \<in> set (local_cols c)" "x \<notin> pivotUnit ` set ds" "\<not> cols_gone c"
  shows "\<exists>c'. delete_columns ix ds c = Some c' \<and> local_cols c' = filter (\<lambda>l. l \<notin> pivotUnit ` set ds) (local_cols c) \<and>
    local_col_names c' = map lname (local_cols c') \<and> \<not> cols_gone c'"
  using assms
proof (induction ds arbitrary: c)
  case (Cons u ds)
  let ?l = "pivotUnit u" and ?v = "local_cols c"
  have l: "deleted u" "?l \<noteq> - 1" "?l \<in> set ?v" using Cons.prems(4) by simp_all
  then have k: "std_find ?v ?l < length ?v" by (simp add: std_find_less)
  have rest: "remove1 ?l ?v = filter (\<lambda>y. y \<noteq> ?l) ?v" using Cons.prems(2) by (simp add: distinct_remove1_removeAll removeAll_filter_not_eq) metis
  have ne: "remove1 ?l ?v \<noteq> []" using Cons.prems(5,6) by (auto simp: rest filter_empty_conv)
  obtain c1 where c1: "delete_column ix u c = Some c1" "local_cols c1 = filter (\<lambda>y. y \<noteq> ?l) ?v" "local_col_names c1 = map lname (local_cols c1)" "\<not> cols_gone c1"
    using l k ne Cons.prems(1,7) erase_first [OF l(3)] erase_first_map [OF l(3), of lname]
    by (simp add: delete_column_def Let_def vec_at_def rest)
  have "\<exists>c'. delete_columns ix ds c1 = Some c' \<and> local_cols c' = filter (\<lambda>l. l \<notin> pivotUnit ` set ds) (local_cols c1) \<and>
      local_col_names c' = map lname (local_cols c') \<and> \<not> cols_gone c'"
  proof (rule Cons.IH)
    show "\<forall>v \<in> set ds. deleted v \<and> pivotUnit v \<noteq> - 1 \<and> pivotUnit v \<in> set (local_cols c1)"
    proof
      fix v assume v: "v \<in> set ds"
      then have "pivotUnit v \<noteq> ?l" using Cons.prems(3) by (auto simp: image_iff)
      then show "deleted v \<and> pivotUnit v \<noteq> - 1 \<and> pivotUnit v \<in> set (local_cols c1)" using Cons.prems(4) v c1(2) by simp
    qed
  qed (use Cons.prems c1 in simp_all)
  then show ?case using c1(1,2) by (auto simp: conj_commute intro: filter_cong)
qed simp

lemma move_columns_same: "\<exists>m'. move_columns v v [] m = Some (True, [], m')"
  by (simp add: move_columns_def move.simps [of v v])

lemma insert_name_fresh:
  assumes "name \<notin> set ns" "name = [] \<or> \<not> (0x30 \<le> hd name \<and> hd name \<le> 0x39)"
  shows "insert_name ns name = name"
proof -
  have "(case name of c # _ \<Rightarrow> if 0x30 \<le> c \<and> c \<le> 0x39 then chars_of ''{'' @ name @ chars_of ''}'' else name | [] \<Rightarrow> name) = name"
    using assms(2) by (cases name) auto
  then show ?thesis using assms(1) by (simp add: insert_name_def free_name.simps [of ns name])
qed

lemma insert_columns_deleted: "\<forall>u \<in> set us. deleted u \<Longrightarrow> insert_columns rname k us c = Some c"
  by (induction us) simp_all

lemma insert_columns_new:
  assumes dist: "distinct (map (\<lambda>c. rname (int c)) [0..<wd'])"
    and new: "\<forall>c < wd'. b2a ord (int c) = - 1 \<longrightarrow> rname (int c) = [] \<or> \<not> (0x30 \<le> hd (rname (int c)) \<and> hd (rname (int c)) \<le> 0x39)"
    and dropped: "\<forall>u \<in> set dropped. deleted u"
    and i: "i \<le> wd'" "local_col_names c = map (\<lambda>c. rname (int c)) ([0..<i] @ filter (\<lambda>c. b2a ord (int c) \<noteq> - 1) [i..<wd'])"
      "length (local_cols c) = length (local_col_names c)"
  shows "\<exists>c'. insert_columns rname i (map (merged_remote_unit ord) [i..<wd'] @ dropped) c = Some c' \<and>
    local_col_names c' = map (\<lambda>c. rname (int c)) [0..<wd'] \<and> cols_gone c' = cols_gone c"
  using i
proof (induction "wd' - i" arbitrary: i c)
  case 0
  then show ?case using insert_columns_deleted [OF dropped] by simp
next
  case (Suc n)
  let ?m = "\<lambda>c. b2a ord (int c) \<noteq> - 1" and ?r = "\<lambda>c. rname (int c)"
  have lt: "i < wd'" using Suc.hyps(2) by simp
  then have upt: "[i..<wd'] = i # [Suc i..<wd']" by (simp add: upt_conv_Cons)
  show ?case
  proof (cases "?m i")
    case True
    have "\<exists>c'. insert_columns rname (Suc i) (map (merged_remote_unit ord) [Suc i..<wd'] @ dropped) c = Some c' \<and>
        local_col_names c' = map ?r [0..<wd'] \<and> cols_gone c' = cols_gone c"
      by (rule Suc.hyps(1)) (use Suc.hyps(2) Suc.prems lt True upt in simp_all)
    then show ?thesis using True by (simp add: upt)
  next
    case False
    let ?ks = "filter ?m [Suc i..<wd']"
    have names: "local_col_names c = map ?r ([0..<i] @ ?ks)" using Suc.prems(2) False by (simp add: upt)
    have "?r i \<notin> set (local_col_names c)"
    proof
      assume "?r i \<in> set (local_col_names c)"
      then obtain j where "j \<in> set ([0..<i] @ ?ks)" "?r i = ?r j" unfolding names by (simp only: set_map image_iff) blast
      then have j: "j < wd'" "j \<noteq> i" "?r j = ?r i" using lt by auto
      then show False using dist lt by (auto simp: distinct_map inj_on_def)
    qed
    then have name: "insert_name (local_col_names c) (?r i) = ?r i" using insert_name_fresh new lt False by blast
    have ns: "vec_insert (local_col_names c) (int i) (?r i) = Some (map ?r ([0..<Suc i] @ ?ks))"
      by (simp add: vec_insert_def names)
    obtain cs where cs: "vec_insert (local_cols c) (int i) (- int i - 1) = Some cs" "length cs = Suc (length (local_cols c))"
      using Suc.prems(3) names by (simp add: vec_insert_def)
    define c1 where "c1 = c\<lparr>local_cols := cs, local_col_names := map ?r ([0..<Suc i] @ ?ks), cc := cc c @ [new_OrderChange\<lparr>indicesBefore := local_cols c,
      namesBefore := local_col_names c, indicesAfter := cs, namesAfter := map ?r ([0..<Suc i] @ ?ks), subject := - int i - 1, omode := ORDER_CHANGE_INSERT\<rparr>]\<rparr>"
    have "\<exists>c'. insert_columns rname (Suc i) (map (merged_remote_unit ord) [Suc i..<wd'] @ dropped) c1 = Some c' \<and>
        local_col_names c' = map ?r [0..<wd'] \<and> cols_gone c' = cols_gone c1"
      by (rule Suc.hyps(1)) (use Suc.hyps(2) Suc.prems lt cs(2) names in \<open>simp_all add: c1_def\<close>)
    then show ?thesis using False name ns cs(1) by (simp add: upt c1_def)
  qed
qed

lemma rename_columns_same:
  "\<forall>u \<in> set us. deleted u \<or> pivotUnit u = - 1 \<or> lname (pivotUnit u) = rname (remoteUnit u) \<Longrightarrow> rename_columns lname rname us c = Some c"
  by (induction us) (auto simp: rename_column_def Let_def)

lemma name_indexes_ok: "length ns \<le> length fs \<Longrightarrow> \<exists>r. name_indexes flags fs ns acc = Some r"
  by (induction flags fs ns acc rule: name_indexes.induct) (simp_all add: Let_def)

text \<open>The columns both tables have, in their order.\<close>

lemma kept_columns:
  assumes "columns_ok s wd wd'"
  shows "filter (\<lambda>l. l \<notin> int ` {l. l < wd \<and> a2b (ncol_remote s) (int l) = - 1}) (map int [0..<wd]) =
    map (\<lambda>c. b2a (ncol_remote s) (int c)) (filter (\<lambda>c. b2a (ncol_remote s) (int c) \<noteq> - 1) [0..<wd'])"
proof -
  let ?b = "\<lambda>c. b2a (ncol_remote s) (int c)" and ?a = "\<lambda>l. a2b (ncol_remote s) (int l)"
  let ?xs = "filter (\<lambda>l. l \<notin> int ` {l. l < wd \<and> ?a l = - 1}) (map int [0..<wd])" and ?ys = "map ?b (filter (\<lambda>c. ?b c \<noteq> - 1) [0..<wd'])"
  have ord: "matched_order wd (ncol_remote s)" "blen (ncol_remote s) = wd'" using assms by (simp_all add: columns_ok_def)
  have b: "0 \<le> ?b c \<and> ?b c < int wd \<and> a2b (ncol_remote s) (?b c) = int c" if "c < wd'" "?b c \<noteq> - 1" for c
    using matched_b2a [OF ord(1), of c] that ord(2) by auto
  have a: "0 \<le> ?a l \<and> ?a l < int wd' \<and> b2a (ncol_remote s) (?a l) = int l" if "l < wd" "?a l \<noteq> - 1" for l
    using matched_a2b [OF ord(1), of l] that ord(2) by auto
  have ys: "sorted ?ys" using assms by (simp add: columns_ok_def filter_map comp_def)
  have "inj_on ?b {c. c < wd' \<and> ?b c \<noteq> - 1}"
  proof (rule inj_onI)
    fix x y assume xy: "x \<in> {c. c < wd' \<and> ?b c \<noteq> - 1}" "y \<in> {c. c < wd' \<and> ?b c \<noteq> - 1}" "?b x = ?b y"
    have "a2b (ncol_remote s) (?b x) = int x" "a2b (ncol_remote s) (?b y) = int y" using b xy(1,2) by simp_all
    then show "x = y" unfolding xy(3) by simp
  qed
  then have ys2: "distinct ?ys" by (simp add: distinct_map inj_on_def)
  have xs: "sorted ?xs" "distinct ?xs" by (simp_all add: sorted_wrt_filter sorted_map distinct_map)
  have same: "set ?xs = set ?ys"
  proof (intro equalityI subsetI)
    fix x assume "x \<in> set ?xs"
    then obtain l where l: "x = int l" "l < wd" and "int l \<notin> int ` {l. l < wd \<and> ?a l = - 1}" by auto
    then have l3: "?a l \<noteq> - 1" by blast
    then obtain c where "x = ?b c" "c < wd'" "?b c \<noteq> - 1" using a [of l] l by (intro that [of "nat (?a l)"]) auto
    then show "x \<in> set ?ys" by auto
  next
    fix x assume "x \<in> set ?ys"
    then obtain c where c: "x = ?b c" "c < wd'" "?b c \<noteq> - 1" by auto
    then obtain l where "x = int l" "l < wd" "?a l \<noteq> - 1" using b [of c] by (intro that [of "nat x"]) auto
    then show "x \<in> set ?xs" by auto
  qed
  show ?thesis by (rule sorted_distinct_set_unique [OF xs ys ys2 same])
qed

lemma change_columns_two_way:
  assumes tw: "two_way s wd ht wd' ht'" and us: "column_units s wd wd' us"
  shows "\<exists>c. change_columns s ix us = Some c \<and> local_col_names c = map (\<lambda>c. remote_names s (int c)) [0..<wd'] \<and> \<not> cols_gone c"
proof -
  let ?b = "\<lambda>c. b2a (ncol_remote s) (int c)" and ?unit = "merged_remote_unit (ncol_remote s)"
  let ?ks = "filter (\<lambda>c. ?b c \<noteq> - 1) [0..<wd']" and ?gone = "\<lambda>l. a2b (ncol_remote s) (int l) = - 1"
  let ?c0 = "\<lparr>local_cols = map int [0..<wd], local_col_names = original_names s, cc = [], constantIndex = True, cols_gone = False\<rparr>"
  have co: "columns_ok s wd wd'" and wd: "sheet_width (local_sheet s) = int wd" using tw by (simp_all add: two_way_def table_ok_def)
  obtain dropped where split: "us = map ?unit [0..<wd'] @ dropped" and
    dropped: "mset dropped = mset (map (\<lambda>l. MatchUnit (int l) (int l) (- 1) True MATCH_UNIT_DELETE) (filter ?gone [0..<wd]))"
    using us by (auto simp: column_units_def)
  note dr = dropped_units [OF dropped]
  obtain x where x: "x < wd'" "?b x \<noteq> - 1" using co by (auto simp: columns_ok_def)
  have kept: "filter (\<lambda>l. l \<notin> pivotUnit ` set dropped) (map int [0..<wd]) = map ?b ?ks" unfolding dr(3) by (rule kept_columns [OF co])
  have x_in: "?b x \<in> set (map int [0..<wd])" "?b x \<notin> pivotUnit ` set dropped"
  proof -
    have "?b x \<in> set (map ?b ?ks)" using x by auto
    then show "?b x \<in> set (map int [0..<wd])" "?b x \<notin> pivotUnit ` set dropped" unfolding kept [symmetric] by (simp_all only: set_filter mem_Collect_eq not_False_eq_True)
  qed
  have "\<exists>c. delete_columns ix dropped ?c0 = Some c \<and> local_cols c = filter (\<lambda>l. l \<notin> pivotUnit ` set dropped) (local_cols ?c0) \<and>
      local_col_names c = map (local_names s) (local_cols c) \<and> \<not> cols_gone c"
  proof (rule delete_columns_dropped)
    show "\<forall>u \<in> set dropped. deleted u \<and> pivotUnit u \<noteq> - 1 \<and> pivotUnit u \<in> set (local_cols ?c0)"
    proof
      fix u assume u: "u \<in> set dropped"
      then have "pivotUnit u \<in> int ` {l. l < wd \<and> ?gone l}" unfolding dr(3) [symmetric] by blast
      then show "deleted u \<and> pivotUnit u \<noteq> - 1 \<and> pivotUnit u \<in> set (local_cols ?c0)" using dr(1) [OF u] by auto
    qed
    show "?b x \<in> set (local_cols ?c0)" "?b x \<notin> pivotUnit ` set dropped" using x_in by simp_all
  qed (use dr(2) in \<open>simp_all add: original_names_def wd comp_def distinct_map\<close>)
  then obtain c1 where c1: "delete_columns ix us ?c0 = Some c1" "local_cols c1 = map ?b ?ks" "local_col_names c1 = map (local_names s) (map ?b ?ks)" "\<not> cols_gone c1"
    using kept delete_columns_kept [of "map ?unit [0..<wd']" ix ?c0] by (auto simp: split delete_columns_append)
  have "map localUnit (filter (\<lambda>u. localUnit u \<noteq> - 1 \<and> \<not> deleted u) us) = map ?b ?ks"
  proof -
    have "filter (\<lambda>u. localUnit u \<noteq> - 1 \<and> \<not> deleted u) dropped = []" using dr(1) by (auto simp: filter_empty_conv)
    then show ?thesis by (simp add: split filter_map comp_def)
  qed
  then have shuffled: "shuffle_columns us c1 = Some c1"
    using move_columns_same [of "map ?b ?ks" "\<lparr>solutions = 0, global_solved = False, global_best_order = []\<rparr>"] c1(2)
    by (auto simp: shuffle_columns_def Let_def)
  have names: "local_names s (?b c) = remote_names s (int c)" if "c < wd'" "?b c \<noteq> - 1" for c
    using co that by (auto simp: columns_ok_def Let_def)
  have "\<exists>c'. insert_columns (remote_names s) 0 (map ?unit [0..<wd'] @ dropped) c1 = Some c' \<and>
      local_col_names c' = map (\<lambda>c. remote_names s (int c)) [0..<wd'] \<and> cols_gone c' = cols_gone c1"
  proof (rule insert_columns_new)
    show "distinct (map (\<lambda>c. remote_names s (int c)) [0..<wd'])" using co by (simp add: columns_ok_def)
    show "\<forall>c < wd'. ?b c = - 1 \<longrightarrow> remote_names s (int c) = [] \<or> \<not> (0x30 \<le> hd (remote_names s (int c)) \<and> hd (remote_names s (int c)) \<le> 0x39)"
      using co by (auto simp: columns_ok_def Let_def)
    show "local_col_names c1 = map (\<lambda>c. remote_names s (int c)) ([0..<0] @ ?ks)" using c1(3) names by simp
  qed (use dr(1) c1 in auto)
  then obtain c2 where c2: "insert_columns (remote_names s) 0 us c1 = Some c2" "local_col_names c2 = map (\<lambda>c. remote_names s (int c)) [0..<wd']" "\<not> cols_gone c2"
    using c1(4) split by auto
  have "rename_columns (local_names s) (remote_names s) us c2 = Some c2"
  proof (rule rename_columns_same, rule ballI)
    fix u assume "u \<in> set us"
    then consider c where "u = ?unit c" "c < wd'" | "u \<in> set dropped" by (auto simp: split)
    then show "deleted u \<or> pivotUnit u = - 1 \<or> local_names s (pivotUnit u) = remote_names s (remoteUnit u)"
    proof cases
      case 1
      then show ?thesis using names [of c] by (cases "?b c = - 1") simp_all
    qed (simp add: dr(1))
  qed
  then show ?thesis using c1(1) shuffled c2 by (simp add: change_columns_def wd)
qed

section \<open>The rows the changes describe\<close>

definition describes_rows :: "merger_state \<Rightarrow> nat \<Rightarrow> nat \<Rightarrow> nat \<Rightarrow> row_change list \<Rightarrow> bool" where
  "describes_rows s ht wd' ht' rc \<longleftrightarrow>
     mset (map rRow (changes_of [ROW_CHANGE_INSERT] rc)) = image_mset int (mset_set {r. r < ht' \<and> b2a (nrow_remote s) (int r) = - 1}) \<and>
     mset (map lRow (changes_of [ROW_CHANGE_DELETE] rc)) = image_mset int (mset_set {l. l < ht \<and> a2b (nrow_remote s) (int l) = - 1}) \<and>
     (\<forall>c \<in> set (changes_of [ROW_CHANGE_INSERT] rc). \<forall>k < wd'. let x = table_cell (remote_sheet s) k (nat (rRow c)) in
        map_of (rval c) (remote_names s (int k)) = (if escaped x then None else Some x)) \<and>
     (\<forall>r < ht'. \<forall>l < ht. b2a (nrow_remote s) (int r) = int l \<longrightarrow> (\<forall>k < wd'.
        let x = table_cell (remote_sheet s) k r; kl = b2a (ncol_remote s) (int k) in
        case news_of rc (int l) (remote_names s (int k)) of Some y \<Rightarrow> x = y
        | None \<Rightarrow> if kl \<noteq> - 1 then x = table_cell (local_sheet s) (nat kl) l else escaped x))"

text \<open>The rest of a change does not matter.\<close>

lemma changes_of_map: "(\<And>c. rmode (f c) = rmode c) \<Longrightarrow> changes_of modes (map f rc) = map f (changes_of modes rc)"
  by (simp add: changes_of_def filter_map comp_def)

lemma news_of_map:
  assumes "\<And>c. rmode (f c) = rmode c \<and> lRow (f c) = lRow c \<and> rval (f c) = rval c"
  shows "news_of (map f rc) l name = news_of rc l name"
  using assms by (auto simp: news_of_def changes_of_map filter_map comp_def split: list.split)

lemma describes_rows_map:
  assumes "\<And>c. rmode (f c) = rmode c \<and> lRow (f c) = lRow c \<and> rRow (f c) = rRow c \<and> rval (f c) = rval c"
  shows "describes_rows s ht wd' ht' (map f rc) = describes_rows s ht wd' ht' rc"
  using assms by (simp add: describes_rows_def changes_of_map news_of_map comp_def)

lemma describes_rows_cong:
  assumes "no_context rc = no_context rc'"
  shows "describes_rows s ht wd' ht' rc = describes_rows s ht wd' ht' rc'"
proof -
  have "changes_of modes rc = changes_of modes rc'" if "ROW_CHANGE_CONTEXT \<notin> set modes" for modes
    using changes_of_no_context [OF that] assms by metis
  then show ?thesis by (simp add: describes_rows_def news_of_def)
qed

lemma row_news_cell:
  assumes tw: "two_way s wd ht wd' ht'" and k: "k < wd'"
  shows "map_of (row_news s wd' u) (remote_names s (int k)) =
    pair_news (expand_cell (local_sheet s) (localUnit u) (b2a (ncol_remote s) (int k))) (expand_cell (remote_sheet s) (remoteUnit u) (int k))"
proof -
  have "distinct (map (\<lambda>c. remote_names s (int c)) [0..<wd'])" using tw by (simp add: two_way_def columns_ok_def)
  then show ?thesis unfolding row_news_def using k by (intro map_of_news) simp_all
qed

text \<open>The rows as \<open>merge\<close> collects them, in any order.\<close>

definition row_units :: "merger_state \<Rightarrow> nat \<Rightarrow> match_unit list \<Rightarrow> bool" where
  "row_units s ht us \<longleftrightarrow>
     mset us = mset (map (local_unit (same_order ht) (nrow_remote s)) [0..<ht]) + image_mset remote_unit (mset_set (remote_new (nrow_remote s)))"

lemma local_unit_same:
  assumes "l < n"
  shows "local_unit (same_order n) ord l = (if a2b ord (int l) \<noteq> - 1 then MatchUnit (int l) (int l) (a2b ord (int l)) False MATCH_UNIT_PRESERVE
    else MatchUnit (int l) (int l) (- 1) True MATCH_UNIT_DELETE)"
  using assms by (simp add: local_unit_def same_order_cell Let_def)

lemma row_units_ok:
  assumes tw: "two_way s wd ht wd' ht'" and us: "row_units s ht us"
  shows "\<forall>u \<in> set us. unit_within ht ht' u \<and> row_unit_ok u"
    and "mset (map remoteUnit (filter (\<lambda>u. localUnit u = - 1) us)) = image_mset int (mset_set {r. r < ht' \<and> b2a (nrow_remote s) (int r) = - 1})"
    and "mset (map localUnit (filter deleted us)) = image_mset int (mset_set {l. l < ht \<and> a2b (nrow_remote s) (int l) = - 1})"
    and "mset (map localUnit (filter (\<lambda>u. localUnit u \<noteq> - 1) us)) = mset (map int [0..<ht])"
    and "r < ht' \<Longrightarrow> merged_remote_unit (nrow_remote s) r \<in> set us"
proof -
  let ?ord = "nrow_remote s" and ?unit = "local_unit (same_order ht) (nrow_remote s)"
  have ro: "matched_order ht ?ord" "blen ?ord = ht'" using tw by (simp_all add: two_way_def rows_ok_def)
  have new: "remote_new ?ord = {r. r < ht' \<and> b2a ?ord (int r) = - 1}" by (auto simp: remote_new_def ro(2))
  have rem: "localUnit (remote_unit r) = - 1" "pivotUnit (remote_unit r) = - 1" "remoteUnit (remote_unit r) = int r" "\<not> deleted (remote_unit r)" for r
    by (simp_all add: remote_unit_def MatchUnit_def)
  have loc: "localUnit (?unit l) = int l" "pivotUnit (?unit l) = int l" "remoteUnit (?unit l) = a2b ?ord (int l)" "deleted (?unit l) \<longleftrightarrow> a2b ?ord (int l) = - 1" if "l < ht" for l
    by (simp_all add: local_unit_same [OF that] MatchUnit_def)
  have mset: "mset us = image_mset ?unit (mset_set {0..<ht}) + image_mset remote_unit (mset_set (remote_new ?ord))"
    using us by (simp add: row_units_def)
  have set: "set us = ?unit ` {0..<ht} \<union> remote_unit ` remote_new ?ord" using arg_cong [OF mset, of set_mset] by simp
  show "\<forall>u \<in> set us. unit_within ht ht' u \<and> row_unit_ok u"
  proof
    fix u assume "u \<in> set us"
    then consider l where "u = ?unit l" "l < ht" | r where "u = remote_unit r" "r < ht'" by (auto simp: set new)
    then show "unit_within ht ht' u \<and> row_unit_ok u"
    proof cases
      case 1
      then show ?thesis using matched_a2b [OF ro(1) 1(2)] loc ro(2) by (auto simp: unit_within_def row_unit_ok_def)
    next
      case 2
      then show ?thesis using rem by (simp add: unit_within_def row_unit_ok_def)
    qed
  qed
  have sel: "mset (map f (filter P us)) = image_mset f (image_mset ?unit (filter_mset (\<lambda>l. P (?unit l)) (mset_set {0..<ht})) +
      image_mset remote_unit (filter_mset (\<lambda>r. P (remote_unit r)) (mset_set (remote_new ?ord))))" for P and f :: "match_unit \<Rightarrow> int"
    by (simp add: mset filter_mset_image_mset)
  have l_sel: "filter_mset (\<lambda>l. P (?unit l)) (mset_set {0..<ht}) = mset_set {l. l < ht \<and> P (?unit l)}" for P
    by (simp add: filter_mset_mset_set Collect_conj_eq lessThan_def atLeast0LessThan)
  have none: "{l. l < ht \<and> localUnit (?unit l) = - 1} = {}" and all: "{l. l < ht \<and> localUnit (?unit l) \<noteq> - 1} = {0..<ht}" using loc(1) by auto
  show "mset (map remoteUnit (filter (\<lambda>u. localUnit u = - 1) us)) = image_mset int (mset_set {r. r < ht' \<and> b2a ?ord (int r) = - 1})"
    unfolding sel l_sel by (simp add: none rem new image_mset.compositionality comp_def)
  have ids: "image_mset localUnit (image_mset ?unit (mset_set {0..<ht})) = image_mset int (mset_set {0..<ht})"
    unfolding image_mset.compositionality using loc(1) by (intro image_mset_cong) simp
  show "mset (map localUnit (filter (\<lambda>u. localUnit u \<noteq> - 1) us)) = mset (map int [0..<ht])"
    unfolding sel l_sel by (simp add: all ids rem)
  have gone: "{l. l < ht \<and> deleted (?unit l)} = {l. l < ht \<and> a2b ?ord (int l) = - 1}" using loc(4) by auto
  have ids: "image_mset localUnit (image_mset ?unit (mset_set {l. l < ht \<and> a2b ?ord (int l) = - 1})) = image_mset int (mset_set {l. l < ht \<and> a2b ?ord (int l) = - 1})"
    unfolding image_mset.compositionality using loc(1) by (intro image_mset_cong) simp
  show "mset (map localUnit (filter deleted us)) = image_mset int (mset_set {l. l < ht \<and> a2b ?ord (int l) = - 1})"
    unfolding sel l_sel by (simp add: gone ids rem)
  show "r < ht' \<Longrightarrow> merged_remote_unit ?ord r \<in> set us"
  proof -
    assume r: "r < ht'"
    show ?thesis
    proof (cases "b2a ?ord (int r) = - 1")
      case True
      then show ?thesis using r by (auto simp: set new merged_remote_unit_def)
    next
      case False
      then obtain l where l: "l < ht" "b2a ?ord (int r) = int l" "a2b ?ord (int l) = int r"
        using matched_b2a [OF ro(1)] r ro(2) by (metis nat_0_le of_nat_less_iff)
      then have "merged_remote_unit ?ord r = ?unit l" by (simp add: merged_remote_unit_def local_unit_same Let_def)
      then show ?thesis using l(1) by (simp add: set)
    qed
  qed
qed

lemma pair_news_blank: "pair_news blankCell x = (if escaped x then None else Some x)"
  by (simp add: pair_news_def)

lemma pair_news_cells: "null_ok l \<Longrightarrow> null_ok r \<Longrightarrow> pair_news l r = (if l = r then None else Some r)"
  using null_ok_not_blank by (simp add: pair_news_def)

lemma changed_units:
  assumes "list_all2 (unit_changes s wd' ns) us owns" "c \<in> set (concat owns)"
  shows "\<exists>u own. u \<in> set us \<and> unit_changes s wd' ns u own \<and> c \<in> set own"
  using assms by (induction rule: list_all2_induct) auto

lemma unique_unit:
  assumes "distinct (map localUnit (filter (\<lambda>u. localUnit u \<noteq> - 1) us))" "u \<in> set us" "localUnit u \<noteq> - 1"
  shows "\<exists>us1 us2. us = us1 @ u # us2 \<and> (\<forall>v \<in> set us1 \<union> set us2. localUnit v \<noteq> localUnit u)"
proof -
  obtain us1 us2 where us: "us = us1 @ u # us2" using split_list [OF assms(2)] by blast
  then have "distinct (map localUnit (filter (\<lambda>u. localUnit u \<noteq> - 1) us1) @ localUnit u # map localUnit (filter (\<lambda>u. localUnit u \<noteq> - 1) us2))"
    using assms(1,3) by simp
  then have "\<forall>v \<in> set us1 \<union> set us2. localUnit v \<noteq> localUnit u" using assms(3) by (auto simp: image_iff)
  then show ?thesis using us by blast
qed

lemma owns_describe:
  assumes tw: "two_way s wd ht wd' ht'" and us: "row_units s ht us" and all: "list_all2 (unit_changes s wd' ns) us owns"
  shows "describes_rows s ht wd' ht' (concat owns)"
  unfolding describes_rows_def
proof (intro conjI ballI allI impI)
  note ok = row_units_ok [OF tw us]
  have units: "\<forall>u \<in> set us. row_unit_ok u" using ok(1) by blast
  have cells: "table_ok (local_sheet s) wd ht" "table_ok (remote_sheet s) wd' ht'" "matched_order wd (ncol_remote s)" "blen (ncol_remote s) = wd'"
    using tw by (simp_all add: two_way_def columns_ok_def)
  show "mset (map rRow (changes_of [ROW_CHANGE_INSERT] (concat owns))) = image_mset int (mset_set {r. r < ht' \<and> b2a (nrow_remote s) (int r) = - 1})"
    "mset (map lRow (changes_of [ROW_CHANGE_DELETE] (concat owns))) = image_mset int (mset_set {l. l < ht \<and> a2b (nrow_remote s) (int l) = - 1})"
    unfolding all_inserts [OF all units] using ok(2,3) by simp_all
  {
    fix c k assume c: "c \<in> set (changes_of [ROW_CHANGE_INSERT] (concat owns))" and k: "k < wd'"
    obtain u own where u: "u \<in> set us" "unit_changes s wd' ns u own" "c \<in> set own"
      using changed_units [OF all, of c] c by (auto simp: changes_of_def)
    note own = own_inserts(3) [OF u(2) _ u(3)]
    have l: "localUnit u = - 1" using u(2,3) c by (auto simp: unit_changes_def own_changes_def row_record_def changes_of_def split: if_splits)
    then have r: "0 \<le> remoteUnit u" using ok(1) u(1) by (auto simp: row_unit_ok_def unit_within_def)
    have "expand_cell (local_sheet s) (localUnit u) col = blankCell" for col by (simp add: expand_cell_def l)
    then show "let x = table_cell (remote_sheet s) k (nat (rRow c)) in map_of (rval c) (remote_names s (int k)) = (if escaped x then None else Some x)"
      using own units u(1) row_news_cell [OF tw k, of u] r by (simp add: pair_news_blank expand_cell_def table_cell_def Let_def)
  }
  fix r l k assume r: "r < ht'" and l: "l < ht" "b2a (nrow_remote s) (int r) = int l" and k: "k < wd'"
  let ?u = "merged_remote_unit (nrow_remote s) r" and ?kl = "b2a (ncol_remote s) (int k)"
  have "distinct (map localUnit (filter (\<lambda>u. localUnit u \<noteq> - 1) us))" using mset_eq_imp_distinct_iff [OF ok(4)] by (simp add: distinct_map)
  then obtain us1 us2 where "us = us1 @ ?u # us2" "\<forall>v \<in> set us1 \<union> set us2. localUnit v \<noteq> localUnit ?u"
    using unique_unit [of us ?u] ok(5) [OF r] l(2) by auto
  then have news: "news_of (concat owns) (int l) (remote_names s (int k)) = pair_news (expand_cell (local_sheet s) (int l) ?kl) (table_cell (remote_sheet s) k r)"
    using news_of_unit [OF all units, of us1 ?u us2] row_news_cell [OF tw k, of ?u] l(2) by (simp add: expand_cell_def table_cell_def)
  have x: "null_ok (table_cell (remote_sheet s) k r)" using cells(2) k r by (simp add: table_ok_def)
  show "let x = table_cell (remote_sheet s) k r; kl = ?kl in
      case news_of (concat owns) (int l) (remote_names s (int k)) of None \<Rightarrow> if kl \<noteq> - 1 then x = table_cell (local_sheet s) (nat kl) l else escaped x | Some y \<Rightarrow> x = y"
  proof (cases "?kl = - 1")
    case True
    then show ?thesis unfolding news by (simp add: expand_cell_def pair_news_blank Let_def)
  next
    case False
    then have kl: "0 \<le> ?kl" "nat ?kl < wd" using matched_b2a [OF cells(3), of k] k cells(4) by auto
    then have "null_ok (table_cell (local_sheet s) (nat ?kl) l)" using cells(1) l(1) by (simp add: table_ok_def)
    then show ?thesis unfolding news using kl False x by (simp add: expand_cell_def table_cell_def pair_news_cells Let_def)
  qed
qed

section \<open>Properties\<close>


definition demo_table :: "string list list \<Rightarrow> data_sheet" where
  "demo_table rows = \<lparr>cell_at = (\<lambda>x y. \<lparr>ctext = chars_of (rows ! nat y ! nat x), escaped = False\<rparr>),
     sheet_width = int (length (hd rows)), sheet_height = int (length rows)\<rparr>"

definition demo_flags :: merge_flags where
  "demo_flags = \<lparr>order_flags = \<lparr>head_trimmed = False, tail_trimmed = False, use_order = True\<rparr>, ignore_case = False, resolve = [], fixed_columns = False,
     assume_header = True, acts = [], include_columns = [], exclude_columns = []\<rparr>"

definition demo_state :: "data_sheet \<Rightarrow> data_sheet \<Rightarrow> data_sheet \<Rightarrow> order_result \<times> order_result \<Rightarrow> order_result \<times> order_result \<Rightarrow>
    string list \<Rightarrow> string list \<Rightarrow> merger_state" where
  "demo_state p l r ros cls lns rns = \<lparr>pivot_sheet = p, local_sheet = l, remote_sheet = r, nrow_local = fst ros, nrow_remote = snd ros,
     ncol_local = fst cls, ncol_remote = snd cls, mflags = demo_flags, local_names = (\<lambda>i. chars_of (lns ! nat i)),
     remote_names = (\<lambda>i. chars_of (rns ! nat i)), index_flags = map (\<lambda>_. 1) lns, wantDiff = True, wantLinks = False, allIdentical = False\<rparr>"

definition demo_compare :: merger_state where
  "demo_compare = (let l = demo_table [[''1'', ''2''], [''3'', ''4'']] in demo_state l l (demo_table [[''3'', ''x'', ''5''], [''6'', ''y'', ''7'']])
     (same_order 2, demo_order [- 1, 0] [1, - 1]) (same_order 2, demo_order [0, 2] [0, - 1, 1]) [''a'', ''b''] [''a'', ''n'', ''b''])"

lemma demo_compare_two_way: "two_way demo_compare 2 2 3 2"
proof -
  have cases2: "p = 0 \<or> p = 1" if "0 \<le> p" "p < 2" for p :: int using that by linarith
  have cases3: "p = 0 \<or> p = 1 \<or> p = 2" if "0 \<le> p" "p < 3" for p :: int using that by linarith
  have rows: "matched_order 2 (demo_order [- 1, 0] [1, - 1])"
    by (auto simp: matched_order_def a2b_def b2a_def order_cell_def demo_order_def blen_def nth_Cons' dest!: cases2)
  have "matched_order 2 (demo_order [0, 2] [0, - 1, 1])"
    by (auto simp: matched_order_def a2b_def b2a_def order_cell_def demo_order_def blen_def nth_Cons' dest!: cases2 cases3)
  moreover have tables: "table_ok (demo_table [[''1'', ''2''], [''3'', ''4'']]) 2 2" "table_ok (demo_table [[''3'', ''x'', ''5''], [''6'', ''y'', ''7'']]) 3 2"
    by (simp_all add: table_ok_def demo_table_def table_cell_def null_ok_def)
  moreover have "c = 0 \<or> c = 1 \<or> c = 2" if "c < 3" for c :: nat using that by linarith
  moreover have "map (\<lambda>c. b2a (demo_order [0, 2] [0, - 1, 1]) (int c)) [0..<3] = [0, - 1, 1]"
    by (simp add: b2a_def order_cell_def demo_order_def upt_rec nth_Cons')
  moreover have "chars_of ''a'' = [0x61]" "chars_of ''b'' = [0x62]" "chars_of ''n'' = [0x6e]" by code_simp+
  ultimately have "columns_ok demo_compare 2 3"
    by (auto simp: columns_ok_def demo_compare_def demo_state_def blen_def demo_order_def b2a_def order_cell_def upt_rec nth_Cons' Let_def)
  then show ?thesis using tables rows
    by (simp add: two_way_def demo_compare_def demo_state_def demo_flags_def two_way_flags_def rows_ok_def blen_def demo_order_def Let_def)
qed


section \<open>Limits\<close>

definition final_names :: "merger option \<Rightarrow> byte list list list" where
  "final_names r = (case r of None \<Rightarrow> [] | Some m \<Rightarrow> concat (map (\<lambda>c. case c of Change_name True _ ns \<Rightarrow> [ns] | _ \<Rightarrow> []) (calls m)))"

text \<open>Two columns that swap their names: each renaming looks for the first column of the old name, and the second undoes the first.\<close>

lemma swapped_names_lost:
  "final_names (merger_merge (let t = demo_table [[''1'', ''2'']] in demo_state t t t (same_order 1, same_order 1) (same_order 2, same_order 2)
     [''a'', ''b''] [''b'', ''a'']) (new_Viterbi 0 0 0)) = [map chars_of [''a'', ''b'']]"
  by code_simp

text \<open>A column the local table has added is deleted in place of the one the remote table has dropped: the number of the
  dropped column in the pivot is taken for a number of the local table.\<close>

lemma wrong_column_deleted:
  "map_option (\<lambda>c. map namesAfter (cc c)) (delete_columns [] [MatchUnit (- 1) 0 (- 1) False MATCH_UNIT_PRESERVE, MatchUnit 0 1 (- 1) True MATCH_UNIT_DELETE]
     \<lparr>local_cols = [0, 1], local_col_names = map chars_of [''added'', ''dropped''], cc = [], constantIndex = True, cols_gone = False\<rparr>) =
   Some [[chars_of ''dropped'']]"
  by code_simp

text \<open>With fixed columns, a column only the remote table has is skipped but its name is not: the changes of the columns
  behind it are looked up under the wrong names and lost.\<close>

lemma fixed_columns_lose_changes:
  "map_option (\<lambda>m. filter (\<lambda>c. case c of Change_row _ \<Rightarrow> True | _ \<Rightarrow> False) (calls m))
     (merger_merge ((let t = demo_table [[''1'']] in demo_state t t (demo_table [[''x'', ''2'']]) (same_order 1, same_order 1) (same_order 1, demo_order [1] [- 1, 0])
       [''a''] [''n'', ''a''])\<lparr>mflags := demo_flags\<lparr>fixed_columns := True\<rparr>\<rparr>) (new_Viterbi 0 0 0)) = Some []"
  by code_simp

definition row_modes :: "merger option \<Rightarrow> (row_mode \<times> int \<times> int) list" where
  "row_modes r = (case r of None \<Rightarrow> [] | Some m \<Rightarrow> concat (map (\<lambda>c. case c of Change_row x \<Rightarrow> [(rmode x, lRow x, rRow x)] | _ \<Rightarrow> []) (calls m)))"

text \<open>The first two rows change places: the first row of the local table is never said to have moved, and nothing is
  done about the order of the rows.\<close>

lemma swapped_rows_lost:
  "row_modes (let l = demo_table [[''1''], [''2''], [''3'']]; r = demo_table [[''2''], [''1''], [''3'']] in
     merger_merge (demo_state l l r (same_order 3, demo_order [1, 0, 2] [1, 0, 2]) (same_order 1, same_order 1) [''a''] [''a'']) (new_Viterbi 0 0 0)) =
   [(ROW_CHANGE_CONTEXT, 1, 0)]"
  by code_simp

text \<open>One row is inserted before the first row and one behind it: both insertions follow each other without the context
  that would say the second one comes behind the first row.\<close>

lemma inserted_row_misplaced:
  "row_modes (let l = demo_table [[''1'']]; r = demo_table [[''x''], [''1''], [''y'']] in
     merger_merge (demo_state l l r (same_order 1, demo_order [1] [- 1, 0, - 1]) (same_order 1, same_order 1) [''a''] [''a'']) (new_Viterbi 0 0 0)) =
   [(ROW_CHANGE_CONTEXT, - 2, - 2), (ROW_CHANGE_INSERT, - 1, 0), (ROW_CHANGE_INSERT, - 1, 2)]"
  by code_simp

end
