(* ===== verification/Spec2Isabelle.thy ===== *)
theory Spec2Isabelle
  imports Csv_Sheet_Correct Fossil_Delta_Roundtrip Fossil_Bag Fossil_Pqueue Fossil_Encode_Correct
    Typed_Sheet_Correct Fossil_Merge_Correct Fossil_Blob_Zip Fossil_Unified Sheet_Hash Merger_Correct
begin

text \<open>
  A verification development for coopy (\<^verbatim>\<open>src/\<close>), the toolbox that compares, patches and merges tables and keeps
  them in a versioned repository.

  \<^bold>\<open>The program.\<close>  Tables are read from and written to files (\<^verbatim>\<open>libcsv\<close>, with the classes \<open>CsvSheet\<close> and
  \<open>DataSheet\<close>), held in memory (\<open>TypedSheet\<close>, \<open>SparseSheet\<close>), identified by a checksum (\<open>getHash\<close> over SHA-1),
  compared and merged (\<^verbatim>\<open>libcoopy_core\<close>: the order of the rows and columns of the merged table is found by
  \<open>OrderMerge\<close> with the search \<open>Viterbi\<close>, and columns are put in place with \<open>Mover\<close>), and stored in the versioning
  engine that comes with coopy (\<^verbatim>\<open>ssfossil\<close>: byte buffers, encodings, deltas between versions, a line differ, a
  three-way merge of texts with a hook through which tables are merged).  Paths below are relative to
  \<^verbatim>\<open>src/src/\<close>.

  \<^bold>\<open>Theories, the code they model and what they show.\<close>

  \<^item> \<^verbatim>\<open>Coopy_Prelude\<close>: machine words, bounded arrays, list lemmas, and the interfaces \<open>stream_consumer\<close> (input may
    come in chunks), \<open>codec\<close> (decoding undoes encoding) and \<open>number_format\<close> (numbers read from the front of a text),
    a \<open>codec\<close> by a sublocale.

  \<^item> \<^verbatim>\<open>Csv_Parser\<close> (\<^verbatim>\<open>libcsv/libcsv.c\<close>, all of it): the record \<open>csv_parser\<close> is \<^verbatim>\<open>struct csv_parser\<close>, one definition per state
    of the loop of \<open>csv_parse\<close>, \<open>csv_fini\<close>, the writers.  \<^verbatim>\<open>Csv_Spec\<close> has an automaton without a buffer, the
    invariant and the laws of the allocator; \<^verbatim>\<open>Csv_Correct\<close>, \<^verbatim>\<open>Csv_Refine\<close>, \<^verbatim>\<open>Csv_Roundtrip\<close> show that
    chunks do not matter (C1, interpretation \<open>csv\<close>), memory safety (C2), refinement of the automaton (C3), that
    written fields are read back (C4), the exact output of the writers (C5), what the finaliser does (C6) and the
    one store behind the buffer (C7).  \<^verbatim>\<open>Csv_Replay\<close> has the interface \<open>event_client\<close>: callbacks only see events.

  \<^item> \<^verbatim>\<open>Typed_Sheet\<close> (\<^verbatim>\<open>libcoopy_core/include/coopy/TypedSheet.h\<close>, \<^verbatim>\<open>DataSheet.h\<close>) and \<^verbatim>\<open>Typed_Sheet_Correct\<close>: rectangular
    tables; moving, inserting and deleting rows and columns (C24 to C27) through the interface \<open>line_editor\<close>,
    interpreted once for rows and once for columns.

  \<^item> \<^verbatim>\<open>Csv_Sheet\<close> (\<^verbatim>\<open>libcoopy_core/CsvSheet.cpp\<close>, \<^verbatim>\<open>DataSheet.cpp\<close>, \<^verbatim>\<open>libcsv/CsvRead.cpp\<close>) and \<^verbatim>\<open>Csv_Sheet_Correct\<close>: text form
    of a table and the callbacks of the reader (interpretation of \<open>event_client\<close>); a written table is read back
    by the modelled parser (C28).

  \<^item> \<^verbatim>\<open>Sha1\<close>, \<^verbatim>\<open>Sha1_Correct\<close> (\<^verbatim>\<open>libcoopy_core/Sha1Generator.cpp\<close>): the incremental generator computes the function of
    the standard for any way of cutting the text (C37).  \<^verbatim>\<open>Sheet_Hash\<close> (\<open>DataSheet::getHash\<close>): the checksum of a
    table (C39), and two ways in which it does not identify one.

  \<^item> \<^verbatim>\<open>C_Float\<close>: rounding of \<open>double\<close> and \<open>float\<close> on rational numbers, monotone.  \<^verbatim>\<open>Sparse_Sheet\<close>
    (\<^verbatim>\<open>libcoopy_core/include/coopy/SparseSheet.h\<close>).  \<^verbatim>\<open>Viterbi_Search\<close> (\<^verbatim>\<open>libcoopy_core/Viterbi.cpp\<close>), \<^verbatim>\<open>Lattice\<close> (cheapest walks
    over any monotone addition of costs, the interface \<open>monotone_cost\<close>) and \<^verbatim>\<open>Viterbi_Correct\<close> (interpretation with
    float addition): the path found is a walk through the lattice that none undercuts (C38).

  \<^item> \<^verbatim>\<open>Order_Merge\<close> (\<^verbatim>\<open>libcoopy_core/OrderMerge.cpp\<close>, \<^verbatim>\<open>OrderResult.h\<close>, \<^verbatim>\<open>MatchUnit.h\<close>), \<^verbatim>\<open>Order_Merge_Correct\<close>, \<^verbatim>\<open>Order_Chain\<close>: merging
    two orders ends, lists exactly the units of the merged table (C14), and keeps the order of the one table that
    changed it (C16).  \<^verbatim>\<open>Mover\<close>, \<^verbatim>\<open>Mover_Correct\<close> (\<^verbatim>\<open>libcoopy_core/Mover.cpp\<close> and its use in \<^verbatim>\<open>Merger.cpp\<close>): the moves found
    reach the wanted order (C40).

  \<^item> \<^verbatim>\<open>Fossil_Delta\<close>, \<^verbatim>\<open>Fossil_Delta_Correct\<close>, \<^verbatim>\<open>Fossil_Delta_Roundtrip\<close> (\<^verbatim>\<open>ssfossil/fossil/src/delta.c\<close>): a delta applied to
    its source is the target and fits its buffer (C8), any delta is applied safely or rejected (C9), numbers are read
    back (C10), the rolling hash is the hash of its window (C11), the checksum is a sum of words (C12).

  \<^item> \<^verbatim>\<open>Fossil_Bag\<close> (\<^verbatim>\<open>bag.c\<close>): the hash table simulates a multiset (C13, interface \<open>item_bag\<close>) and is walked
    completely (C15).  \<^verbatim>\<open>Fossil_Pqueue\<close> (\<^verbatim>\<open>pqueue.c\<close>): refinement of a multiset (C17), sorting (C18).

  \<^item> \<^verbatim>\<open>Fossil_Encode\<close>, \<^verbatim>\<open>Fossil_Encode_Correct\<close> (\<^verbatim>\<open>encode.c\<close>): round trips of base 16, base 64, fossilized and http text
    (C19 to C22), no markup left by \<open>htmlize\<close> (C23).

  \<^item> \<^verbatim>\<open>Fossil_Blob\<close>, \<^verbatim>\<open>Fossil_Blob_Correct\<close>, \<^verbatim>\<open>Fossil_Blob_Zip\<close> (\<^verbatim>\<open>blob.c\<close>): the invariant of byte buffers (C30), appending
    (C31), tokens (C32), compression (C35).

  \<^item> \<^verbatim>\<open>Fossil_Diff\<close>, \<^verbatim>\<open>Fossil_Diff_Runs\<close>, \<^verbatim>\<open>Fossil_Diff_Step\<close>, \<^verbatim>\<open>Fossil_Diff_Correct\<close>, \<^verbatim>\<open>Fossil_Unified\<close> (\<^verbatim>\<open>diff.c\<close>): the triples are an edit
    script from one file to the other (C29), the unified diff shows it (C36).  \<^verbatim>\<open>Fossil_Merge\<close>,
    \<^verbatim>\<open>Fossil_Merge_Correct\<close> (\<^verbatim>\<open>merge3.c\<close>, \<^verbatim>\<open>ssfossil/src/csv_hooks.cpp\<close>): what a merged text consists of (C33), and
    that a version merged with the pivot is the version (C34).

  \<^bold>\<open>Conventions.\<close>  A C struct or C++ object is a record that operations take and return; \<open>None\<close> is an access outside
  of an array, a failed assertion or another undefined step, so a theorem that an operation gives \<open>Some\<close> is also one
  about safety.  Machine integers are words, or numbers with \<open>mod 2 ^ 32\<close> written out; a \<open>std::set\<close> is a sorted list, a
  hash table a map.  Loops are total functions, by structure or with a measure; no fuel is used.  Three are
  \<open>partial_function\<close>s: that of \<open>digit_count\<close>, which does not end for large values (a lemma shows it), and the two loops of
  the merge, of which C33 and C34 show that they return.  Parameters stand for what the sources do not define: the allocator, the value of indeterminate memory
  and of reads behind an array, zlib, the reader and the comparison of tables behind the merge hook, the state a
  \<open>Viterbi\<close> object starts from.

  \<^bold>\<open>Not modelled.\<close>  Of \<^verbatim>\<open>libcoopy_core\<close>: the comparison of sheets and books with its measures and sniffers, patch readers
  and writers, properties and strings, and \<open>Merger\<close> beyond the loop that moves columns.  Of the versioning engine: the
  repository, its database, network, wiki and command line; in the modelled files the test commands, printing and file
  access.  Formats of other programs (Access, Gnumeric, SQLite and remote databases, SocialCalc, JSON), the generated
  Haxe code of \<^verbatim>\<open>libcoopyhx\<close>, \<^verbatim>\<open>libcoopy_full\<close>, \<^verbatim>\<open>libcoopy_fold\<close>, \<^verbatim>\<open>libcoopy_sqldiff\<close>, the graphical and
  command-line front ends and the bindings: they are input and output, generated, third-party, or glue.

  \<^bold>\<open>Plan.\<close>  The measures of the comparison (\<^verbatim>\<open>MeasureMan.cpp\<close>, \<^verbatim>\<open>FMap.h\<close>) and what they make of an \<open>OrderResult\<close>; the
  conflict logic of \<^verbatim>\<open>Merger.cpp\<close>; the patch writer and \<^verbatim>\<open>SheetPatcher.cpp\<close>, with the round trip of a difference;
  sheets of several tables in \<^verbatim>\<open>CsvRead.cpp\<close>.
\<close>

end
